(* ===== verification/Prelude.thy ===== *)
theory Prelude
  imports Main "HOL-Library.Word"
begin

text \<open>
  Shared vocabulary of the development. Rust's \<open>u64\<close>, \<open>u32\<close>, \<open>u16\<close> and \<open>usize\<close> are
  natural numbers; the operations that may leave the width (\<open>wrapping\<close>, \<open>checked_*\<close>,
  \<open>saturating_*\<close>) are written out here. \<open>usize\<close> is 64 bits wide. Bytes are \<open>8 word\<close>.
  A Rust \<open>Result<T, E>\<close> is the sum \<open>'e + 'a\<close> with \<open>Inl\<close> the error.
\<close>

type_synonym byte = "8 word"
type_synonym bytes = "byte list"
type_synonym ('a, 'e) result = "'e + 'a"

named_theorems res_simps \<open>rewriting of results and of the question-mark operator\<close>
named_theorems u64_simps \<open>the width-limited operations\<close>

subsection \<open>Results: the question-mark operator and map_err\<close>

definition try_bind :: "('a, 'e) result \<Rightarrow> ('a \<Rightarrow> ('b, 'e) result) \<Rightarrow> ('b, 'e) result" where
  "try_bind m f = (case m of Inl e \<Rightarrow> Inl e | Inr x \<Rightarrow> f x)"

definition map_err :: "('e \<Rightarrow> 'f) \<Rightarrow> ('a, 'e) result \<Rightarrow> ('a, 'f) result" where
  "map_err g m = (case m of Inl e \<Rightarrow> Inl (g e) | Inr x \<Rightarrow> Inr x)"

definition ok_or :: "'e \<Rightarrow> 'a option \<Rightarrow> ('a, 'e) result" where
  "ok_or e m = (case m of None \<Rightarrow> Inl e | Some x \<Rightarrow> Inr x)"

definition is_ok :: "('a, 'e) result \<Rightarrow> bool" where
  "is_ok m = (case m of Inl _ \<Rightarrow> False | Inr _ \<Rightarrow> True)"

lemma try_bind_simps [simp]:
  "try_bind (Inl e) f = Inl e"
  "try_bind (Inr x) f = f x"
  by (simp_all add: try_bind_def)

lemma try_bind_Inr_iff [res_simps]:
  "try_bind m f = Inr y \<longleftrightarrow> (\<exists>x. m = Inr x \<and> f x = Inr y)"
  by (cases m) auto

lemma try_bind_Inl_iff [res_simps]:
  "try_bind m f = Inl e \<longleftrightarrow> m = Inl e \<or> (\<exists>x. m = Inr x \<and> f x = Inl e)"
  by (cases m) auto

lemma map_err_simps [simp]:
  "map_err g (Inl e) = Inl (g e)"
  "map_err g (Inr x) = Inr x"
  by (simp_all add: map_err_def)

lemma map_err_Inr_iff [simp]: "map_err g m = Inr y \<longleftrightarrow> m = Inr y"
  by (cases m) auto

lemma ok_or_simps [simp]:
  "ok_or e None = Inl e"
  "ok_or e (Some x) = Inr x"
  by (simp_all add: ok_or_def)

lemma ok_or_Inr_iff [simp]: "ok_or e m = Inr y \<longleftrightarrow> m = Some y"
  by (cases m) auto

lemma ok_or_Inl_iff [simp]: "ok_or e m = Inl e' \<longleftrightarrow> m = None \<and> e' = e"
  by (cases m) auto

lemma is_ok_simps [simp]: "is_ok (Inr x)" "\<not> is_ok (Inl e)"
  by (simp_all add: is_ok_def)

lemma is_ok_iff [res_simps]: "is_ok m \<longleftrightarrow> (\<exists>x. m = Inr x)"
  by (cases m) auto

text \<open>\<open>iter.map(f).collect::<Result<Vec<_>, _>>()\<close>: the first error stops the traversal.\<close>

fun try_map :: "('a \<Rightarrow> ('b, 'e) result) \<Rightarrow> 'a list \<Rightarrow> ('b list, 'e) result" where
  "try_map f [] = Inr []"
| "try_map f (x # xs) =
     (case f x of Inl e \<Rightarrow> Inl e
      | Inr y \<Rightarrow> (case try_map f xs of Inl e \<Rightarrow> Inl e | Inr ys \<Rightarrow> Inr (y # ys)))"

lemma try_map_Inr_iff:
  "try_map f xs = Inr ys \<longleftrightarrow> list_all2 (\<lambda>x y. f x = Inr y) xs ys"
proof (induction xs arbitrary: ys)
  case Nil
  then show ?case by auto
next
  case (Cons x xs)
  show ?case
  proof (cases "f x")
    case (Inl e)
    then show ?thesis by (auto simp: list_all2_Cons1)
  next
    case (Inr y)
    then show ?thesis
      by (cases "try_map f xs") (auto simp: list_all2_Cons1 Cons.IH [symmetric])
  qed
qed

lemma try_map_ok: "(\<And>x. x \<in> set xs \<Longrightarrow> f x = Inr (g x)) \<Longrightarrow> try_map f xs = Inr (map g xs)"
  by (induction xs) auto

lemma try_map_length: "try_map f xs = Inr ys \<Longrightarrow> length ys = length xs"
  by (auto simp: try_map_Inr_iff dest: list_all2_lengthD)

subsection \<open>Width-limited natural numbers\<close>

definition u64_max :: nat where "u64_max = 2 ^ 64 - 1"
definition u32_max :: nat where "u32_max = 2 ^ 32 - 1"
definition u16_max :: nat where "u16_max = 2 ^ 16 - 1"
definition i64_max :: nat where "i64_max = 2 ^ 63 - 1"

definition wrap64 :: "nat \<Rightarrow> nat" where
  "wrap64 n = n mod 2 ^ 64"

definition checked_sub :: "nat \<Rightarrow> nat \<Rightarrow> nat option" where
  "checked_sub a b = (if b \<le> a then Some (a - b) else None)"

definition saturating_sub :: "nat \<Rightarrow> nat \<Rightarrow> nat" where
  "saturating_sub a b = a - b"

definition checked_add :: "nat \<Rightarrow> nat \<Rightarrow> nat option" where
  "checked_add a b = (if a + b \<le> u64_max then Some (a + b) else None)"

definition saturating_add :: "nat \<Rightarrow> nat \<Rightarrow> nat" where
  "saturating_add a b = min (a + b) u64_max"

definition checked_mul :: "nat \<Rightarrow> nat \<Rightarrow> nat option" where
  "checked_mul a b = (if a * b \<le> u64_max then Some (a * b) else None)"

definition checked_div :: "nat \<Rightarrow> nat \<Rightarrow> nat option" where
  "checked_div a b = (if b = 0 then None else Some (a div b))"

definition wrapping_add :: "nat \<Rightarrow> nat \<Rightarrow> nat" where
  "wrapping_add a b = wrap64 (a + b)"

definition wrapping_sub :: "nat \<Rightarrow> nat \<Rightarrow> nat" where
  "wrapping_sub a b = (if b \<le> a then a - b else 2 ^ 64 + a - b)"

definition div_ceil :: "nat \<Rightarrow> nat \<Rightarrow> nat" where
  "div_ceil a b = (if a mod b = 0 then a div b else a div b + 1)"

lemmas width_defs = checked_sub_def saturating_sub_def checked_add_def saturating_add_def
  checked_mul_def checked_div_def wrapping_add_def wrapping_sub_def wrap64_def

lemma u64_max_eq: "u64_max = 18446744073709551615"
  by (simp add: u64_max_def)

lemma wrap64_id [u64_simps]: "n \<le> u64_max \<Longrightarrow> wrap64 n = n"
  by (simp add: wrap64_def u64_max_def)

lemma wrapping_add_id [u64_simps]: "a + b \<le> u64_max \<Longrightarrow> wrapping_add a b = a + b"
  by (simp add: wrapping_add_def wrap64_id)

lemma wrapping_sub_id [u64_simps]: "b \<le> a \<Longrightarrow> wrapping_sub a b = a - b"
  by (simp add: wrapping_sub_def)

lemma div_ceil_ge: "0 < b \<Longrightarrow> a \<le> b * div_ceil a b"
proof -
  assume "0 < b"
  then have "a mod b < b" by simp
  moreover have "b * (a div b) + a mod b = a" by simp
  ultimately have "a \<le> b * (a div b) + b" by linarith
  moreover have "a mod b = 0 \<Longrightarrow> a \<le> b * (a div b)"
    using \<open>b * (a div b) + a mod b = a\<close> by linarith
  ultimately show ?thesis by (auto simp: div_ceil_def algebra_simps)
qed

lemma div_ceil_least: "0 < b \<Longrightarrow> a \<le> b * k \<Longrightarrow> div_ceil a b \<le> k"
proof -
  assume b: "0 < b" and le: "a \<le> b * k"
  have div: "a div b \<le> k" using div_le_mono [OF le, of b] b by simp
  have "a div b < k" if "a mod b \<noteq> 0"
  proof (rule ccontr)
    assume "\<not> a div b < k"
    with div have "a div b = k" by simp
    then have "b * k + a mod b = a" by (metis mult_div_mod_eq)
    with that le show False by linarith
  qed
  then show ?thesis using div by (auto simp: div_ceil_def)
qed

end
