(* ===== verification/Height_Set.thy ===== *)
theory Height_Set
  imports Prelude
begin

text \<open>
  Sets of block heights as an interface: the laws that every component storing heights relies on,
  proved once in the locale \<open>height_set\<close> and discharged for the \<open>BlockRanges\<close> of
  \<open>node/src/block_ranges.rs\<close> by an interpretation in \<open>Block_Ranges\<close>. The last law of the interface, that
  the representation is determined by the heights, is what makes bulk insertions commute.
\<close>

section \<open>The interface of a set of heights\<close>

text \<open>
  What the stores, the sampler and the syncer rely on: a container of heights with bulk insertion
  and removal of ranges, whose representation is determined by the heights it holds.
\<close>

locale height_set =
  fixes hs_empty :: 's
    and hs_contains :: "'s \<Rightarrow> nat \<Rightarrow> bool"
    and hs_insert :: "'s \<Rightarrow> nat \<times> nat \<Rightarrow> 'e + 's"
    and hs_remove :: "'s \<Rightarrow> nat \<times> nat \<Rightarrow> 'e + 's"
    and hs_heights :: "'s \<Rightarrow> nat set"
    and hs_invar :: "'s \<Rightarrow> bool"
  assumes hs_empty: "hs_invar hs_empty" "hs_heights hs_empty = {}"
    and hs_contains: "hs_invar s \<Longrightarrow> hs_contains s h \<longleftrightarrow> h \<in> hs_heights s"
    and hs_insert: "hs_invar s \<Longrightarrow> 0 < fst r \<Longrightarrow> fst r \<le> snd r \<Longrightarrow>
      \<exists>s'. hs_insert s r = Inr s' \<and> hs_invar s' \<and> hs_heights s' = hs_heights s \<union> {fst r..snd r}"
    and hs_remove: "hs_invar s \<Longrightarrow> 0 < fst r \<Longrightarrow> fst r \<le> snd r \<Longrightarrow>
      \<exists>s'. hs_remove s r = Inr s' \<and> hs_invar s' \<and> hs_heights s' = hs_heights s - {fst r..snd r}"
    and hs_unique: "hs_invar s \<Longrightarrow> hs_invar t \<Longrightarrow> hs_heights s = hs_heights t \<Longrightarrow> s = t"
begin

lemma insert_commutes:
  assumes "hs_invar s" "0 < fst a" "fst a \<le> snd a" "0 < fst b" "fst b \<le> snd b"
  shows "try_bind (hs_insert s a) (\<lambda>s. hs_insert s b) = try_bind (hs_insert s b) (\<lambda>s. hs_insert s a)"
proof -
  obtain sa where a: "hs_insert s a = Inr sa" "hs_invar sa" "hs_heights sa = hs_heights s \<union> {fst a..snd a}"
    using hs_insert [OF assms(1)] assms(2-5) by metis
  obtain sb where b: "hs_insert s b = Inr sb" "hs_invar sb" "hs_heights sb = hs_heights s \<union> {fst b..snd b}"
    using hs_insert [OF assms(1)] assms(2-5) by metis
  obtain sab where ab: "hs_insert sa b = Inr sab" "hs_invar sab" "hs_heights sab = hs_heights sa \<union> {fst b..snd b}"
    using hs_insert [OF a(2)] assms(4,5) by metis
  obtain sba where ba: "hs_insert sb a = Inr sba" "hs_invar sba" "hs_heights sba = hs_heights sb \<union> {fst a..snd a}"
    using hs_insert [OF b(2)] assms(2,3) by metis
  have "hs_heights sab = hs_heights sba" using ab(3) ba(3) a(3) b(3) by auto
  then have "sab = sba" by (rule hs_unique [OF ab(2) ba(2)])
  with a b ab ba show ?thesis by (simp add: try_bind_def)
qed

lemma remove_insert_cancels:
  assumes "hs_invar s" "0 < fst r" "fst r \<le> snd r" "hs_heights s \<inter> {fst r..snd r} = {}"
  shows "try_bind (hs_insert s r) (\<lambda>s. hs_remove s r) = Inr s"
proof -
  obtain s' where i: "hs_insert s r = Inr s'" "hs_invar s'" "hs_heights s' = hs_heights s \<union> {fst r..snd r}"
    using hs_insert [OF assms(1-3)] by blast
  obtain t where t: "hs_remove s' r = Inr t" "hs_invar t" "hs_heights t = hs_heights s' - {fst r..snd r}"
    using hs_remove [OF i(2) assms(2,3)] by blast
  have "hs_heights t = hs_heights s" using t(3) i(3) assms(4) by auto
  then have "t = s" by (rule hs_unique [OF t(2) assms(1)])
  with i t show ?thesis by (simp add: try_bind_def)
qed

lemma insert_absorbs:
  assumes "hs_invar s" "0 < fst r" "fst r \<le> snd r" "{fst r..snd r} \<subseteq> hs_heights s"
  shows "hs_insert s r = Inr s"
proof -
  obtain s' where "hs_insert s r = Inr s'" "hs_invar s'" "hs_heights s' = hs_heights s"
    using hs_insert [OF assms(1-3)] assms(4) by (auto simp: sup.absorb1)
  with hs_unique [OF _ assms(1)] show ?thesis by blast
qed

lemma remove_absorbs:
  assumes "hs_invar s" "0 < fst r" "fst r \<le> snd r" "hs_heights s \<inter> {fst r..snd r} = {}"
  shows "hs_remove s r = Inr s"
proof -
  obtain s' where "hs_remove s r = Inr s'" "hs_invar s'" "hs_heights s' = hs_heights s"
    using hs_remove [OF assms(1-3)] assms(4) by (auto simp: Diff_triv)
  with hs_unique [OF _ assms(1)] show ?thesis by blast
qed

end

end
