(* ===== verification/Block_Ranges.thy ===== *)
theory Block_Ranges
  imports Height_Set
begin

text \<open>
  The height ranges of \<^verbatim>\<open>node/src/block_ranges.rs\<close>: one inclusive range (\<open>BlockRange\<close>) with
  the operations of \<open>BlockRangeExt\<close>, and the sorted list of disjoint ranges \<open>BlockRanges\<close>
  that the stores, the syncer and the sampler keep. The denotation of a \<open>BlockRanges\<close> is
  the set of heights it covers (\<open>heights\<close>); the operations are proved to be insertion,
  removal, union, difference, minimum and maximum of that set, and to keep the list
  sorted and disjoint (\<open>wf_ranges\<close>) and free of adjacent neighbours (\<open>canonical\<close>).
  The \<open>debug_assert!\<close>s of the source are not part of a release build and are not modelled;
  the lemmas that need what they assert state it.
\<close>

section \<open>One range\<close>

type_synonym block_range = "nat \<times> nat"

abbreviation range_start :: "block_range \<Rightarrow> nat" where
  "range_start \<equiv> fst"

abbreviation range_end :: "block_range \<Rightarrow> nat" where
  "range_end \<equiv> snd"

datatype block_ranges_error =
    UnsortedBlockRanges
  | InvalidBlockRange block_range
  | BlockRangeOverlap block_range block_range
  | NoAdjacentNeighbors block_range

text \<open>\<open>RangeInclusive::contains\<close> and \<open>RangeInclusive::is_empty\<close> of the standard library.\<close>

definition range_contains :: "block_range \<Rightarrow> nat \<Rightarrow> bool" where
  "range_contains r h \<longleftrightarrow> range_start r \<le> h \<and> h \<le> range_end r"

definition range_is_empty :: "block_range \<Rightarrow> bool" where
  "range_is_empty r \<longleftrightarrow> \<not> range_start r \<le> range_end r"

definition validate :: "block_range \<Rightarrow> (unit, block_ranges_error) result" where
  "validate r =
     (if range_start r > 0 \<and> range_start r \<le> range_end r then Inr ()
      else Inl (InvalidBlockRange r))"

definition range_len :: "block_range \<Rightarrow> nat" where
  "range_len r =
     (case checked_sub (range_end r) (range_start r) of
        Some difference \<Rightarrow> wrapping_add difference 1
      | None \<Rightarrow> 0)"

definition is_adjacent :: "block_range \<Rightarrow> block_range \<Rightarrow> bool" where
  "is_adjacent self other =
     (if range_end self = saturating_sub (range_start other) 1 then True
      else if saturating_sub (range_start self) 1 = range_end other then True
      else False)"

definition is_overlapping :: "block_range \<Rightarrow> block_range \<Rightarrow> bool" where
  "is_overlapping self other =
     (if range_start self < range_start other \<and> range_contains other (range_end self) then True
      else if range_end self > range_end other \<and> range_contains other (range_start self) then True
      else if range_start self \<ge> range_start other \<and> range_end self \<le> range_end other then True
      else if range_start self \<le> range_start other \<and> range_end self \<ge> range_end other then True
      else False)"

definition left_of :: "block_range \<Rightarrow> block_range \<Rightarrow> bool" where
  "left_of self other \<longleftrightarrow> range_end self < range_start other"

definition truncate_left :: "block_range \<Rightarrow> nat \<Rightarrow> block_range" where
  "truncate_left self limit =
     (if range_is_empty self then (1, 0)
      else let start = range_start self; end' = range_end self in
        (case checked_add (saturating_sub end' limit) 1 of
           None \<Rightarrow> (1, 0)
         | Some adjusted_start \<Rightarrow> (max start adjusted_start, end')))"

definition truncate_right :: "block_range \<Rightarrow> nat \<Rightarrow> block_range" where
  "truncate_right self limit =
     (if range_is_empty self then (1, 0)
      else let start = range_start self; end' = range_end self in
        (case checked_sub (saturating_add start limit) 1 of
           None \<Rightarrow> (1, 0)
         | Some adjusted_end \<Rightarrow> (start, min end' adjusted_end)))"

section \<open>Sorted lists of ranges\<close>

type_synonym block_ranges = "block_range list"

definition new_ranges :: block_ranges where
  "new_ranges = []"

text \<open>The loop of \<open>from_vec\<close>; \<open>prev\<close> is the range of the previous iteration.\<close>

fun from_vec_loop ::
  "block_range option \<Rightarrow> block_range list \<Rightarrow> (unit, block_ranges_error) result" where
  "from_vec_loop prev [] = Inr ()"
| "from_vec_loop prev (rng # ranges) =
     try_bind (validate rng) (\<lambda>_.
       if (case prev of Some p \<Rightarrow> range_start rng \<le> range_end p | None \<Rightarrow> False)
       then Inl UnsortedBlockRanges
       else from_vec_loop (Some rng) ranges)"

definition from_vec :: "block_range list \<Rightarrow> (block_ranges, block_ranges_error) result" where
  "from_vec ranges = try_bind (from_vec_loop None ranges) (\<lambda>_. Inr ranges)"

definition contains :: "block_ranges \<Rightarrow> nat \<Rightarrow> bool" where
  "contains rs height = list_ex (\<lambda>r. range_contains r height) rs"

definition is_empty :: "block_ranges \<Rightarrow> bool" where
  "is_empty rs = list_all range_is_empty rs"

definition head :: "block_ranges \<Rightarrow> nat option" where
  "head rs = (if rs = [] then None else Some (range_end (last rs)))"

definition tail :: "block_ranges \<Rightarrow> nat option" where
  "tail rs = (case rs of [] \<Rightarrow> None | r # _ \<Rightarrow> Some (range_start r))"

fun find_affected_loop ::
  "block_range \<Rightarrow> nat \<Rightarrow> nat option \<Rightarrow> nat option \<Rightarrow> block_range list
    \<Rightarrow> nat option \<times> nat option" where
  "find_affected_loop rng i start_idx end_idx [] = (start_idx, end_idx)"
| "find_affected_loop rng i start_idx end_idx (r # rs) =
     (if is_overlapping r rng \<or> is_adjacent r rng
      then find_affected_loop rng (i + 1)
             (if start_idx = None then Some i else start_idx) (Some i) rs
      else if end_idx \<noteq> None then (start_idx, end_idx)
      else find_affected_loop rng (i + 1) start_idx end_idx rs)"

definition find_affected_ranges :: "block_ranges \<Rightarrow> block_range \<Rightarrow> (nat \<times> nat) option" where
  "find_affected_ranges rs rng =
     (case find_affected_loop rng 0 None None rs of
        (Some s, Some e) \<Rightarrow> Some (s, e)
      | _ \<Rightarrow> None)"

definition calc_overlap :: "block_range \<Rightarrow> block_range \<Rightarrow> block_range \<Rightarrow> block_range" where
  "calc_overlap to_insert first_range last_range =
     (let start = max (range_start first_range) (range_start to_insert);
          end' = min (range_end last_range) (range_end to_insert)
      in (start, end'))"

definition check_insertion_constraints ::
  "block_ranges \<Rightarrow> block_range \<Rightarrow> (bool \<times> bool, block_ranges_error) result" where
  "check_insertion_constraints rs to_insert =
     try_bind (validate to_insert) (\<lambda>_.
       if rs = [] then Inr (False, False)
       else let head_range = last rs in
       if left_of head_range to_insert then Inr (is_adjacent head_range to_insert, False)
       else (case find_affected_ranges rs to_insert of
         None \<Rightarrow> Inl (NoAdjacentNeighbors to_insert)
       | Some (first_idx, last_idx) \<Rightarrow>
           let first' = rs ! first_idx; last' = rs ! last_idx;
               num_of_ranges = last_idx - first_idx + 1;
               overlap = BlockRangeOverlap to_insert (calc_overlap to_insert first' last')
           in if num_of_ranges = 1 then
                (if is_overlapping first' to_insert then Inl overlap
                 else if left_of first' to_insert then Inr (True, False)
                 else Inr (False, True))
              else if num_of_ranges = 2 then
                (if is_adjacent first' to_insert \<and> is_adjacent last' to_insert
                 then Inr (True, True) else Inl overlap)
              else Inl overlap))"

text \<open>Methods that mutate \<open>self\<close> return the new list beside their result.\<close>

definition pop_head :: "block_ranges \<Rightarrow> nat option \<times> block_ranges" where
  "pop_head rs =
     (if rs = [] then (None, rs)
      else let l = last rs; h = range_end l in
        if range_len l = 1 then (Some h, butlast rs)
        else (Some h, butlast rs @ [(range_start l, range_end l - 1)]))"

definition pop_tail :: "block_ranges \<Rightarrow> nat option \<times> block_ranges" where
  "pop_tail rs =
     (case rs of
        [] \<Rightarrow> (None, rs)
      | first # rest \<Rightarrow>
          let t = range_start first in
          if range_len first = 1 then (Some t, rest)
          else (Some t, (range_start first + 1, range_end first) # rest))"

text \<open>The \<open>for\<close> loop of \<open>insert_relaxed\<close> that places a range that touches no other.\<close>

fun insert_in_order :: "block_range \<Rightarrow> block_range list \<Rightarrow> block_range list" where
  "insert_in_order rng [] = [rng]"
| "insert_in_order rng (r # rs) =
     (if range_end rng < range_start r then rng # r # rs else r # insert_in_order rng rs)"

text \<open>\<open>drain(s..=e)\<close> followed by insertions at \<open>s\<close>.\<close>

definition replace_slice :: "'a list \<Rightarrow> nat \<Rightarrow> nat \<Rightarrow> 'a list \<Rightarrow> 'a list" where
  "replace_slice xs s e ys = take s xs @ ys @ drop (e + 1) xs"

definition insert_relaxed ::
  "block_ranges \<Rightarrow> block_range \<Rightarrow> (block_ranges, block_ranges_error) result" where
  "insert_relaxed rs rng =
     try_bind (validate rng) (\<lambda>_.
       case find_affected_ranges rs rng of
         Some (start_idx, end_idx) \<Rightarrow>
           let start = min (range_start (rs ! start_idx)) (range_start rng);
               end' = max (range_end (rs ! end_idx)) (range_end rng)
           in Inr (replace_slice rs start_idx end_idx [(start, end')])
       | None \<Rightarrow> Inr (insert_in_order rng rs))"

definition remove_relaxed ::
  "block_ranges \<Rightarrow> block_range \<Rightarrow> (block_ranges, block_ranges_error) result" where
  "remove_relaxed rs rng =
     try_bind (validate rng) (\<lambda>_.
       case find_affected_ranges rs rng of
         None \<Rightarrow> Inr rs
       | Some (start_idx, end_idx) \<Rightarrow>
           let first_range = rs ! start_idx; last_range = rs ! end_idx;
               right = (if range_end rng < range_end last_range
                        then [(range_end rng + 1, range_end last_range)] else []);
               left = (if range_start first_range < range_start rng
                       then [(range_start first_range, range_start rng - 1)] else [])
           in Inr (replace_slice rs start_idx end_idx (left @ right)))"

text \<open>
  \<open>Add\<close> and \<open>Sub\<close> fold the relaxed operations over the right operand; the \<open>expect\<close> of the
  source is the option type (\<open>None\<close> is the panic).
\<close>

fun ranges_add :: "block_ranges \<Rightarrow> block_ranges \<Rightarrow> block_ranges option" where
  "ranges_add self [] = Some self"
| "ranges_add self (rng # rhs) =
     (case insert_relaxed self rng of Inl _ \<Rightarrow> None | Inr self' \<Rightarrow> ranges_add self' rhs)"

fun ranges_sub :: "block_ranges \<Rightarrow> block_ranges \<Rightarrow> block_ranges option" where
  "ranges_sub self [] = Some self"
| "ranges_sub self (rng # rhs) =
     (case remove_relaxed self rng of Inl _ \<Rightarrow> None | Inr self' \<Rightarrow> ranges_sub self' rhs)"


text \<open>
  \<open>Iterator for BlockRanges\<close> pops the lowest height until none is left. On a list with an empty
  range this never ends, so collecting the iterator is a partial function.
\<close>

partial_function (option) collect_heights :: "block_ranges \<Rightarrow> nat list option" where
  "collect_heights rs =
     (case pop_tail rs of
        (None, _) \<Rightarrow> Some []
      | (Some h, rs') \<Rightarrow> Option.bind (collect_heights rs') (\<lambda>hs. Some (h # hs)))"

section \<open>What the ranges denote, and their invariants\<close>

definition valid_range :: "block_range \<Rightarrow> bool" where
  "valid_range r \<longleftrightarrow> 0 < fst r \<and> fst r \<le> snd r"

definition heights :: "block_ranges \<Rightarrow> nat set" where
  "heights rs = (\<Union>r \<in> set rs. {fst r..snd r})"

definition wf_ranges :: "block_ranges \<Rightarrow> bool" where
  "wf_ranges rs \<longleftrightarrow> (\<forall>r \<in> set rs. valid_range r) \<and> sorted_wrt (\<lambda>a b. snd a < fst b) rs"

definition canonical :: "block_ranges \<Rightarrow> bool" where
  "canonical rs \<longleftrightarrow> wf_ranges rs \<and> sorted_wrt (\<lambda>a b. snd a + 1 < fst b) rs"

text \<open>A range is affected by an insertion or a removal when it overlaps or touches it.\<close>

definition touches :: "block_range \<Rightarrow> block_range \<Rightarrow> bool" where
  "touches x r \<longleftrightarrow> fst x \<le> snd r + 1 \<and> fst r \<le> snd x + 1"

lemma validate_Inr [simp]: "validate r = Inr u \<longleftrightarrow> valid_range r"
  by (auto simp: validate_def valid_range_def)

lemma validate_valid [simp]: "valid_range r \<Longrightarrow> validate r = Inr ()"
  by (auto simp: validate_def valid_range_def)

lemma validate_invalid: "\<not> valid_range r \<Longrightarrow> validate r = Inl (InvalidBlockRange r)"
  by (auto simp: validate_def valid_range_def)

lemma is_overlapping_iff:
  "valid_range r \<Longrightarrow> valid_range x \<Longrightarrow>
     is_overlapping r x \<longleftrightarrow> fst x \<le> snd r \<and> fst r \<le> snd x"
  by (auto simp: is_overlapping_def range_contains_def valid_range_def)

lemma is_adjacent_iff:
  "valid_range r \<Longrightarrow> valid_range x \<Longrightarrow>
     is_adjacent r x \<longleftrightarrow> snd r + 1 = fst x \<or> snd x + 1 = fst r"
  by (auto simp: is_adjacent_def saturating_sub_def valid_range_def)

lemma affected_iff:
  "valid_range r \<Longrightarrow> valid_range x \<Longrightarrow>
     is_overlapping r x \<or> is_adjacent r x \<longleftrightarrow> touches x r"
  by (auto simp: is_overlapping_iff is_adjacent_iff touches_def valid_range_def)

lemma heights_simps [simp]:
  "heights [] = {}"
  "heights (r # rs) = {fst r..snd r} \<union> heights rs"
  "heights (xs @ ys) = heights xs \<union> heights ys"
  by (auto simp: heights_def)

lemma finite_heights [simp]: "finite (heights rs)"
  by (simp add: heights_def)

lemma wf_ranges_Nil [simp]: "wf_ranges []"
  by (simp add: wf_ranges_def)

lemma wf_ranges_Cons:
  "wf_ranges (r # rs) \<longleftrightarrow> valid_range r \<and> (\<forall>q \<in> set rs. snd r < fst q) \<and> wf_ranges rs"
  by (auto simp: wf_ranges_def)

lemma wf_ranges_append:
  "wf_ranges (xs @ ys) \<longleftrightarrow>
     wf_ranges xs \<and> wf_ranges ys \<and> (\<forall>a \<in> set xs. \<forall>b \<in> set ys. snd a < fst b)"
  by (auto simp: wf_ranges_def sorted_wrt_append)

lemma canonical_Nil [simp]: "canonical []"
  by (simp add: canonical_def)

lemma canonical_append:
  "canonical (xs @ ys) \<longleftrightarrow>
     canonical xs \<and> canonical ys \<and> (\<forall>a \<in> set xs. \<forall>b \<in> set ys. snd a + 1 < fst b)"
  by (fastforce simp: canonical_def sorted_wrt_append wf_ranges_append)

lemma canonical_single [simp]: "canonical [r] \<longleftrightarrow> valid_range r"
  by (auto simp: canonical_def wf_ranges_def)

lemma canonical_Cons:
  "canonical (r # rs) \<longleftrightarrow> valid_range r \<and> (\<forall>q \<in> set rs. snd r + 1 < fst q) \<and> canonical rs"
  using canonical_append [of "[r]" rs] by auto

lemma canonical_wf: "canonical rs \<Longrightarrow> wf_ranges rs"
  by (simp add: canonical_def)

lemma wf_valid: "wf_ranges rs \<Longrightarrow> r \<in> set rs \<Longrightarrow> valid_range r"
  by (simp add: wf_ranges_def)

lemma heights_pos: "wf_ranges rs \<Longrightarrow> h \<in> heights rs \<Longrightarrow> 0 < h"
  by (force simp: heights_def wf_ranges_def valid_range_def)

lemma wf_heights_empty: "wf_ranges rs \<Longrightarrow> heights rs = {} \<longleftrightarrow> rs = []"
  by (cases rs) (auto simp: wf_ranges_Cons valid_range_def)

lemma contains_iff: "contains rs h \<longleftrightarrow> h \<in> heights rs"
  by (auto simp: contains_def heights_def range_contains_def list_ex_iff)

lemma is_empty_iff: "wf_ranges rs \<Longrightarrow> is_empty rs \<longleftrightarrow> heights rs = {}"
  by (cases rs) (auto simp: is_empty_def range_is_empty_def wf_ranges_Cons valid_range_def)

lemma wf_hd_le: "wf_ranges rs \<Longrightarrow> r \<in> set rs \<Longrightarrow> fst (hd rs) \<le> fst r"
  by (cases rs) (force simp: wf_ranges_Cons valid_range_def)+

lemma wf_last_ge: "wf_ranges rs \<Longrightarrow> r \<in> set rs \<Longrightarrow> snd r \<le> snd (last rs)"
proof (induction rs)
  case (Cons q rs)
  show ?case
  proof (cases "rs = []")
    case False
    with Cons.prems have "snd q < fst (last rs)" "fst (last rs) \<le> snd (last rs)"
      by (auto simp: wf_ranges_Cons dest: wf_valid [of rs "last rs"] simp: valid_range_def)
    then have "snd q \<le> snd (last rs)" by linarith
    with Cons False show ?thesis by (auto simp: wf_ranges_Cons)
  qed (use Cons.prems in simp)
qed simp

section \<open>Splitting a list of ranges around a range\<close>

definition splits :: "block_range \<Rightarrow> block_ranges \<Rightarrow> block_ranges \<Rightarrow> block_ranges \<Rightarrow> bool" where
  "splits x L M R \<longleftrightarrow>
     (\<forall>r \<in> set L. snd r + 1 < fst x) \<and> (\<forall>r \<in> set M. touches x r) \<and>
     (\<forall>r \<in> set R. snd x + 1 < fst r)"

lemma splits_exists:
  assumes "wf_ranges rs"
  obtains L M R where "rs = L @ M @ R" "splits x L M R"
proof -
  have "\<exists>L M R. rs = L @ M @ R \<and> splits x L M R"
    using assms
  proof (induction rs)
    case Nil
    then show ?case by (auto simp: splits_def)
  next
    case (Cons r rs)
    then obtain L M R where rs: "rs = L @ M @ R" and sp: "splits x L M R"
      by (auto simp: wf_ranges_Cons)
    from Cons.prems have after: "\<forall>q \<in> set rs. snd r < fst q \<and> fst q \<le> snd q"
      by (auto simp: wf_ranges_Cons wf_ranges_def valid_range_def)
    consider "snd r + 1 < fst x" | "touches x r" | "snd x + 1 < fst r"
      unfolding touches_def by linarith
    then show ?case
    proof cases
      case 1
      with rs sp have "r # rs = (r # L) @ M @ R \<and> splits x (r # L) M R"
        by (auto simp: splits_def)
      then show ?thesis by blast
    next
      case 2
      with rs sp after have "L = []"
        by (cases L) (fastforce simp: splits_def touches_def)+
      with 2 rs sp have "r # rs = [] @ (r # M) @ R \<and> splits x [] (r # M) R"
        by (auto simp: splits_def)
      then show ?thesis by blast
    next
      case 3
      from Cons.prems have "fst r \<le> snd r" by (simp add: wf_ranges_Cons valid_range_def)
      with 3 after have "\<forall>q \<in> set (r # rs). snd x + 1 < fst q" by fastforce
      then have "r # rs = [] @ [] @ (r # rs) \<and> splits x [] [] (r # rs)"
        by (auto simp: splits_def)
      then show ?thesis by blast
    qed
  qed
  with that show ?thesis by blast
qed

lemma find_affected_loop_skip:
  assumes "\<forall>r \<in> set L. \<not> (is_overlapping r x \<or> is_adjacent r x)"
  shows "find_affected_loop x i None None (L @ rest) =
    find_affected_loop x (i + length L) None None rest"
  using assms by (induction L arbitrary: i) auto

lemma find_affected_loop_take:
  assumes "\<forall>r \<in> set M. is_overlapping r x \<or> is_adjacent r x"
    and "\<forall>r \<in> set R. \<not> (is_overlapping r x \<or> is_adjacent r x)"
  shows "find_affected_loop x i (Some s) (Some e) (M @ R) =
    (Some s, Some (if M = [] then e else i + length M - 1))"
  using assms
proof (induction M arbitrary: i e)
  case Nil
  then show ?case by (cases R) auto
next
  case (Cons r M)
  then show ?case by auto
qed

lemma find_affected_ranges_splits:
  assumes wf: "wf_ranges (L @ M @ R)" and x: "valid_range x" and sp: "splits x L M R"
  shows "find_affected_ranges (L @ M @ R) x =
    (if M = [] then None else Some (length L, length L + length M - 1))"
proof -
  have v: "\<And>r. r \<in> set (L @ M @ R) \<Longrightarrow> valid_range r"
    using wf by (simp add: wf_ranges_def)
  have L: "\<forall>r \<in> set L. \<not> (is_overlapping r x \<or> is_adjacent r x)"
    using v sp by (auto simp: affected_iff [OF _ x] splits_def touches_def)
  have M: "\<forall>r \<in> set M. is_overlapping r x \<or> is_adjacent r x"
    using v sp by (auto simp: affected_iff [OF _ x] splits_def)
  have R: "\<forall>r \<in> set R. \<not> (is_overlapping r x \<or> is_adjacent r x)"
    using v sp by (auto simp: affected_iff [OF _ x] splits_def touches_def)
  show ?thesis
  proof (cases M)
    case Nil
    have "find_affected_loop x (length L) None None (R @ []) = (None, None)"
      using find_affected_loop_skip [OF R, of "length L" "[]"] by simp
    with Nil show ?thesis
      by (simp add: find_affected_ranges_def find_affected_loop_skip [OF L])
  next
    case (Cons r M')
    with M have "\<forall>r \<in> set M'. is_overlapping r x \<or> is_adjacent r x" by simp
    from find_affected_loop_take [OF this R] Cons M show ?thesis
      by (simp add: find_affected_ranges_def find_affected_loop_skip [OF L])
  qed
qed

lemma replace_slice_middle: "M \<noteq> [] \<Longrightarrow>
  replace_slice (L @ M @ R) (length L) (length L + length M - 1) ys = L @ ys @ R"
  by (auto simp: replace_slice_def neq_Nil_conv)

lemma nth_middle:
  "M \<noteq> [] \<Longrightarrow> (L @ M @ R) ! length L = hd M"
  "M \<noteq> [] \<Longrightarrow> (L @ M @ R) ! (length L + length M - 1) = last M"
   apply (simp add: nth_append hd_conv_nth)
  apply (cases M rule: rev_cases)
   apply (simp_all add: nth_append)
  done

lemma insert_in_order_splits:
  assumes "valid_range x" "wf_ranges (L @ R)" "splits x L [] R"
  shows "insert_in_order x (L @ R) = L @ x # R"
  using assms
proof (induction L)
  case Nil
  then show ?case by (cases R) (auto simp: splits_def)
next
  case (Cons r L)
  then have "valid_range r" "snd r + 1 < fst x" "valid_range x"
    by (auto simp: wf_ranges_Cons splits_def)
  then have "\<not> snd x < fst r" by (auto simp: valid_range_def)
  with Cons show ?case by (auto simp: wf_ranges_Cons splits_def)
qed


section \<open>Insertion and removal are set insertion and removal\<close>

lemma insert_relaxed_splits:
  assumes wf: "wf_ranges (L @ M @ R)" and x: "valid_range x" and sp: "splits x L M R"
  shows "insert_relaxed (L @ M @ R) x = Inr (L @
    (if M = [] then [x] else [(min (fst (hd M)) (fst x), max (snd (last M)) (snd x))]) @ R)"
proof (cases "M = []")
  case True
  with find_affected_ranges_splits [OF assms] assms show ?thesis
    by (simp add: insert_relaxed_def insert_in_order_splits)
next
  case False
  then show ?thesis
    using x by (simp add: insert_relaxed_def find_affected_ranges_splits [OF assms] replace_slice_middle
        nth_middle Let_def del: append_assoc One_nat_def)
qed

lemma remove_relaxed_splits:
  assumes wf: "wf_ranges (L @ M @ R)" and x: "valid_range x" and sp: "splits x L M R"
  shows "remove_relaxed (L @ M @ R) x = Inr (L @
    (if M \<noteq> [] \<and> fst (hd M) < fst x then [(fst (hd M), fst x - 1)] else []) @
    (if M \<noteq> [] \<and> snd x < snd (last M) then [(snd x + 1, snd (last M))] else []) @ R)"
  using x by (simp add: remove_relaxed_def find_affected_ranges_splits [OF assms] replace_slice_middle
      nth_middle Let_def del: append_assoc One_nat_def)

lemma merged_heights:
  assumes wf: "wf_ranges M" and x: "valid_range x" and M: "M \<noteq> []" "\<forall>r \<in> set M. touches x r"
  shows "{min (fst (hd M)) (fst x)..max (snd (last M)) (snd x)} = heights M \<union> {fst x..snd x}"
proof (rule set_eqI)
  fix h
  have hd: "hd M \<in> set M" and la: "last M \<in> set M" using M by auto
  have th: "touches x (hd M)" "touches x (last M)" using M hd la by blast+
  have px: "fst x \<le> snd x" using x by (simp add: valid_range_def)
  have "h \<in> heights M \<Longrightarrow> fst (hd M) \<le> h \<and> h \<le> snd (last M)"
    using wf_hd_le [OF wf] wf_last_ge [OF wf] by (fastforce simp: heights_def)
  moreover have "fst (hd M) \<le> h \<Longrightarrow> h < fst x \<Longrightarrow> h \<in> heights M"
    using th hd by (force simp: heights_def touches_def)
  moreover have "snd x < h \<Longrightarrow> h \<le> snd (last M) \<Longrightarrow> h \<in> heights M"
    using th la by (force simp: heights_def touches_def)
  moreover have "min (fst (hd M)) (fst x) \<le> h \<longleftrightarrow> fst (hd M) \<le> h \<or> fst x \<le> h"
    "h \<le> max (snd (last M)) (snd x) \<longleftrightarrow> h \<le> snd (last M) \<or> h \<le> snd x"
    by (simp_all add: min_le_iff_disj le_max_iff_disj)
  ultimately show "h \<in> {min (fst (hd M)) (fst x)..max (snd (last M)) (snd x)} \<longleftrightarrow>
      h \<in> heights M \<union> {fst x..snd x}"
    using px unfolding atLeastAtMost_iff Un_iff by linarith
qed

lemma removed_heights:
  assumes wf: "wf_ranges M" and x: "valid_range x" and M: "M \<noteq> []" "\<forall>r \<in> set M. touches x r"
  shows "heights ((if fst (hd M) < fst x then [(fst (hd M), fst x - 1)] else []) @
     (if snd x < snd (last M) then [(snd x + 1, snd (last M))] else [])) =
     heights M - {fst x..snd x}"
proof (rule set_eqI)
  fix h
  have hd: "hd M \<in> set M" and la: "last M \<in> set M" using M by auto
  have th: "touches x (hd M)" "touches x (last M)" using M hd la by blast+
  have px: "0 < fst x" "fst x \<le> snd x" using x by (auto simp: valid_range_def)
  have "h \<in> heights M \<Longrightarrow> fst (hd M) \<le> h \<and> h \<le> snd (last M)"
    using wf_hd_le [OF wf] wf_last_ge [OF wf] by (fastforce simp: heights_def)
  moreover have "fst (hd M) \<le> h \<Longrightarrow> h < fst x \<Longrightarrow> h \<in> heights M"
    using th hd by (force simp: heights_def touches_def)
  moreover have "snd x < h \<Longrightarrow> h \<le> snd (last M) \<Longrightarrow> h \<in> heights M"
    using th la by (force simp: heights_def touches_def)
  ultimately show "h \<in> heights ((if fst (hd M) < fst x then [(fst (hd M), fst x - 1)] else []) @
     (if snd x < snd (last M) then [(snd x + 1, snd (last M))] else [])) \<longleftrightarrow>
     h \<in> heights M - {fst x..snd x}"
    using px by auto
qed

lemma splits_heights:
  assumes "splits x L M R" "valid_range x" "wf_ranges (L @ M @ R)"
  shows "heights L \<inter> {fst x..snd x} = {}" "heights R \<inter> {fst x..snd x} = {}"
  using assms by (auto simp: splits_def heights_def)

lemma insert_relaxed_correct:
  assumes wf: "wf_ranges rs" and x: "valid_range x"
  obtains rs' where "insert_relaxed rs x = Inr rs'" "wf_ranges rs'"
    "heights rs' = heights rs \<union> {fst x..snd x}" "canonical rs \<Longrightarrow> canonical rs'"
proof -
  obtain L M R where rs: "rs = L @ M @ R" and sp: "splits x L M R"
    using splits_exists [OF wf] by blast
  let ?y = "if M = [] then x else (min (fst (hd M)) (fst x), max (snd (last M)) (snd x))"
  have ins: "insert_relaxed rs x = Inr (L @ [?y] @ R)"
    using insert_relaxed_splits [OF wf [unfolded rs] x sp] rs by simp
  have wfM: "wf_ranges M" using wf rs by (simp add: wf_ranges_append)
  have y: "{fst ?y..snd ?y} = heights M \<union> {fst x..snd x}"
    using merged_heights [OF wfM x] sp by (auto simp: splits_def)
  have vM: "M \<noteq> [] \<Longrightarrow> valid_range (hd M) \<and> valid_range (last M)"
    using wfM by (auto simp: wf_ranges_def)
  have vy: "valid_range ?y" using x vM by (auto simp: valid_range_def min_def max_def)
  have Ly: "\<forall>a \<in> set L. snd a + 1 < fst ?y" if "M = [] \<or> (\<forall>a \<in> set L. snd a + 1 < fst (hd M))"
    using sp that by (auto simp: splits_def)
  have lt: "\<forall>a \<in> set L. snd a < fst ?y" "\<forall>b \<in> set R. snd ?y < fst b"
  proof -
    show "\<forall>a \<in> set L. snd a < fst ?y"
      using wf rs sp by (fastforce simp: wf_ranges_append splits_def)
    show "\<forall>b \<in> set R. snd ?y < fst b"
      using wf rs sp by (fastforce simp: wf_ranges_append splits_def)
  qed
  have "wf_ranges (L @ [?y] @ R)"
    using wf rs vy lt unfolding wf_ranges_append
    by (auto simp: wf_ranges_append wf_ranges_Cons simp del: fst_conv snd_conv)
  moreover have "heights (L @ [?y] @ R) = heights rs \<union> {fst x..snd x}"
    using y rs by auto
  moreover have "canonical (L @ [?y] @ R)" if "canonical rs"
  proof -
    have "\<forall>a \<in> set L. snd a + 1 < fst ?y"
      using that rs by (intro Ly) (auto simp: canonical_append)
    moreover have "\<forall>b \<in> set R. snd ?y + 1 < fst b"
    proof
      fix b assume "b \<in> set R"
      moreover from this have "M \<noteq> [] \<Longrightarrow> snd (last M) + 1 < fst b"
        using that rs by (auto simp: canonical_append)
      ultimately show "snd ?y + 1 < fst b" using sp by (auto simp: splits_def max_def)
    qed
    ultimately show ?thesis
      using that rs vy by (auto simp: canonical_append canonical_Cons simp del: fst_conv snd_conv)
  qed
  ultimately show ?thesis using that ins by blast
qed


lemma in_single: "q \<in> set (if P then [z] else []) \<longleftrightarrow> P \<and> q = z"
  by auto

lemma remove_relaxed_correct:
  assumes wf: "wf_ranges rs" and x: "valid_range x"
  obtains rs' where "remove_relaxed rs x = Inr rs'" "wf_ranges rs'"
    "heights rs' = heights rs - {fst x..snd x}" "canonical rs \<Longrightarrow> canonical rs'"
proof -
  obtain L M R where rs: "rs = L @ M @ R" and sp: "splits x L M R"
    using splits_exists [OF wf] by blast
  let ?l = "if M \<noteq> [] \<and> fst (hd M) < fst x then [(fst (hd M), fst x - 1)] else []"
  let ?r = "if M \<noteq> [] \<and> snd x < snd (last M) then [(snd x + 1, snd (last M))] else []"
  have rem: "remove_relaxed rs x = Inr (L @ ?l @ ?r @ R)"
    using remove_relaxed_splits [OF wf [unfolded rs] x sp] rs by simp
  have wfs: "wf_ranges L" "wf_ranges M" "wf_ranges R" using wf rs by (simp_all add: wf_ranges_append)
  have px: "0 < fst x" "fst x \<le> snd x" using x by (auto simp: valid_range_def)
  have hl: "M \<noteq> [] \<Longrightarrow> hd M \<in> set M \<and> last M \<in> set M" by simp
  have vM: "M \<noteq> [] \<Longrightarrow> valid_range (hd M)" using wfs(2) by (auto simp: wf_ranges_def)
  have mid: "heights (?l @ ?r) = heights M - {fst x..snd x}"
    using removed_heights [OF wfs(2) x] sp by (cases "M = []") (auto simp: splits_def)
  have "heights (L @ ?l @ ?r @ R) = heights L \<union> heights (?l @ ?r) \<union> heights R" by auto
  also have "\<dots> = heights rs - {fst x..snd x}"
    unfolding mid rs using splits_heights [OF sp x] wf rs by auto
  finally have hs: "heights (L @ ?l @ ?r @ R) = heights rs - {fst x..snd x}" .
  have lr: "canonical (?l @ ?r)" using px vM by (auto simp: canonical_Cons valid_range_def)
  have lrb: "M \<noteq> [] \<and> (fst q = fst (hd M) \<and> snd q + 1 = fst x \<or>
      fst q = snd x + 1 \<and> snd q = snd (last M))" if "q \<in> set (?l @ ?r)" for q
    using that px(1) unfolding set_append Un_iff in_single by auto
  have Lx: "snd a + 1 < fst x" if "a \<in> set L" for a using sp that by (simp add: splits_def)
  have Rx: "snd x + 1 < fst b" if "b \<in> set R" for b using sp that by (simp add: splits_def)
  have LM: "snd a < fst (hd M)" if "a \<in> set L" "M \<noteq> []" for a
    using wf rs hl that by (auto simp: wf_ranges_append)
  have MR: "snd (last M) < fst b" if "b \<in> set R" "M \<noteq> []" for b
    using wf rs hl that by (auto simp: wf_ranges_append)
  have gapL: "snd a < fst b" if "a \<in> set L" "b \<in> set (?l @ ?r)" for a b
    using LM [OF that(1)] Lx [OF that(1)] px lrb [OF that(2)] by auto
  have gapR: "snd a < fst b" if "a \<in> set (?l @ ?r)" "b \<in> set R" for a b
    using MR [OF that(2)] Rx [OF that(2)] px lrb [OF that(1)] by auto
  have "wf_ranges ((?l @ ?r) @ R)"
    unfolding wf_ranges_append [of "?l @ ?r"] using canonical_wf [OF lr] wfs gapR by blast
  moreover have LR: "snd a < fst b" if "a \<in> set L" "b \<in> set R" for a b
    using wf rs that by (auto simp: wf_ranges_append)
  ultimately have "wf_ranges (L @ (?l @ ?r) @ R)"
    unfolding wf_ranges_append [of L] set_append [of "?l @ ?r"] using wfs gapL LR by blast
  moreover have "canonical (L @ (?l @ ?r) @ R)" if c: "canonical rs"
  proof -
    have LM1: "snd a + 1 < fst (hd M)" if "a \<in> set L" "M \<noteq> []" for a
      using c rs hl that by (auto simp: canonical_append)
    have MR1: "snd (last M) + 1 < fst b" if "b \<in> set R" "M \<noteq> []" for b
      using c rs hl that by (auto simp: canonical_append)
    have gapL1: "snd a + 1 < fst b" if "a \<in> set L" "b \<in> set (?l @ ?r)" for a b
      using LM1 [OF that(1)] Lx [OF that(1)] px lrb [OF that(2)] by auto
    have gapR1: "snd a + 1 < fst b" if "a \<in> set (?l @ ?r)" "b \<in> set R" for a b
      using MR1 [OF that(2)] Rx [OF that(2)] px lrb [OF that(1)] by auto
    have cs: "canonical L" "canonical R" using c rs by (simp_all add: canonical_append)
    have LR1: "snd a + 1 < fst b" if "a \<in> set L" "b \<in> set R" for a b
      using c rs that by (auto simp: canonical_append)
    have "canonical ((?l @ ?r) @ R)"
      unfolding canonical_append [of "?l @ ?r"] using lr cs gapR1 by blast
    then show ?thesis
      unfolding canonical_append [of L] set_append [of "?l @ ?r"] using cs gapL1 LR1 by blast
  qed
  ultimately show ?thesis using that rem hs unfolding append_assoc by blast
qed

lemma insert_relaxed_invalid: "\<not> valid_range x \<Longrightarrow> insert_relaxed rs x = Inl (InvalidBlockRange x)"
  by (simp add: insert_relaxed_def validate_invalid)

lemma remove_relaxed_invalid: "\<not> valid_range x \<Longrightarrow> remove_relaxed rs x = Inl (InvalidBlockRange x)"
  by (simp add: remove_relaxed_def validate_invalid)

lemma ranges_add_correct:
  assumes "wf_ranges a" and "\<forall>r \<in> set b. valid_range r"
  obtains c where "ranges_add a b = Some c" "wf_ranges c" "heights c = heights a \<union> heights b"
    "canonical a \<Longrightarrow> canonical c"
proof -
  have "\<exists>c. ranges_add a b = Some c \<and> wf_ranges c \<and> heights c = heights a \<union> heights b \<and>
      (canonical a \<longrightarrow> canonical c)"
    using assms
  proof (induction b arbitrary: a)
    case (Cons r b)
    then obtain a' where a': "insert_relaxed a r = Inr a'" "wf_ranges a'"
      "heights a' = heights a \<union> {fst r..snd r}" "canonical a \<Longrightarrow> canonical a'"
      using insert_relaxed_correct [of a r] by (metis list.set_intros(1))
    from Cons.IH [OF a'(2)] Cons.prems a' show ?case by auto
  qed simp
  with that show ?thesis by blast
qed

lemma ranges_sub_correct:
  assumes "wf_ranges a" and "\<forall>r \<in> set b. valid_range r"
  obtains c where "ranges_sub a b = Some c" "wf_ranges c" "heights c = heights a - heights b"
    "canonical a \<Longrightarrow> canonical c"
proof -
  have "\<exists>c. ranges_sub a b = Some c \<and> wf_ranges c \<and> heights c = heights a - heights b \<and>
      (canonical a \<longrightarrow> canonical c)"
    using assms
  proof (induction b arbitrary: a)
    case (Cons r b)
    then obtain a' where a': "remove_relaxed a r = Inr a'" "wf_ranges a'"
      "heights a' = heights a - {fst r..snd r}" "canonical a \<Longrightarrow> canonical a'"
      using remove_relaxed_correct [of a r] by (metis list.set_intros(1))
    from Cons.IH [OF a'(2)] Cons.prems a' show ?case by auto
  qed simp
  with that show ?thesis by blast
qed

section \<open>Construction, ends, and removal from the ends\<close>

lemma from_vec_loop_iff:
  "from_vec_loop prev rs = Inr () \<longleftrightarrow>
     wf_ranges rs \<and> (case prev of None \<Rightarrow> True | Some p \<Rightarrow> \<forall>r \<in> set rs. snd p < fst r)"
proof (induction rs arbitrary: prev)
  case (Cons r rs)
  show ?case
  proof (cases "valid_range r")
    case True
    then have "fst r \<le> snd r" by (simp add: valid_range_def)
    then have "(\<forall>q \<in> set rs. p < fst q \<and> snd r < fst q) \<longleftrightarrow> (\<forall>q \<in> set rs. snd r < fst q)"
      if "p < fst r" for p using that by fastforce
    with True show ?thesis
      by (cases prev) (auto simp: Cons.IH wf_ranges_Cons not_le ball_conj_distrib)
  next
    case False
    then show ?thesis by (simp add: validate_invalid wf_ranges_Cons)
  qed
qed (simp split: option.split)

lemma from_vec_iff: "from_vec rs = Inr rs' \<longleftrightarrow> wf_ranges rs \<and> rs' = rs"
  by (auto simp: from_vec_def res_simps from_vec_loop_iff)

lemma head_correct: "wf_ranges rs \<Longrightarrow> head rs = (if rs = [] then None else Some (Max (heights rs)))"
proof (cases "rs = []")
  case False
  assume wf: "wf_ranges rs"
  have "last rs \<in> set rs" "valid_range (last rs)" using False wf wf_valid by auto
  then have "snd (last rs) \<in> heights rs" by (force simp: heights_def valid_range_def)
  moreover have "\<forall>h \<in> heights rs. h \<le> snd (last rs)"
    using wf_last_ge [OF wf] by (fastforce simp: heights_def)
  ultimately have "Max (heights rs) = snd (last rs)" by (intro Max_eqI) auto
  with False show ?thesis by (simp add: head_def)
qed (simp add: head_def)

lemma tail_correct: "wf_ranges rs \<Longrightarrow> tail rs = (if rs = [] then None else Some (Min (heights rs)))"
proof (cases rs)
  case (Cons r rest)
  assume wf: "wf_ranges rs"
  have "fst r \<in> heights rs" using wf Cons by (auto simp: wf_ranges_Cons valid_range_def)
  moreover have "\<forall>h \<in> heights rs. fst r \<le> h"
    using wf_hd_le [OF wf] Cons by (fastforce simp: heights_def)
  ultimately have "Min (heights rs) = fst r" by (intro Min_eqI) auto
  with Cons show ?thesis by (simp add: tail_def)
qed (simp add: tail_def)

lemma range_len_eq: "valid_range r \<Longrightarrow> snd r \<le> u64_max \<Longrightarrow> range_len r = snd r - fst r + 1"
  by (auto simp: range_len_def valid_range_def checked_sub_def wrapping_add_def wrap64_def u64_max_def)

lemma range_len_card: "valid_range r \<Longrightarrow> snd r \<le> u64_max \<Longrightarrow> range_len r = card {fst r..snd r}"
  by (auto simp: range_len_eq valid_range_def)

text \<open>Heights are \<open>u64\<close> values.\<close>

definition u64_ranges :: "block_ranges \<Rightarrow> bool" where
  "u64_ranges rs \<longleftrightarrow> (\<forall>r \<in> set rs. snd r \<le> u64_max)"

lemma u64_ranges_heights: "wf_ranges rs \<Longrightarrow> u64_ranges rs \<longleftrightarrow> (\<forall>h \<in> heights rs. h \<le> u64_max)"
  by (fastforce simp: u64_ranges_def heights_def wf_ranges_def valid_range_def)

lemma pop_tail_correct:
  assumes wf: "wf_ranges rs" and u: "u64_ranges rs" and pop: "pop_tail rs = (m, rs')"
  shows "m = tail rs" "wf_ranges rs'" "heights rs' = heights rs - set_option m"
    "canonical rs \<Longrightarrow> canonical rs'" "u64_ranges rs'"
proof -
  have "m = tail rs \<and> wf_ranges rs' \<and> heights rs' = heights rs - set_option m \<and>
    (canonical rs \<longrightarrow> canonical rs') \<and> u64_ranges rs'"
  proof (cases rs)
    case (Cons r rest)
    have r: "valid_range r" "snd r \<le> u64_max" "\<forall>q \<in> set rest. snd r < fst q"
      using wf u Cons by (auto simp: wf_ranges_Cons u64_ranges_def)
    have lt: "\<forall>h \<in> heights rest. snd r < h" using r(3) by (fastforce simp: heights_def)
    show ?thesis
    proof (cases "snd r = fst r")
      case True
      with r have "range_len r = 1" by (simp add: range_len_eq)
      with Cons pop wf u r lt True show ?thesis
        by (auto simp: pop_tail_def tail_def wf_ranges_Cons canonical_Cons u64_ranges_def)
    next
      case False
      with r have "range_len r \<noteq> 1" "fst r < snd r" by (auto simp: range_len_eq valid_range_def)
      moreover from this lt have "fst r \<notin> heights rest" by fastforce
      ultimately show ?thesis using Cons pop wf u r lt
        by (auto simp: pop_tail_def tail_def wf_ranges_Cons canonical_Cons u64_ranges_def
            valid_range_def Let_def)
    qed
  qed (use pop in \<open>auto simp: pop_tail_def tail_def u64_ranges_def\<close>)
  then show "m = tail rs" "wf_ranges rs'" "heights rs' = heights rs - set_option m"
    "canonical rs \<Longrightarrow> canonical rs'" "u64_ranges rs'" by auto
qed

lemma pop_head_correct:
  assumes wf: "wf_ranges rs" and u: "u64_ranges rs" and pop: "pop_head rs = (m, rs')"
  shows "m = head rs" "wf_ranges rs'" "heights rs' = heights rs - set_option m"
    "canonical rs \<Longrightarrow> canonical rs'" "u64_ranges rs'"
proof -
  have "m = head rs \<and> wf_ranges rs' \<and> heights rs' = heights rs - set_option m \<and>
    (canonical rs \<longrightarrow> canonical rs') \<and> u64_ranges rs'"
  proof (cases rs rule: rev_cases)
    case (snoc init r)
    have r: "valid_range r" "snd r \<le> u64_max" "\<forall>q \<in> set init. snd q < fst r"
      using wf u snoc by (auto simp: wf_ranges_append wf_ranges_Cons u64_ranges_def)
    have lt: "\<forall>h \<in> heights init. h < fst r" using r(3) by (fastforce simp: heights_def)
    show ?thesis
    proof (cases "snd r = fst r")
      case True
      with r have "range_len r = 1" by (simp add: range_len_eq)
      with snoc pop wf u r lt True show ?thesis
        by (auto simp: pop_head_def head_def wf_ranges_append canonical_append u64_ranges_def)
    next
      case False
      with r have l: "range_len r \<noteq> 1" "fst r < snd r" by (auto simp: range_len_eq valid_range_def)
      with snoc pop have rs': "rs' = init @ [(fst r, snd r - 1)]" "m = Some (snd r)"
        by (auto simp: pop_head_def Let_def)
      have hs: "heights rs' = heights rs - set_option m"
        using rs' snoc l lt r(1) by (fastforce simp: valid_range_def)
      show ?thesis
        using snoc wf u r l rs' hs
        by (auto simp: head_def wf_ranges_append wf_ranges_Cons canonical_append u64_ranges_def
            valid_range_def)
    qed
  qed (use pop in \<open>auto simp: pop_head_def head_def u64_ranges_def\<close>)
  then show "m = head rs" "wf_ranges rs'" "heights rs' = heights rs - set_option m"
    "canonical rs \<Longrightarrow> canonical rs'" "u64_ranges rs'" by auto
qed


lemma sorted_list_of_set_Min:
  assumes "finite A" "A \<noteq> {}"
  shows "sorted_list_of_set A = Min A # sorted_list_of_set (A - {Min A})"
  using assms by (simp add: sorted_list_of_set_nonempty)

lemma collect_heights_correct:
  assumes "wf_ranges rs" "u64_ranges rs"
  shows "collect_heights rs = Some (sorted_list_of_set (heights rs))"
  using assms
proof (induction "card (heights rs)" arbitrary: rs rule: less_induct)
  case less
  obtain m rs' where pop: "pop_tail rs = (m, rs')" by fastforce
  note pt = pop_tail_correct [OF less.prems pop]
  show ?case
  proof (cases "rs = []")
    case True
    then show ?thesis by (simp add: collect_heights.simps pop_tail_def)
  next
    case False
    then have ne: "heights rs \<noteq> {}" using less.prems wf_heights_empty by blast
    have m: "m = Some (Min (heights rs))" using pt(1) tail_correct less.prems False by simp
    have hs: "heights rs' = heights rs - {Min (heights rs)}" using pt(3) m by simp
    have "card (heights rs') < card (heights rs)"
      unfolding hs by (rule card_Diff1_less) (simp_all add: ne)
    then have "collect_heights rs' = Some (sorted_list_of_set (heights rs'))"
      using less.hyps pt(2,5) by blast
    then show ?thesis
      using m pop hs sorted_list_of_set_Min [OF _ ne] by (subst collect_heights.simps) simp
  qed
qed

section \<open>Truncation\<close>

lemma truncate_left_correct:
  assumes "0 < fst r" "snd r \<le> u64_max"
  shows "{fst (truncate_left r n)..snd (truncate_left r n)} = {h \<in> {fst r..snd r}. snd r < h + n}"
  using assms
  by (auto simp: truncate_left_def range_is_empty_def Let_def width_defs u64_max_def)

lemma truncate_right_correct:
  assumes "snd r \<le> u64_max" "fst r + n \<le> u64_max \<or> snd r < u64_max"
  shows "{fst (truncate_right r n)..snd (truncate_right r n)} = {h \<in> {fst r..snd r}. h < fst r + n}"
  using assms
  by (auto simp: truncate_right_def range_is_empty_def Let_def width_defs u64_max_def)

section \<open>The insertion constraints\<close>

lemma splits_near:
  assumes "splits x L M R" "valid_range x" "fst x \<le> h + 1" "h \<le> snd x + 1"
  shows "h \<in> heights (L @ M @ R) \<longleftrightarrow> h \<in> heights M"
  using assms by (fastforce simp: splits_def heights_def)

definition insertion_allowed :: "block_ranges \<Rightarrow> block_range \<Rightarrow> bool" where
  "insertion_allowed rs x \<longleftrightarrow> valid_range x \<and> heights rs \<inter> {fst x..snd x} = {} \<and>
     (heights rs = {} \<or> Max (heights rs) < fst x \<or>
      fst x - 1 \<in> heights rs \<or> snd x + 1 \<in> heights rs)"


text \<open>The outcome the source computes from the affected ranges \<open>M\<close>.\<close>

lemma check_insertion_head:
  assumes "wf_ranges rs" "valid_range x" "rs \<noteq> []" "snd (last rs) < fst x"
  shows "check_insertion_constraints rs x = Inr (fst x - 1 \<in> heights rs, snd x + 1 \<in> heights rs)"
    and "insertion_allowed rs x"
proof -
  have le: "h < fst x \<and> (h = fst x - 1 \<longrightarrow> snd (last rs) = fst x - 1)" if "h \<in> heights rs" for h
    using that assms wf_last_ge [OF assms(1)] by (fastforce simp: heights_def)
  have last: "snd (last rs) \<in> heights rs"
    using assms wf_valid [OF assms(1), of "last rs"] by (force simp: heights_def valid_range_def)
  have "fst x - 1 \<in> heights rs \<longleftrightarrow> snd (last rs) = fst x - 1" using le last by metis
  moreover have "snd x + 1 \<notin> heights rs" using le assms(2) by (fastforce simp: valid_range_def)
  moreover have "is_adjacent (last rs) x \<longleftrightarrow> snd (last rs) = fst x - 1"
    using assms wf_valid [OF assms(1), of "last rs"] by (auto simp: is_adjacent_iff valid_range_def)
  ultimately show "check_insertion_constraints rs x =
      Inr (fst x - 1 \<in> heights rs, snd x + 1 \<in> heights rs)"
    using assms by (simp add: check_insertion_constraints_def try_bind_def left_of_def)
  have "Max (heights rs) < fst x" using le last by (subst Max_less_iff) auto
  moreover have "heights rs \<inter> {fst x..snd x} = {}" using le by fastforce
  ultimately show "insertion_allowed rs x" using assms(2) by (simp add: insertion_allowed_def)
qed

lemma check_insertion_inside:
  assumes "wf_ranges rs" "valid_range x" "rs = L @ M @ R" "splits x L M R"
    and "rs \<noteq> []" "\<not> snd (last rs) < fst x"
  shows "check_insertion_constraints rs x =
    (case M of
       [] \<Rightarrow> Inl (NoAdjacentNeighbors x)
     | [m] \<Rightarrow> if is_overlapping m x then Inl (BlockRangeOverlap x (calc_overlap x m m))
              else Inr (left_of m x, \<not> left_of m x)
     | [m, n] \<Rightarrow> if is_adjacent m x \<and> is_adjacent n x then Inr (True, True)
                 else Inl (BlockRangeOverlap x (calc_overlap x m n))
     | m # ms \<Rightarrow> Inl (BlockRangeOverlap x (calc_overlap x m (last ms))))"
  using assms nth_middle [of M L R] find_affected_ranges_splits [of L M R x]
  by (auto simp: check_insertion_constraints_def try_bind_def left_of_def Let_def split: list.split)


lemma last_in_heights: "wf_ranges rs \<Longrightarrow> rs \<noteq> [] \<Longrightarrow> snd (last rs) \<in> heights rs"
  using wf_valid [of rs "last rs"] by (force simp: heights_def valid_range_def)

lemma insertion_allowed_inside:
  assumes "wf_ranges (L @ M @ R)" "valid_range x" "splits x L M R" "L @ M @ R \<noteq> []"
    and "\<not> snd (last (L @ M @ R)) < fst x"
  shows "insertion_allowed (L @ M @ R) x \<longleftrightarrow>
    M \<noteq> [] \<and> (\<forall>m \<in> set M. snd m + 1 = fst x \<or> snd x + 1 = fst m)"
proof -
  let ?rs = "L @ M @ R"
  have near: "h \<in> heights ?rs \<longleftrightarrow> h \<in> heights M" if "fst x \<le> h + 1" "h \<le> snd x + 1" for h
    using splits_near assms that by blast
  have v: "\<forall>m \<in> set M. fst m \<le> snd m \<and> touches x m" 
    using assms(1,3) by (auto simp: wf_ranges_def valid_range_def splits_def)
  have "snd (last ?rs) \<in> heights ?rs" by (rule last_in_heights [OF assms(1,4)])
  then have "snd (last ?rs) \<le> Max (heights ?rs)" by (rule Max_ge [OF finite_heights])
  then have max: "\<not> Max (heights ?rs) < fst x" using assms(5) by linarith
  have ne: "heights ?rs \<noteq> {}" using wf_heights_empty assms(1,4) by blast
  have "heights ?rs \<inter> {fst x..snd x} = {} \<longleftrightarrow> heights M \<inter> {fst x..snd x} = {}"
    using near by fastforce
  also have "\<dots> \<longleftrightarrow> (\<forall>m \<in> set M. snd m < fst x \<or> snd x < fst m)"
  proof -
    have "{fst m..snd m} \<inter> {fst x..snd x} = {} \<longleftrightarrow> snd m < fst x \<or> snd x < fst m" if "m \<in> set M" for m
      using v that assms(2) by (auto simp: valid_range_def)
    then show ?thesis unfolding heights_def by blast
  qed
  also have "\<dots> \<longleftrightarrow> (\<forall>m \<in> set M. snd m + 1 = fst x \<or> snd x + 1 = fst m)"
    using v by (fastforce simp: touches_def)
  finally have disj: "heights ?rs \<inter> {fst x..snd x} = {} \<longleftrightarrow>
    (\<forall>m \<in> set M. snd m + 1 = fst x \<or> snd x + 1 = fst m)" .
  have "fst x - 1 \<in> heights ?rs \<longleftrightarrow> fst x - 1 \<in> heights M" "snd x + 1 \<in> heights ?rs \<longleftrightarrow> snd x + 1 \<in> heights M"
    by (rule near; use assms(2) in \<open>auto simp: valid_range_def\<close>)+
  moreover have "fst x - 1 \<in> heights M \<or> snd x + 1 \<in> heights M"
    if m: "m \<in> set M" "snd m + 1 = fst x \<or> snd x + 1 = fst m" for m
  proof -
    have "fst x - 1 \<in> {fst m..snd m} \<or> snd x + 1 \<in> {fst m..snd m}" using m v by force
    then show ?thesis using m(1) unfolding heights_def by blast
  qed
  moreover have "heights M = {}" if "M = []" using that by simp
  ultimately show ?thesis
    unfolding insertion_allowed_def disj using max ne assms(2)
    by (metis empty_iff last_in_set)
qed

lemma check_insertion_inside_Inr:
  assumes "wf_ranges (L @ M @ R)" "valid_range x" "splits x L M R" "L @ M @ R \<noteq> []"
    and "\<not> snd (last (L @ M @ R)) < fst x"
  shows "check_insertion_constraints (L @ M @ R) x = Inr (p, n) \<longleftrightarrow>
    M \<noteq> [] \<and> (\<forall>m \<in> set M. snd m + 1 = fst x \<or> snd x + 1 = fst m) \<and>
    p = (fst x - 1 \<in> heights M) \<and> n = (snd x + 1 \<in> heights M)"
proof -
  note ins = check_insertion_inside [OF assms(1,2) refl assms(3,4,5)]
  have v: "\<forall>m \<in> set M. valid_range m \<and> touches x m"
    using assms(1,3) by (auto simp: wf_ranges_def splits_def)
  have so: "wf_ranges M" using assms(1) by (simp add: wf_ranges_append)
  consider "M = []" | m where "M = [m]" | m m' where "M = [m, m']" | m m' m'' ms where "M = m # m' # m'' # ms"
    by (metis list.exhaust)
  then show ?thesis
  proof cases
    case 1
    then show ?thesis using ins by simp
  next
    case 2
    then show ?thesis using ins v assms(2)
      by (auto simp: is_overlapping_iff left_of_def touches_def valid_range_def)
  next
    case 3
    then show ?thesis using ins v so assms(2)
      by (auto simp: is_adjacent_iff touches_def valid_range_def wf_ranges_Cons)
  next
    case 4
    then have "\<not> (\<forall>m \<in> set M. snd m + 1 = fst x \<or> snd x + 1 = fst m)"
      using v so assms(2) by (auto simp: touches_def valid_range_def wf_ranges_Cons)
    moreover from 4 ins have "check_insertion_constraints (L @ M @ R) x \<noteq> Inr (p, n)" by simp
    ultimately show ?thesis by blast
  qed
qed

lemma check_insertion_iff:
  assumes "wf_ranges rs"
  shows "check_insertion_constraints rs x = Inr (p, n) \<longleftrightarrow>
    insertion_allowed rs x \<and> p = (fst x - 1 \<in> heights rs) \<and> n = (snd x + 1 \<in> heights rs)"
proof (cases "valid_range x")
  case False
  then show ?thesis
    by (simp add: check_insertion_constraints_def validate_invalid try_bind_def insertion_allowed_def)
next
  case x: True
  show ?thesis
  proof (cases "rs = [] \<or> snd (last rs) < fst x")
    case True
    then show ?thesis
      using check_insertion_head [OF assms x] x
      by (cases "rs = []") (auto simp: check_insertion_constraints_def try_bind_def insertion_allowed_def)
  next
    case False
    obtain L M R where rs: "rs = L @ M @ R" and sp: "splits x L M R"
      using splits_exists [OF assms] by blast
    have "fst x - 1 \<in> heights rs \<longleftrightarrow> fst x - 1 \<in> heights M"
      "snd x + 1 \<in> heights rs \<longleftrightarrow> snd x + 1 \<in> heights M"
      unfolding rs by (rule splits_near [OF sp x]; use x in \<open>auto simp: valid_range_def\<close>)+
    moreover have "L @ M @ R \<noteq> []" "\<not> snd (last (L @ M @ R)) < fst x" using False rs by auto
    note insertion_allowed_inside [OF assms [unfolded rs] x sp this]
      check_insertion_inside_Inr [OF assms [unfolded rs] x sp this]
    ultimately show ?thesis unfolding rs by blast
  qed
qed


section \<open>Canonical lists are determined by their heights\<close>

lemma canonical_Cons_heights:
  assumes "canonical (r # rs)"
  shows "fst r \<in> heights (r # rs)" "\<forall>h \<in> heights (r # rs). fst r \<le> h"
    and "snd r + 1 \<notin> heights (r # rs)" "heights rs = heights (r # rs) - {..snd r}"
proof -
  have gt: "snd r + 1 < h" if "h \<in> heights rs" for h
    using that assms by (fastforce simp: canonical_Cons heights_def)
  have v: "fst r \<le> snd r" using assms by (simp add: canonical_Cons valid_range_def)
  show "fst r \<in> heights (r # rs)" using v by simp
  show "\<forall>h \<in> heights (r # rs). fst r \<le> h" using gt v by fastforce
  show "snd r + 1 \<notin> heights (r # rs)" using gt by fastforce
  show "heights rs = heights (r # rs) - {..snd r}" using gt by fastforce
qed

lemma canonical_unique:
  "canonical rs \<Longrightarrow> canonical rs' \<Longrightarrow> heights rs = heights rs' \<Longrightarrow> rs = rs'"
proof (induction rs arbitrary: rs')
  case Nil
  then show ?case using wf_heights_empty [OF canonical_wf, of rs'] by simp
next
  case (Cons r rs)
  have "rs' \<noteq> []"
    using Cons.prems wf_heights_empty [OF canonical_wf, of "r # rs"] by auto
  then obtain q qs where rs': "rs' = q # qs" by (cases rs') auto
  note r = canonical_Cons_heights [OF Cons.prems(1)]
  note q = canonical_Cons_heights [OF Cons.prems(2) [unfolded rs']]
  have eq: "heights (r # rs) = heights (q # qs)" using Cons.prems(3) rs' by simp
  have start: "fst r = fst q" 
  proof (rule order_antisym)
    show "fst r \<le> fst q" using r(2) q(1) unfolding eq by blast
    show "fst q \<le> fst r" using q(2) r(1) unfolding eq by blast
  qed
  have v: "fst r \<le> snd r" "fst q \<le> snd q"
    using Cons.prems rs' by (auto simp: canonical_Cons valid_range_def)
  have "\<not> snd r < snd q"
  proof
    assume "snd r < snd q"
    then have "snd r + 1 \<in> heights (q # qs)" using start v by simp
    then show False using r(3) eq by blast
  qed
  moreover have "\<not> snd q < snd r"
  proof
    assume "snd q < snd r"
    then have "snd q + 1 \<in> heights (r # rs)" using start v by simp
    then show False using q(3) eq by blast
  qed
  ultimately have "r = q" using start by (simp add: prod_eq_iff)
  moreover from this have "heights rs = heights qs" using r(4) q(4) eq by simp
  ultimately show ?case using Cons rs' by (auto simp: canonical_Cons)
qed

section \<open>Block ranges are a set of heights\<close>

interpretation ranges: height_set new_ranges contains insert_relaxed remove_relaxed heights canonical
proof (unfold_locales, goal_cases)
  case 1 show ?case by (simp add: new_ranges_def)
next
  case 2 show ?case by (simp add: new_ranges_def)
next
  case (3 s h) show ?case by (rule contains_iff)
next
  case (4 s r)
  then show ?case
    by (metis insert_relaxed_correct [OF canonical_wf] valid_range_def)
next
  case (5 s r)
  then show ?case
    by (metis remove_relaxed_correct [OF canonical_wf] valid_range_def)
next
  case (6 s t) then show ?case by (rule canonical_unique)
qed

section \<open>Correctness of the block ranges\<close>

text \<open>
  (C31) Relaxed insertion of a valid range into well-formed ranges always succeeds, keeps them sorted,
  disjoint and non-empty, adds exactly the heights of the range, and merges everything it touches: a
  list with no two touching ranges stays such a list.
\<close>

theorem insert_relaxed_adds_heights:
  assumes "wf_ranges rs" "0 < fst x" "fst x \<le> snd x"
  shows "\<exists>rs'. insert_relaxed rs x = Inr rs' \<and> wf_ranges rs' \<and>
    heights rs' = heights rs \<union> {fst x..snd x} \<and> (canonical rs \<longrightarrow> canonical rs')"
  by (rule insert_relaxed_correct [of rs x]) (use assms in \<open>auto simp: valid_range_def\<close>)

theorem insert_relaxed_adds_heights_witness:
  "\<exists>rs'. insert_relaxed [(1, 4), (9, 12)] (5, 7) = Inr rs' \<and> wf_ranges rs' \<and>
    heights rs' = heights [(1, 4), (9, 12)] \<union> {5..7} \<and> (canonical [(1, 4), (9, 12)] \<longrightarrow> canonical rs')"
  using insert_relaxed_adds_heights [of "[(1, 4), (9, 12)]" "(5, 7)"]
  by (simp add: wf_ranges_Cons valid_range_def)

text \<open>
  (C32) Relaxed removal of a valid range from well-formed ranges always succeeds, keeps the
  invariant, and removes exactly the heights of the range, splitting a range it is strictly inside of.
\<close>

theorem remove_relaxed_removes_heights:
  assumes "wf_ranges rs" "0 < fst x" "fst x \<le> snd x"
  shows "\<exists>rs'. remove_relaxed rs x = Inr rs' \<and> wf_ranges rs' \<and>
    heights rs' = heights rs - {fst x..snd x} \<and> (canonical rs \<longrightarrow> canonical rs')"
  by (rule remove_relaxed_correct [of rs x]) (use assms in \<open>auto simp: valid_range_def\<close>)

theorem remove_relaxed_removes_heights_witness:
  "\<exists>rs'. remove_relaxed [(1, 8), (9, 12)] (3, 9) = Inr rs' \<and> wf_ranges rs' \<and>
    heights rs' = heights [(1, 8), (9, 12)] - {3..9} \<and> (canonical [(1, 8), (9, 12)] \<longrightarrow> canonical rs')"
  using remove_relaxed_removes_heights [of "[(1, 8), (9, 12)]" "(3, 9)"]
  by (simp add: wf_ranges_Cons valid_range_def)

text \<open>
  The insertion constraints accept exactly the valid ranges that are disjoint from the stored
  heights and are either the first range, above the head, or adjacent to a stored height; the two
  flags returned say whether the height just below and the height just above are stored.
\<close>

lemma check_insertion_constraints_iff:
  assumes "wf_ranges rs"
  shows "check_insertion_constraints rs x = Inr (p, n) \<longleftrightarrow>
    (0 < fst x \<and> fst x \<le> snd x) \<and> heights rs \<inter> {fst x..snd x} = {} \<and>
    (heights rs = {} \<or> Max (heights rs) < fst x \<or> fst x - 1 \<in> heights rs \<or> snd x + 1 \<in> heights rs) \<and>
    p = (fst x - 1 \<in> heights rs) \<and> n = (snd x + 1 \<in> heights rs)"
  using check_insertion_iff [OF assms, of x p n]
  unfolding insertion_allowed_def valid_range_def by blast

text \<open>
  Iterating over well-formed ranges of 64-bit heights terminates and yields every height once,
  in ascending order.
\<close>

lemma collect_heights_sorted:
  assumes "wf_ranges rs" "u64_ranges rs"
  shows "collect_heights rs = Some (sorted_list_of_set (heights rs))"
  by (rule collect_heights_correct [OF assms])

text \<open>
  Bulk addition and subtraction of ranges never hit the \<open>expect\<close>, denote union and difference,
  and subtracting what was added to a disjoint canonical list gives that list back unchanged.
\<close>

lemma ranges_add_sub_cancel:
  assumes "canonical rs" "canonical ds" "heights rs \<inter> heights ds = {}"
  shows "\<exists>s. ranges_add rs ds = Some s \<and> heights s = heights rs \<union> heights ds \<and> ranges_sub s ds = Some rs"
proof -
  have ds: "\<forall>r \<in> set ds. valid_range r" using wf_valid [OF canonical_wf [OF assms(2)]] by blast
  obtain s where s: "ranges_add rs ds = Some s" "canonical s" "heights s = heights rs \<union> heights ds"
    using ranges_add_correct [OF canonical_wf [OF assms(1)] ds] assms(1) by blast
  obtain t where t: "ranges_sub s ds = Some t" "canonical t" "heights t = heights s - heights ds"
    using ranges_sub_correct [OF canonical_wf [OF s(2)] ds] s(2) by blast
  have "heights t = heights rs" using s(3) t(3) assms(3) by auto
  with canonical_unique [OF t(2) assms(1)] s t show ?thesis by simp
qed

end
