(* ===== verification/Types_Common.thy ===== *)
theory Types_Common
  imports Prelude
begin

text \<open>
  What the components of the crate \<open>types\<close> share: the errors of \<^verbatim>\<open>types/src/error.rs\<close>, the hash
  type, and the application versions and constants of \<^verbatim>\<open>types/src/consts.rs\<close>.

  The message of an \<open>Other\<close> error is the format literal of the source, with its placeholders left in
  place. \<open>Panic\<close> is no value of the source's \<open>Error\<close>: it stands for an \<open>unwrap\<close>, an \<open>expect\<close> or
  an out-of-range index that aborts the caller. Of the source's \<open>Error\<close> the enumeration keeps the
  variants the modelled code returns; an error of another crate is one constructor without argument.
\<close>

section \<open>Errors\<close>

datatype validation_error =
    ValidationNotEnoughVotingPower nat nat
  | ValidationOther string

datatype verification_error =
    NotEnoughVotingPower nat nat
  | VerificationOther string

datatype (plugins only: size code) types_error =
    UnsupportedNamespaceVersion byte
  | UnsupportedAppVersion nat
  | InvalidNamespaceSize
  | Tendermint
  | Protobuf
  | Multihash
  | CidError
  | LeopardCodec
  | MissingHeader
  | MissingCommit
  | MissingValidatorSet
  | MissingDataAvailabilityHeader
  | MissingProof
  | MissingShares
  | MissingFee
  | MissingSum
  | MissingModeInfo
  | MissingBitarray
  | BitarrayTooLarge
  | MalformedCompactBitArray
  | WrongProofType
  | UnsupportedShareVersion byte
  | InvalidShareSize nat
  | InvalidNmtLeafSize nat
  | InvalidNmtNodeOrder
  | ShareSequenceLenExceeded nat
  | InvalidNamespaceV0
  | InvalidNamespaceV255
  | InvalidNamespacedHash
  | InvalidSignatureIndex nat nat
  | InvalidAxis int
  | InvalidShwapProofType int
  | InvalidPublicKey
  | RangeProofError
  | RootMismatch
  | UnexpectedAbsentSignature
  | Validation validation_error
  | Verification verification_error
  | MaxShareVersionExceeded byte
  | Nmt string
  | InvalidAddressPrefix string
  | InvalidAddressSize nat
  | InvalidAddress string
  | InvalidBalanceDenomination string
  | InvalidBalanceAmount string
  | InvalidCoinAmount string
  | InvalidPublicKeyType string
  | UnsupportedFraudProofType string
  | IndexOutOfRange nat nat
  | EdsIndexOutOfRange nat nat
  | EdsInvalidDimentions
  | ZeroBlockHeight
  | ExpectedShareWithSequenceStart
  | UnexpectedReservedNamespace
  | UnexpectedSequenceStart
  | BlobSharesMetadataMismatch string
  | BlobTooLarge
  | InvalidComittmentLength
  | EmptyBlobList
  | Panic string

abbreviation bail_validation :: "string \<Rightarrow> ('a, validation_error) result" where
  "bail_validation msg \<equiv> Inl (ValidationOther msg)"

abbreviation bail_verification :: "string \<Rightarrow> ('a, types_error) result" where
  "bail_verification msg \<equiv> Inl (Verification (VerificationOther msg))"

section \<open>Hashes\<close>

text \<open>The \<open>Hash\<close> of tendermint; the default value is the absent hash.\<close>

datatype hash = Sha256 bytes | NoHash

definition HASH_SIZE :: nat where
  "HASH_SIZE = 32"

section \<open>Application versions and constants\<close>

datatype app_version = V1 | V2 | V3

definition from_u64 :: "nat \<Rightarrow> app_version option" where
  "from_u64 version =
     (if version = 1 then Some V1 else if version = 2 then Some V2
      else if version = 3 then Some V3 else None)"

fun as_u64 :: "app_version \<Rightarrow> nat" where
  "as_u64 V1 = 1" |
  "as_u64 V2 = 2" |
  "as_u64 V3 = 3"

definition LATEST_VERSION :: nat where
  "LATEST_VERSION = 3"

definition latest :: "app_version option" where
  "latest = from_u64 LATEST_VERSION"

fun square_size_upper_bound :: "app_version \<Rightarrow> nat" where
  "square_size_upper_bound V1 = 128" |
  "square_size_upper_bound V2 = 128" |
  "square_size_upper_bound V3 = 128"

fun subtree_root_threshold :: "app_version \<Rightarrow> nat" where
  "subtree_root_threshold V1 = 64" |
  "subtree_root_threshold V2 = 64" |
  "subtree_root_threshold V3 = 64"

fun tx_size_cost_per_byte :: "app_version \<Rightarrow> nat" where
  "tx_size_cost_per_byte _ = 10"

fun gas_per_blob_byte :: "app_version \<Rightarrow> nat" where
  "gas_per_blob_byte _ = 8"

definition max_extended_square_width :: "app_version \<Rightarrow> nat" where
  "max_extended_square_width v = square_size_upper_bound v * 2"

definition MIN_EXTENDED_SQUARE_WIDTH :: nat where
  "MIN_EXTENDED_SQUARE_WIDTH = 1 * 2"

definition NS_SIZE :: nat where "NS_SIZE = 29"
definition NS_ID_SIZE :: nat where "NS_ID_SIZE = 28"
definition NS_ID_V0_SIZE :: nat where "NS_ID_V0_SIZE = 10"
definition SHARE_SIZE :: nat where "SHARE_SIZE = 512"
definition SHARE_INFO_BYTES :: nat where "SHARE_INFO_BYTES = 1"
definition SEQUENCE_LEN_BYTES :: nat where "SEQUENCE_LEN_BYTES = 4"
definition MAX_SHARE_VERSION :: byte where "MAX_SHARE_VERSION = 127"
definition SHARE_VERSION_ZERO :: byte where "SHARE_VERSION_ZERO = 0"

definition FIRST_SPARSE_SHARE_CONTENT_SIZE :: nat where
  "FIRST_SPARSE_SHARE_CONTENT_SIZE = SHARE_SIZE - NS_SIZE - SHARE_INFO_BYTES - SEQUENCE_LEN_BYTES"

definition CONTINUATION_SPARSE_SHARE_CONTENT_SIZE :: nat where
  "CONTINUATION_SPARSE_SHARE_CONTENT_SIZE = SHARE_SIZE - NS_SIZE - SHARE_INFO_BYTES"

lemmas size_consts [simp] = NS_SIZE_def NS_ID_SIZE_def NS_ID_V0_SIZE_def SHARE_SIZE_def
  SHARE_INFO_BYTES_def SEQUENCE_LEN_BYTES_def HASH_SIZE_def
  FIRST_SPARSE_SHARE_CONTENT_SIZE_def CONTINUATION_SPARSE_SHARE_CONTENT_SIZE_def

lemma from_u64_iff: "from_u64 n = Some v \<longleftrightarrow> n = as_u64 v"
  by (cases v) (auto simp: from_u64_def)

lemma max_extended_square_width_eq [simp]: "max_extended_square_width v = 256"
  by (cases v) (simp_all add: max_extended_square_width_def)

section \<open>Copying into a fixed array\<close>

text \<open>\<open>dst[start..].copy_from_slice(src)\<close>, for a source that fits.\<close>

definition copy_from_slice :: "'a list \<Rightarrow> nat \<Rightarrow> 'a list \<Rightarrow> 'a list" where
  "copy_from_slice dst start src = take start dst @ src @ drop (start + length src) dst"

lemma length_copy_from_slice [simp]:
  "start + length src \<le> length dst \<Longrightarrow> length (copy_from_slice dst start src) = length dst"
  by (simp add: copy_from_slice_def)

end
