(* ===== verification/Nmt.thy ===== *)
theory Nmt
  imports Types_Common
begin

text \<open>
  Namespaces and namespaced hashes, from \<^verbatim>\<open>types/src/nmt.rs\<close> and
  \<^verbatim>\<open>types/src/nmt/namespaced_hash.rs\<close>. A \<open>Namespace\<close> is an array of 29 bytes ordered
  lexicographically; the order is an instance of \<open>linorder\<close>, so the library's facts on orders apply.
  The tree itself and its proofs live in the crate \<open>nmt_rs\<close>.
\<close>

section \<open>Namespaces\<close>

datatype namespace = Namespace (as_bytes: bytes)

instantiation namespace :: linorder
begin

definition less_eq_namespace :: "namespace \<Rightarrow> namespace \<Rightarrow> bool" where
  "less_eq_namespace a b = lexordp_eq (as_bytes a) (as_bytes b)"

definition less_namespace :: "namespace \<Rightarrow> namespace \<Rightarrow> bool" where
  "less_namespace a b = ord_class.lexordp (as_bytes a) (as_bytes b)"

instance
proof
  fix a b c :: namespace
  show "a < b \<longleftrightarrow> a \<le> b \<and> \<not> b \<le> a"
    by (auto simp: less_namespace_def less_eq_namespace_def lexordp_conv_lexordp_eq)
  show "a \<le> a" by (simp add: less_eq_namespace_def lexordp_eq_refl)
  show "a \<le> c" if "a \<le> b" "b \<le> c"
    using that unfolding less_eq_namespace_def by (rule lexordp_eq_trans)
  show "a = b" if "a \<le> b" "b \<le> a"
    using that unfolding less_eq_namespace_def
    by (metis lexordp_eq_antisym namespace.expand)
  show "a \<le> b \<or> b \<le> a"
    unfolding less_eq_namespace_def by (rule lexordp_eq_linear)
qed

end

definition const_v0 :: "bytes \<Rightarrow> namespace" where
  "const_v0 ident = Namespace (copy_from_slice (replicate NS_SIZE 0) (NS_SIZE - NS_ID_V0_SIZE) ident)"

definition const_v255 :: "byte \<Rightarrow> namespace" where
  "const_v255 ident = Namespace ((replicate NS_SIZE 255)[NS_ID_SIZE := ident])"

definition TRANSACTION :: namespace where
  "TRANSACTION = const_v0 [0, 0, 0, 0, 0, 0, 0, 0, 0, 1]"

definition PAY_FOR_BLOB :: namespace where
  "PAY_FOR_BLOB = const_v0 [0, 0, 0, 0, 0, 0, 0, 0, 0, 4]"

definition MAX_PRIMARY_RESERVED :: namespace where
  "MAX_PRIMARY_RESERVED = const_v0 [0, 0, 0, 0, 0, 0, 0, 0, 0, 0xff]"

definition PRIMARY_RESERVED_PADDING :: namespace where
  "PRIMARY_RESERVED_PADDING = MAX_PRIMARY_RESERVED"

definition MIN_SECONDARY_RESERVED :: namespace where
  "MIN_SECONDARY_RESERVED = const_v255 0"

definition TAIL_PADDING :: namespace where
  "TAIL_PADDING = const_v255 0xfe"

definition PARITY_SHARE :: namespace where
  "PARITY_SHARE = const_v255 0xff"

definition new_v0 :: "bytes \<Rightarrow> (namespace, types_error) result" where
  "new_v0 ident =
     try_bind
       (if length ident = NS_ID_SIZE then Inr (NS_ID_SIZE - NS_ID_V0_SIZE)
        else if length ident \<le> NS_ID_V0_SIZE then Inr 0
        else Inl InvalidNamespaceSize) (\<lambda>id_pos.
     let prefix = take id_pos ident; suffix = drop id_pos ident in
     if list_ex (\<lambda>x. x \<noteq> 0) prefix then Inl InvalidNamespaceV0
     else Inr (Namespace (copy_from_slice (replicate NS_SIZE 0) (NS_SIZE - length suffix) suffix)))"

definition new_v255 :: "bytes \<Rightarrow> (namespace, types_error) result" where
  "new_v255 ident =
     (if length ident \<noteq> NS_ID_SIZE then Inl InvalidNamespaceSize
      else if list_all (\<lambda>x. x = 0xff) (butlast ident) then Inr (const_v255 (last ident))
      else Inl InvalidNamespaceV255)"

definition new_namespace :: "byte \<Rightarrow> bytes \<Rightarrow> (namespace, types_error) result" where
  "new_namespace version ident =
     (if version = 0 then new_v0 ident
      else if version = 255 then new_v255 ident
      else Inl (UnsupportedNamespaceVersion version))"

definition from_raw :: "bytes \<Rightarrow> (namespace, types_error) result" where
  "from_raw bytes =
     (if length bytes \<noteq> NS_SIZE then Inl InvalidNamespaceSize
      else new_namespace (bytes ! 0) (drop 1 bytes))"

definition ns_version :: "namespace \<Rightarrow> byte" where
  "ns_version self = as_bytes self ! 0"

definition ns_id :: "namespace \<Rightarrow> bytes" where
  "ns_id self = drop 1 (as_bytes self)"

definition id_v0 :: "namespace \<Rightarrow> bytes option" where
  "id_v0 self =
     (if ns_version self = 0 then Some (drop (NS_SIZE - NS_ID_V0_SIZE) (as_bytes self)) else None)"

definition is_reserved :: "namespace \<Rightarrow> bool" where
  "is_reserved self \<longleftrightarrow> self \<le> MAX_PRIMARY_RESERVED \<or> MIN_SECONDARY_RESERVED \<le> self"

section \<open>Namespaced hashes\<close>

text \<open>
  The \<open>NamespacedHash\<close> of \<open>nmt_rs\<close> has a minimal and a maximal namespace and a hash. Its parser is code
  of that crate, the argument \<open>parse\<close> of \<open>hash_from_raw\<close>.
\<close>

record namespaced_hash =
  min_namespace :: namespace
  max_namespace :: namespace
  ns_hash :: bytes

definition to_array :: "namespaced_hash \<Rightarrow> bytes" where
  "to_array self =
     copy_from_slice
       (copy_from_slice
         (copy_from_slice (replicate (2 * NS_SIZE + HASH_SIZE) 0) 0 (as_bytes (min_namespace self)))
         NS_SIZE (as_bytes (max_namespace self)))
       (2 * NS_SIZE) (ns_hash self)"

definition hash_from_raw ::
  "(bytes \<Rightarrow> namespaced_hash option) \<Rightarrow> bytes \<Rightarrow> (namespaced_hash, types_error) result" where
  "hash_from_raw parse bytes = ok_or InvalidNamespacedHash (parse bytes)"

definition validate_namespace_order :: "namespaced_hash \<Rightarrow> (unit, types_error) result" where
  "validate_namespace_order self =
     (if max_namespace self < min_namespace self then Inl InvalidNmtNodeOrder else Inr ())"

definition validate_node_pair :: "namespaced_hash \<times> namespaced_hash \<Rightarrow> (unit, types_error) result" where
  "validate_node_pair pair = (case pair of (left, right) \<Rightarrow>
     try_bind (validate_namespace_order left) (\<lambda>_.
     try_bind (validate_namespace_order right) (\<lambda>_.
     if min_namespace right < max_namespace left then Inl InvalidNmtNodeOrder else Inr ())))"

section \<open>Lexicographic comparison with the reserved bounds\<close>

definition valid_namespace :: "bytes \<Rightarrow> bool" where
  "valid_namespace b \<longleftrightarrow> length b = NS_SIZE \<and>
     (take 19 b = replicate 19 0 \<or> take 28 b = replicate 28 255)"

definition valid_hash :: "namespaced_hash \<Rightarrow> bool" where
  "valid_hash h \<longleftrightarrow> length (as_bytes (min_namespace h)) = NS_SIZE \<and>
     length (as_bytes (max_namespace h)) = NS_SIZE \<and> length (ns_hash h) = HASH_SIZE"

lemma byte_le_255 [simp]: "(x :: byte) \<le> 255"
  by (rule order_trans [OF word_n1_ge]) code_simp

lemma byte_not_less_0 [simp]: "\<not> (x :: byte) < 0"
  by simp

lemma lexordp_eq_zeros:
  "length xs = Suc n \<Longrightarrow> lexordp_eq xs (replicate n 0 @ [255 :: byte]) \<longleftrightarrow> take n xs = replicate n 0"
proof (induction n arbitrary: xs)
  case 0
  then obtain x where "xs = [x]" by (cases xs) auto
  moreover have "x < 255 \<or> x = 255" using byte_le_255 [of x] by (metis order_le_less)
  ultimately show ?case by auto
next
  case (Suc n)
  then obtain x ys where "xs = x # ys" "length ys = Suc n" by (cases xs) auto
  with Suc.IH [of ys] show ?case by (auto simp: not_less)
qed

lemma lexordp_eq_ones:
  "length xs = Suc n \<Longrightarrow> lexordp_eq (replicate n 255 @ [0 :: byte]) xs \<longleftrightarrow> take n xs = replicate n 255"
proof (induction n arbitrary: xs)
  case 0
  then obtain x where "xs = [x]" by (cases xs) auto
  moreover have "0 < x \<or> x = 0" by (simp add: word_greater_zero_iff)
  ultimately show ?case by auto
next
  case (Suc n)
  then obtain x ys where "xs = x # ys" "length ys = Suc n" by (cases xs) auto
  moreover have "\<not> 255 < x" using byte_le_255 [of x] by (simp add: not_less)
  ultimately show ?case using Suc.IH [of ys] by auto
qed


lemma reserved_bounds:
  "MAX_PRIMARY_RESERVED = Namespace (replicate 28 0 @ [255])"
  "MIN_SECONDARY_RESERVED = Namespace (replicate 28 255 @ [0])"
  by code_simp+

lemma le_max_primary_reserved:
  "length (as_bytes n) = NS_SIZE \<Longrightarrow> n \<le> MAX_PRIMARY_RESERVED \<longleftrightarrow> take 28 (as_bytes n) = replicate 28 0"
  using lexordp_eq_zeros [of "as_bytes n" 28] by (simp add: less_eq_namespace_def reserved_bounds)

lemma ge_min_secondary_reserved:
  "length (as_bytes n) = NS_SIZE \<Longrightarrow> MIN_SECONDARY_RESERVED \<le> n \<longleftrightarrow> take 28 (as_bytes n) = replicate 28 255"
  using lexordp_eq_ones [of "as_bytes n" 28] by (simp add: less_eq_namespace_def reserved_bounds)

section \<open>Which bytes are namespaces\<close>

lemma list_ex_zeros: "\<not> list_ex (\<lambda>x. x \<noteq> 0) xs \<longleftrightarrow> xs = replicate (length xs) (0 :: byte)"
  by (induction xs) auto

lemma list_all_ones: "list_all (\<lambda>x. x = 255) xs \<longleftrightarrow> xs = replicate (length xs) (255 :: byte)"
  by (induction xs) auto

lemma new_v0_full:
  assumes "length i = NS_ID_SIZE"
  shows "new_v0 i = Inr n \<longleftrightarrow> take 18 i = replicate 18 0 \<and> n = Namespace (0 # i)"
proof -
  have "replicate 19 (0 :: byte) = 0 # replicate 18 0" using replicate_Suc [of 18 "0 :: byte"] by simp
  moreover have "take 18 i = replicate 18 0 \<Longrightarrow> replicate 18 0 @ drop 18 i = i"
    by (metis append_take_drop_id)
  ultimately show ?thesis
    using assms list_ex_zeros [of "take 18 i"]
    by (auto simp: new_v0_def Let_def copy_from_slice_def)
qed

lemma new_v255_full:
  assumes "length i = NS_ID_SIZE"
  shows "new_v255 i = Inr n \<longleftrightarrow> take 27 i = replicate 27 255 \<and> n = Namespace (255 # i)"
proof -
  have last: "const_v255 x = Namespace (255 # replicate 27 255 @ [x])" for x
  proof -
    have "replicate 29 (255 :: byte) = (255 # replicate 27 255) @ [255]"
      using replicate_Suc [of 28 "255 :: byte"] replicate_Suc [of 27 "255 :: byte"]
        replicate_append_same [of 27 "255 :: byte"] by simp
    then show ?thesis by (simp add: const_v255_def list_update_append)
  qed
  have bl: "butlast i = take 27 i" using assms by (simp add: butlast_conv_take)
  have "i \<noteq> []" using assms by auto
  then have i: "i = take 27 i @ [last i]" using append_butlast_last_id [of i] bl by simp
  show ?thesis
    using assms list_all_ones [of "butlast i"] i bl
    by (auto simp: new_v255_def last)
qed

lemma from_raw_Inr_iff: "from_raw b = Inr n \<longleftrightarrow> valid_namespace b \<and> n = Namespace b"
proof (cases b)
  case Nil
  then show ?thesis by (auto simp: from_raw_def valid_namespace_def)
next
  case (Cons v i)
  show ?thesis
  proof (cases "length i = NS_ID_SIZE")
    case False
    with Cons show ?thesis by (auto simp: from_raw_def valid_namespace_def)
  next
    case True
    have "take 19 b = replicate 19 0 \<longleftrightarrow> v = 0 \<and> take 18 i = replicate 18 0"
      "take 28 b = replicate 28 255 \<longleftrightarrow> v = 255 \<and> take 27 i = replicate 27 255"
      unfolding Cons using replicate_Suc [of 18 "0 :: byte"] replicate_Suc [of 27 "255 :: byte"]
      by (simp_all add: take_Cons' del: replicate_Suc)
    with Cons True new_v0_full [OF True] new_v255_full [OF True] show ?thesis
      by (auto simp: from_raw_def valid_namespace_def new_namespace_def)
  qed
qed


lemma new_v0_suffix:
  assumes "length s \<le> NS_ID_V0_SIZE"
  shows "new_v0 s = Inr (Namespace (replicate (29 - length s) 0 @ s))"
  using assms by (simp add: new_v0_def Let_def copy_from_slice_def)

lemma to_array_eq:
  "valid_hash h \<Longrightarrow> to_array h = as_bytes (min_namespace h) @ as_bytes (max_namespace h) @ ns_hash h"
  by (simp add: to_array_def valid_hash_def copy_from_slice_def)

lemma to_array_length: "valid_hash h \<Longrightarrow> length (to_array h) = 90"
  by (simp add: to_array_eq) (simp add: valid_hash_def)

lemma to_array_inject:
  assumes "valid_hash a" "valid_hash b" "to_array a = to_array b"
  shows "a = b"
  using assms by (cases a, cases b) (auto simp: to_array_eq valid_hash_def namespace.expand)

section \<open>Correctness of namespaces\<close>

text \<open>
  Parsing raw bytes succeeds exactly on the 29-byte strings of version 0 with an 18-byte zero
  prefix and of version 255 with a 27-byte \<open>0xff\<close> prefix, and it returns the bytes unchanged.
\<close>

lemma namespace_from_raw_iff:
  "from_raw b = Inr n \<longleftrightarrow> as_bytes n = b \<and> length b = 29 \<and>
     (b ! 0 = 0 \<and> take 18 (drop 1 b) = replicate 18 0 \<or>
      b ! 0 = 255 \<and> take 27 (drop 1 b) = replicate 27 255)"
proof (cases b)
  case (Cons v i)
  have "take 19 b = replicate 19 0 \<longleftrightarrow> v = 0 \<and> take 18 i = replicate 18 0"
    "take 28 b = replicate 28 255 \<longleftrightarrow> v = 255 \<and> take 27 i = replicate 27 255"
    unfolding Cons using replicate_Suc [of 18 "0 :: byte"] replicate_Suc [of 27 "255 :: byte"]
    by (simp_all add: take_Cons' del: replicate_Suc)
  with Cons show ?thesis
    by (cases n) (auto simp: from_raw_Inr_iff valid_namespace_def)
qed (auto simp: from_raw_Inr_iff valid_namespace_def)

text \<open>
  A suffix of at most ten bytes always makes a version 0 namespace: the suffix is recovered,
  left-padded with zeros, by \<open>id_v0\<close>, and the result parses back to itself from its bytes.
\<close>

lemma new_v0_suffix_roundtrip:
  assumes "length s \<le> 10"
  shows "\<exists>n. new_v0 s = Inr n \<and> ns_version n = 0 \<and>
    id_v0 n = Some (replicate (10 - length s) 0 @ s) \<and> from_raw (as_bytes n) = Inr n"
  using assms new_v0_suffix [of s]
  by (auto simp: ns_version_def id_v0_def nth_append from_raw_Inr_iff valid_namespace_def take_append)

text \<open>
  Of the namespaces that parse, the reserved ones are exactly those of version 255 and those of
  version 0 whose id is at most \<open>0xff\<close>, that is, whose bytes but the last are zero.
\<close>

lemma is_reserved_iff:
  assumes "from_raw b = Inr n"
  shows "is_reserved n \<longleftrightarrow> ns_version n = 255 \<or> butlast (as_bytes n) = replicate 28 0"
proof -
  have b: "as_bytes n = b" "length b = 29" "take 19 b = replicate 19 0 \<or> take 28 b = replicate 28 255"
    using assms by (auto simp: from_raw_Inr_iff valid_namespace_def)
  have "b ! 0 = 255 \<longleftrightarrow> take 28 b = replicate 28 255"
  proof
    assume "b ! 0 = 255"
    then have "take 19 b ! 0 \<noteq> replicate 19 0 ! 0" by simp
    with b(3) show "take 28 b = replicate 28 255" by metis
  next
    assume "take 28 b = replicate 28 255"
    then have "take 28 b ! 0 = 255" by simp
    then show "b ! 0 = 255" by simp
  qed
  with b show ?thesis
    using le_max_primary_reserved [of n] ge_min_secondary_reserved [of n]
    by (auto simp: is_reserved_def ns_version_def butlast_conv_take)
qed

end
