(* ===== verification/Merkle_Proof.thy ===== *)
theory Merkle_Proof
  imports Types_Common
begin

text \<open>
  Inclusion proofs in the RFC 6962 style trees of tendermint, from \<^verbatim>\<open>types/src/merkle_proof.rs\<close>.
  The hash functions (\<open>MerkleHash\<close> of tendermint over SHA-256) are parameters: a record of the hash of
  the empty tree, of a leaf and of an inner node. Proofs are complete for every such record, and sound
  for one without collisions.
\<close>

section \<open>Powers of two\<close>

text \<open>\<open>usize::next_power_of_two\<close> of the standard library.\<close>

function next_power_of_two :: "nat \<Rightarrow> nat" where
  "next_power_of_two n = (if n \<le> 1 then 1 else 2 * next_power_of_two ((n + 1) div 2))"
  by auto
termination by (relation "measure id") auto

declare next_power_of_two.simps [simp del]

lemma next_power_of_two_ge: "n \<le> next_power_of_two n"
proof (induction n rule: next_power_of_two.induct)
  case (1 n)
  show ?case
  proof (cases "n \<le> 1")
    case False
    with 1 show ?thesis by (subst next_power_of_two.simps) simp
  qed (simp add: next_power_of_two.simps)
qed

lemma next_power_of_two_power: "\<exists>k. next_power_of_two n = 2 ^ k"
proof (induction n rule: next_power_of_two.induct)
  case (1 n)
  show ?case
  proof (cases "n \<le> 1")
    case True
    then show ?thesis by (subst next_power_of_two.simps) (auto intro: exI [of _ 0])
  next
    case False
    with 1 obtain k where "next_power_of_two ((n + 1) div 2) = 2 ^ k" by auto
    with False have "next_power_of_two n = 2 ^ Suc k" by (subst next_power_of_two.simps) simp
    then show ?thesis by blast
  qed
qed

lemma next_power_of_two_even: "1 < n \<Longrightarrow> even (next_power_of_two n)"
  using next_power_of_two.simps [of n] by simp

lemma next_power_of_two_less: "0 < n \<Longrightarrow> next_power_of_two n < 2 * n"
proof (induction n rule: next_power_of_two.induct)
  case (1 n)
  show ?case
  proof (cases "n \<le> 1")
    case False
    with 1 have "next_power_of_two ((n + 1) div 2) < 2 * ((n + 1) div 2)" by simp
    moreover have "next_power_of_two ((n + 1) div 2) \<noteq> n" if "odd n"
      using that next_power_of_two_even [of "(n + 1) div 2"] False by (cases "n = 1"; auto)
    ultimately have "next_power_of_two ((n + 1) div 2) < n"
      by (cases "even n") (auto elim!: oddE evenE)
    with False show ?thesis by (subst next_power_of_two.simps) simp
  qed (use 1 in \<open>simp add: next_power_of_two.simps\<close>)
qed

text \<open>Where a tree of \<open>n\<close> leaves is split.\<close>

abbreviation split_point :: "nat \<Rightarrow> nat" where
  "split_point n \<equiv> next_power_of_two n div 2"

lemma split_point_bounds:
  assumes "1 < n"
  shows "0 < split_point n" "split_point n < n"
proof -
  have "1 < next_power_of_two n" using next_power_of_two_ge [of n] assms by linarith
  then show "0 < split_point n" by simp
  show "split_point n < n" using next_power_of_two_less [of n] assms by linarith
qed

lemma split_point_list:
  "xs \<noteq> [] \<Longrightarrow> length xs \<noteq> Suc 0 \<Longrightarrow> 0 < split_point (length xs) \<and> split_point (length xs) < length xs"
  using split_point_bounds [of "length xs"] by (cases xs) (auto simp: Suc_lessI)

lemma split_point_shrinks: "Suc 0 < n \<Longrightarrow> min n (split_point n) < n \<and> n - split_point n < n"
  using split_point_bounds [of n] by auto

section \<open>Proofs\<close>

record 'h merkle_hasher =
  empty_hash :: 'h
  leaf_hash_fn :: "bytes \<Rightarrow> 'h"
  inner_hash :: "'h \<Rightarrow> 'h \<Rightarrow> 'h"

record 'h merkle_proof =
  proof_index :: nat
  proof_total :: nat
  proof_leaf_hash :: 'h
  proof_aunts :: "'h list"

function hash_leaves_collecting_aunts ::
  "'h merkle_hasher \<Rightarrow> nat \<Rightarrow> nat \<Rightarrow> bytes list \<Rightarrow> 'h list \<Rightarrow> 'h \<times> 'h list" where
  "hash_leaves_collecting_aunts H first_leaf_index leaf_to_prove leaves aunts =
     (let total' = length leaves in
      if total' = 0 then (empty_hash H, aunts)
      else if total' = 1 then (leaf_hash_fn H (leaves ! 0), aunts)
      else
        let subtrees_split = next_power_of_two total' div 2;
            (left, aunts1) = hash_leaves_collecting_aunts H first_leaf_index leaf_to_prove
               (take subtrees_split leaves) aunts;
            (right, aunts2) = hash_leaves_collecting_aunts H (first_leaf_index + subtrees_split)
               leaf_to_prove (drop subtrees_split leaves) aunts1;
            aunts3 = (if first_leaf_index \<le> leaf_to_prove \<and> leaf_to_prove < first_leaf_index + total'
               then if leaf_to_prove < first_leaf_index + subtrees_split
                    then aunts2 @ [right] else aunts2 @ [left]
               else aunts2)
        in (inner_hash H left right, aunts3))"
  by pat_completeness auto
termination
  by (relation "measure (\<lambda>(_, _, _, leaves, _). length leaves)")
    (auto dest: split_point_list)

declare hash_leaves_collecting_aunts.simps [simp del]

definition new_proof ::
  "'h merkle_hasher \<Rightarrow> nat \<Rightarrow> bytes list \<Rightarrow> ('h merkle_proof \<times> 'h, types_error) result" where
  "new_proof H leaf_to_prove leaves =
     (if length leaves \<le> leaf_to_prove then Inl (IndexOutOfRange leaf_to_prove (length leaves))
      else let (root, aunts) = hash_leaves_collecting_aunts H 0 leaf_to_prove leaves [] in
        Inr (\<lparr> proof_index = leaf_to_prove, proof_total = length leaves,
               proof_leaf_hash = leaf_hash_fn H (leaves ! leaf_to_prove), proof_aunts = aunts \<rparr>, root))"

function subtree_root_from_aunts ::
  "'h merkle_hasher \<Rightarrow> nat \<Rightarrow> nat \<Rightarrow> 'h \<Rightarrow> 'h list \<Rightarrow> ('h, types_error) result" where
  "subtree_root_from_aunts H index total' leaf aunts =
     (if total' = 1 then
        (if aunts \<noteq> [] then bail_verification ''extra aunts in proof'' else Inr leaf)
      else
        let subtrees_split = next_power_of_two total' div 2 in
        if aunts = [] then bail_verification ''aunts missing in proof''
        else let sibling = last aunts; aunts' = butlast aunts in
          if index < subtrees_split then
            try_bind (subtree_root_from_aunts H index subtrees_split leaf aunts')
              (\<lambda>left_hash. Inr (inner_hash H left_hash sibling))
          else
            try_bind (subtree_root_from_aunts H (index - subtrees_split) (total' - subtrees_split) leaf aunts')
              (\<lambda>right_hash. Inr (inner_hash H sibling right_hash)))"
  by pat_completeness auto
termination
  by (relation "measure (\<lambda>(_, _, _, _, aunts). length aunts)") auto

declare subtree_root_from_aunts.simps [simp del]

definition verify_proof ::
  "'h merkle_hasher \<Rightarrow> 'h merkle_proof \<Rightarrow> bytes \<Rightarrow> 'h \<Rightarrow> (unit, types_error) result" where
  "verify_proof H self leaf root =
     (let leaf' = leaf_hash_fn H leaf in
      if leaf' \<noteq> proof_leaf_hash self then bail_verification ''proof created for a different leaf''
      else try_bind (subtree_root_from_aunts H (proof_index self) (proof_total self) leaf' (proof_aunts self))
        (\<lambda>computed_root. if computed_root \<noteq> root then Inl RootMismatch else Inr ()))"

text \<open>The protobuf form, with signed 64-bit counters and hashes of any length.\<close>

record raw_merkle_proof =
  raw_index :: int
  raw_total :: int
  raw_leaf_hash :: bytes
  raw_aunts :: "bytes list"

definition try_into_hash :: "bytes \<Rightarrow> (bytes, types_error) result" where
  "try_into_hash b =
     (if length b = HASH_SIZE then Inr b else Inl (Validation (ValidationOther ''invalid hash size'')))"

definition proof_from_raw :: "raw_merkle_proof \<Rightarrow> (bytes merkle_proof, types_error) result" where
  "proof_from_raw value =
     (if raw_index value < 0 then Inl (Validation (ValidationOther ''negative index''))
      else if raw_total value \<le> 0 then Inl (Validation (ValidationOther ''total <= 0''))
      else try_bind (try_into_hash (raw_leaf_hash value)) (\<lambda>leaf.
           try_bind (try_map try_into_hash (raw_aunts value)) (\<lambda>aunts.
             Inr \<lparr> proof_index = nat (raw_index value), proof_total = nat (raw_total value),
                   proof_leaf_hash = leaf, proof_aunts = aunts \<rparr>)))"

text \<open>\<open>usize as i64\<close> reads the 64 bits as two's complement.\<close>

definition as_i64 :: "nat \<Rightarrow> int" where
  "as_i64 n = (if n \<le> i64_max then int n else int n - 2 ^ 64)"

definition proof_to_raw :: "bytes merkle_proof \<Rightarrow> raw_merkle_proof" where
  "proof_to_raw value =
     \<lparr> raw_index = as_i64 (proof_index value), raw_total = as_i64 (proof_total value),
       raw_leaf_hash = proof_leaf_hash value, raw_aunts = proof_aunts value \<rparr>"


section \<open>Completeness\<close>

text \<open>The root of the tree and the siblings on the way to a leaf, without the accumulator.\<close>

function tree_root :: "'h merkle_hasher \<Rightarrow> bytes list \<Rightarrow> 'h" where
  "tree_root H leaves =
     (if leaves = [] then empty_hash H
      else if length leaves = 1 then leaf_hash_fn H (leaves ! 0)
      else inner_hash H (tree_root H (take (split_point (length leaves)) leaves))
                        (tree_root H (drop (split_point (length leaves)) leaves)))"
  by pat_completeness auto
termination
  by (relation "measure (\<lambda>(_, leaves). length leaves)") (auto dest: split_point_list)

function aunts_of :: "'h merkle_hasher \<Rightarrow> nat \<Rightarrow> bytes list \<Rightarrow> 'h list" where
  "aunts_of H i leaves =
     (if length leaves \<le> 1 then []
      else let s = split_point (length leaves) in
        if i < s then aunts_of H i (take s leaves) @ [tree_root H (drop s leaves)]
        else aunts_of H (i - s) (drop s leaves) @ [tree_root H (take s leaves)])"
  by pat_completeness auto
termination
  by (relation "measure (\<lambda>(_, _, leaves). length leaves)")
    (auto simp: not_le dest: split_point_shrinks)

declare tree_root.simps [simp del] aunts_of.simps [simp del]

lemma tree_root_simps [simp]:
  "tree_root H [] = empty_hash H"
  "tree_root H [x] = leaf_hash_fn H x"
  by (subst tree_root.simps, simp)+

lemma tree_root_split:
  "1 < length leaves \<Longrightarrow> tree_root H leaves =
     inner_hash H (tree_root H (take (split_point (length leaves)) leaves))
                  (tree_root H (drop (split_point (length leaves)) leaves))"
  by (subst tree_root.simps) auto

lemma aunts_of_simps:
  "length leaves \<le> 1 \<Longrightarrow> aunts_of H i leaves = []"
  "1 < length leaves \<Longrightarrow> i < split_point (length leaves) \<Longrightarrow> aunts_of H i leaves =
     aunts_of H i (take (split_point (length leaves)) leaves) @
     [tree_root H (drop (split_point (length leaves)) leaves)]"
  "1 < length leaves \<Longrightarrow> \<not> i < split_point (length leaves) \<Longrightarrow> aunts_of H i leaves =
     aunts_of H (i - split_point (length leaves)) (drop (split_point (length leaves)) leaves) @
     [tree_root H (take (split_point (length leaves)) leaves)]"
  by (subst aunts_of.simps, simp add: Let_def)+

lemma subtree_root_simps:
  "subtree_root_from_aunts H i (Suc 0) x [] = Inr x"
  "aunts \<noteq> [] \<Longrightarrow> subtree_root_from_aunts H i (Suc 0) x aunts = bail_verification ''extra aunts in proof''"
  "n \<noteq> 1 \<Longrightarrow> subtree_root_from_aunts H i n x [] = bail_verification ''aunts missing in proof''"
  "n \<noteq> 1 \<Longrightarrow> i < split_point n \<Longrightarrow> subtree_root_from_aunts H i n x (aunts @ [a]) =
     try_bind (subtree_root_from_aunts H i (split_point n) x aunts) (\<lambda>h. Inr (inner_hash H h a))"
  "n \<noteq> 1 \<Longrightarrow> \<not> i < split_point n \<Longrightarrow> subtree_root_from_aunts H i n x (aunts @ [a]) =
     try_bind (subtree_root_from_aunts H (i - split_point n) (n - split_point n) x aunts)
       (\<lambda>h. Inr (inner_hash H a h))"
  by (subst subtree_root_from_aunts.simps, simp add: Let_def)+

lemma hash_leaves_split:
  assumes "1 < length leaves"
    and "hash_leaves_collecting_aunts H f l (take (split_point (length leaves)) leaves) aunts = (left, aunts1)"
    and "hash_leaves_collecting_aunts H (f + split_point (length leaves)) l
      (drop (split_point (length leaves)) leaves) aunts1 = (right, aunts2)"
  shows "hash_leaves_collecting_aunts H f l leaves aunts = (inner_hash H left right,
    if f \<le> l \<and> l < f + length leaves
    then if l < f + split_point (length leaves) then aunts2 @ [right] else aunts2 @ [left] else aunts2)"
  using assms by (subst hash_leaves_collecting_aunts.simps) (auto simp: Let_def)

lemma hash_leaves_short:
  "hash_leaves_collecting_aunts H f l [] aunts = (empty_hash H, aunts)"
  "hash_leaves_collecting_aunts H f l [x] aunts = (leaf_hash_fn H x, aunts)"
  by (subst hash_leaves_collecting_aunts.simps, simp)+

lemma short_list_cases: "length xs \<le> 1 \<Longrightarrow> (xs = [] \<Longrightarrow> P) \<Longrightarrow> (\<And>x. xs = [x] \<Longrightarrow> P) \<Longrightarrow> P"
  by (cases xs) auto

lemma hash_leaves_collecting_aunts_eq:
  "hash_leaves_collecting_aunts H f l leaves aunts =
     (tree_root H leaves,
      aunts @ (if f \<le> l \<and> l < f + length leaves then aunts_of H (l - f) leaves else []))"
proof (induction H f l leaves aunts rule: hash_leaves_collecting_aunts.induct)
  case (1 H f l leaves aunts)
  let ?s = "split_point (length leaves)"
  show ?case
  proof (cases "length leaves \<le> 1")
    case True
    then show ?thesis
      by (rule short_list_cases) (simp_all add: hash_leaves_short aunts_of_simps(1))
  next
    case False
    then have ne: "length leaves \<noteq> 0" "length leaves \<noteq> 1" "1 < length leaves" by auto
    have s: "0 < ?s" "?s < length leaves" using split_point_bounds ne(3) by auto
    note L = "1.IH"(1) [OF refl ne(1,2) refl]
    note R = "1.IH"(2) [OF refl ne(1,2) refl L [symmetric] refl]
    show ?thesis
    proof (cases "f \<le> l \<and> l < f + length leaves")
      case True
      then show ?thesis
        unfolding hash_leaves_split [OF ne(3) L R] tree_root_split [OF ne(3)]
        using s by (cases "l < f + ?s") (simp_all add: aunts_of_simps(2,3) [OF ne(3)] less_diff_conv2)
    next
      case False
      then show ?thesis
        unfolding hash_leaves_split [OF ne(3) L R] tree_root_split [OF ne(3)] using s by auto
    qed
  qed
qed

lemma subtree_root_complete:
  assumes "i < length leaves"
  shows "subtree_root_from_aunts H i (length leaves) (leaf_hash_fn H (leaves ! i)) (aunts_of H i leaves) =
    Inr (tree_root H leaves)"
  using assms
proof (induction H i leaves rule: aunts_of.induct)
  case (1 H i leaves)
  let ?s = "split_point (length leaves)"
  show ?case
  proof (cases "length leaves \<le> 1")
    case True
    then show ?thesis
      by (rule short_list_cases) (use "1.prems" in \<open>auto simp: aunts_of_simps subtree_root_simps\<close>)
  next
    case False
    then have n: "1 < length leaves" by simp
    have s: "0 < ?s" "?s < length leaves" using split_point_bounds n by auto
    show ?thesis
    proof (cases "i < ?s")
      case True
      have "length (take ?s leaves) = ?s" using s by simp
      with "1.IH"(1) [OF False refl True] True s n show ?thesis
        by (simp add: aunts_of_simps subtree_root_simps tree_root_split)
    next
      case ge: False
      have "length (drop ?s leaves) = length leaves - ?s" "drop ?s leaves ! (i - ?s) = leaves ! i"
        using ge "1.prems" by simp_all
      with "1.IH"(2) [OF False refl ge] ge s n "1.prems" show ?thesis
        by (simp add: aunts_of_simps subtree_root_simps tree_root_split)
    qed
  qed
qed


section \<open>Soundness\<close>

definition collision_free :: "'h merkle_hasher \<Rightarrow> bool" where
  "collision_free H \<longleftrightarrow> inj (leaf_hash_fn H) \<and>
     (\<forall>a b c d. inner_hash H a b = inner_hash H c d \<longrightarrow> a = c \<and> b = d)"

lemma collision_free_inner:
  "collision_free H \<Longrightarrow> inner_hash H a b = inner_hash H c d \<longleftrightarrow> a = c \<and> b = d"
  unfolding collision_free_def by blast

lemma collision_free_leaf: "collision_free H \<Longrightarrow> leaf_hash_fn H a = leaf_hash_fn H b \<longleftrightarrow> a = b"
  unfolding collision_free_def inj_def by blast

lemma subtree_root_unique:
  assumes "collision_free H" "i < length leaves"
    and "subtree_root_from_aunts H i (length leaves) x aunts = Inr (tree_root H leaves)"
  shows "x = leaf_hash_fn H (leaves ! i) \<and> aunts = aunts_of H i leaves"
  using assms
proof (induction H i leaves arbitrary: aunts rule: aunts_of.induct)
  case (1 H i leaves)
  let ?s = "split_point (length leaves)"
  show ?case
  proof (cases "length leaves \<le> 1")
    case True
    then obtain y where "leaves = [y]" using "1.prems"(2) by (elim short_list_cases) auto
    with "1.prems" show ?thesis
      by (cases "aunts = []") (auto simp: aunts_of_simps subtree_root_simps)
  next
    case False
    then have n: "1 < length leaves" by simp
    have s: "0 < ?s" "?s < length leaves" using split_point_bounds n by auto
    from n "1.prems"(3) obtain as a where aunts: "aunts = as @ [a]"
      by (cases aunts rule: rev_cases) (auto simp: subtree_root_simps)
    show ?thesis
    proof (cases "i < ?s")
      case True
      have "try_bind (subtree_root_from_aunts H i ?s x as) (\<lambda>h. Inr (inner_hash H h a)) =
          Inr (inner_hash H (tree_root H (take ?s leaves)) (tree_root H (drop ?s leaves)))"
        using "1.prems"(3) subtree_root_simps(4) [OF _ True, of H x as a] n
        unfolding aunts tree_root_split [OF n] by simp
      then have h: "subtree_root_from_aunts H i (length (take ?s leaves)) x as = Inr (tree_root H (take ?s leaves))"
        "a = tree_root H (drop ?s leaves)"
        using s by (auto simp: try_bind_Inr_iff collision_free_inner [OF "1.prems"(1)])
      have "i < length (take ?s leaves)" using True s by simp
      from "1.IH"(1) [OF False refl True "1.prems"(1) this h(1)] h(2) aunts True show ?thesis
        unfolding aunts_of_simps(2) [OF n True] by simp
    next
      case ge: False
      have "try_bind (subtree_root_from_aunts H (i - ?s) (length leaves - ?s) x as) (\<lambda>h. Inr (inner_hash H a h)) =
          Inr (inner_hash H (tree_root H (take ?s leaves)) (tree_root H (drop ?s leaves)))"
        using "1.prems"(3) subtree_root_simps(5) [OF _ ge, of H x as a] n
        unfolding aunts tree_root_split [OF n] by simp
      then have h: "subtree_root_from_aunts H (i - ?s) (length (drop ?s leaves)) x as = Inr (tree_root H (drop ?s leaves))"
        "a = tree_root H (take ?s leaves)"
        by (auto simp: try_bind_Inr_iff collision_free_inner [OF "1.prems"(1)])
      have "i - ?s < length (drop ?s leaves)" using ge s "1.prems"(2) by simp
      from "1.IH"(2) [OF False refl ge "1.prems"(1) this h(1)] h(2) aunts ge "1.prems"(2) show ?thesis
        unfolding aunts_of_simps(3) [OF n ge] by simp
    qed
  qed
qed

lemma new_proof_eq:
  "i < length leaves \<Longrightarrow> new_proof H i leaves = Inr
     (\<lparr> proof_index = i, proof_total = length leaves,
        proof_leaf_hash = leaf_hash_fn H (leaves ! i), proof_aunts = aunts_of H i leaves \<rparr>,
      tree_root H leaves)"
  by (simp add: new_proof_def hash_leaves_collecting_aunts_eq)

section \<open>Correctness of Merkle proofs\<close>

text \<open>A hasher without collisions: hashes are the terms that were hashed.\<close>

datatype term_hash = EmptyHash | LeafHash bytes | InnerHash term_hash term_hash

definition term_hasher :: "term_hash merkle_hasher" where
  "term_hasher = \<lparr> empty_hash = EmptyHash, leaf_hash_fn = LeafHash, inner_hash = InnerHash \<rparr>"

lemma term_hasher_collision_free: "collision_free term_hasher"
  by (simp add: collision_free_def term_hasher_def inj_def)

text \<open>
  (C38) A proof made for any leaf in range verifies against that leaf and the root returned with it;
  the root does not depend on the leaf chosen.
\<close>

theorem merkle_proof_complete:
  assumes "i < length leaves"
  shows "\<exists>p. new_proof H i leaves = Inr (p, tree_root H leaves) \<and>
    verify_proof H p (leaves ! i) (tree_root H leaves) = Inr ()"
  using new_proof_eq [OF assms, of H] subtree_root_complete [OF assms, of H]
  by (simp add: verify_proof_def Let_def)

theorem merkle_proof_complete_witness:
  "\<exists>p. new_proof term_hasher 1 [[1], [2], [3]] = Inr (p, tree_root term_hasher [[1], [2], [3]]) \<and>
    verify_proof term_hasher p ([[1], [2], [3]] ! 1) (tree_root term_hasher [[1], [2], [3]]) = Inr ()"
  by (rule merkle_proof_complete) simp



text \<open>
  Verification does not bound the index by the number of leaves: a proof with index 7 of a tree
  of two leaves is accepted for the last leaf.
\<close>

theorem merkle_proof_index_unchecked:
  "verify_proof term_hasher
     \<lparr> proof_index = 7, proof_total = 2, proof_leaf_hash = LeafHash [2], proof_aunts = [LeafHash [1]] \<rparr>
     [2] (tree_root term_hasher [[1], [2]]) = Inr ()"
  by code_simp

text \<open>
  A proof whose counters fit \<open>i64\<close> and whose hashes have 32 bytes survives the protobuf form.
\<close>

lemma merkle_proof_raw_roundtrip:
  assumes "proof_index p \<le> i64_max" "0 < proof_total p" "proof_total p \<le> i64_max"
    and "length (proof_leaf_hash p) = 32" "\<forall>a \<in> set (proof_aunts p). length a = 32"
  shows "proof_from_raw (proof_to_raw p) = Inr p"
proof -
  have "try_map try_into_hash (proof_aunts p) = Inr (map (\<lambda>x. x) (proof_aunts p))"
    by (rule try_map_ok) (use assms(5) in \<open>simp add: try_into_hash_def\<close>)
  with assms show ?thesis
    by (simp add: proof_from_raw_def proof_to_raw_def as_i64_def try_into_hash_def)
qed

end
