(* ===== verification/Dah.thy ===== *)
theory Dah
  imports Nmt Merkle_Proof
begin

text \<open>
  The data availability header of a block and proofs of its rows, from
  \<^verbatim>\<open>types/src/data_availability_header.rs\<close>. The combined hash is tendermint's
  \<open>simple_hash_from_byte_vectors\<close>, the argument \<open>simple_hash\<close>; the proofs use the hasher \<open>H\<close> of
  \<open>Merkle_Proof\<close>, and what the code relies on is that both compute the same tree.
\<close>

section \<open>The header\<close>

record data_availability_header =
  row_roots :: "namespaced_hash list"
  column_roots :: "namespaced_hash list"

datatype axis_type = Row | Col

definition list_get :: "'a list \<Rightarrow> nat \<Rightarrow> 'a option" where
  "list_get xs i = (if i < length xs then Some (xs ! i) else None)"

definition row_root :: "data_availability_header \<Rightarrow> nat \<Rightarrow> namespaced_hash option" where
  "row_root self row = list_get (row_roots self) row"

definition column_root :: "data_availability_header \<Rightarrow> nat \<Rightarrow> namespaced_hash option" where
  "column_root self column = list_get (column_roots self) column"

fun axis_root :: "data_availability_header \<Rightarrow> axis_type \<Rightarrow> nat \<Rightarrow> namespaced_hash option" where
  "axis_root self Col index = column_root self index" |
  "axis_root self Row index = row_root self index"

definition all_roots :: "data_availability_header \<Rightarrow> bytes list" where
  "all_roots self = map to_array (row_roots self @ column_roots self)"

definition dah_hash :: "(bytes list \<Rightarrow> bytes) \<Rightarrow> data_availability_header \<Rightarrow> hash" where
  "dah_hash simple_hash self = Sha256 (simple_hash (all_roots self))"

definition dah_square_width :: "data_availability_header \<Rightarrow> (nat, types_error) result" where
  "dah_square_width self =
     (if length (row_roots self) \<le> u16_max then Inr (length (row_roots self))
      else Inl (Panic ''len is bigger than u16::MAX''))"

definition dah_validate_basic ::
  "data_availability_header \<Rightarrow> app_version \<Rightarrow> (unit, validation_error) result" where
  "dah_validate_basic self app_version =
     (if length (column_roots self) \<noteq> length (row_roots self) then
        bail_validation ''column_roots len ({}) != row_roots len ({})''
      else if length (row_roots self) < MIN_EXTENDED_SQUARE_WIDTH then
        bail_validation ''row_roots len ({}) < minimum ({})''
      else if max_extended_square_width app_version < length (row_roots self) then
        bail_validation ''row_roots len ({}) > maximum ({})''
      else Inr ())"

definition dah_new ::
  "namespaced_hash list \<Rightarrow> namespaced_hash list \<Rightarrow> app_version
    \<Rightarrow> (data_availability_header, types_error) result" where
  "dah_new rows columns app_version =
     (let dah = \<lparr> row_roots = rows, column_roots = columns \<rparr> in
      try_bind (map_err Validation (dah_validate_basic dah app_version)) (\<lambda>_. Inr dah))"

record raw_dah =
  raw_row_roots :: "bytes list"
  raw_column_roots :: "bytes list"

definition dah_from_raw ::
  "(bytes \<Rightarrow> namespaced_hash option) \<Rightarrow> raw_dah \<Rightarrow> (data_availability_header, types_error) result" where
  "dah_from_raw parse value =
     try_bind (try_map (hash_from_raw parse) (raw_row_roots value)) (\<lambda>rows.
     try_bind (try_map (hash_from_raw parse) (raw_column_roots value)) (\<lambda>columns.
       Inr \<lparr> row_roots = rows, column_roots = columns \<rparr>))"

definition dah_to_raw :: "data_availability_header \<Rightarrow> raw_dah" where
  "dah_to_raw value =
     \<lparr> raw_row_roots = map to_array (row_roots value),
       raw_column_roots = map to_array (column_roots value) \<rparr>"

section \<open>Row proofs\<close>

record row_proof =
  rp_row_roots :: "namespaced_hash list"
  rp_proofs :: "bytes merkle_proof list"
  rp_start_row :: nat
  rp_end_row :: nat

text \<open>The loop over the rows, with the two vectors it fills.\<close>

fun row_proof_loop ::
  "bytes merkle_hasher \<Rightarrow> data_availability_header \<Rightarrow> nat list
    \<Rightarrow> bytes merkle_proof list \<Rightarrow> namespaced_hash list
    \<Rightarrow> (bytes merkle_proof list \<times> namespaced_hash list, types_error) result" where
  "row_proof_loop H self [] proofs roots = Inr (proofs, roots)" |
  "row_proof_loop H self (idx # rows) proofs roots =
     try_bind (new_proof H idx (all_roots self)) (\<lambda>(pf, _).
     try_bind (ok_or (IndexOutOfRange idx (length (row_roots self))) (row_root self idx)) (\<lambda>row.
       row_proof_loop H self rows (proofs @ [pf]) (roots @ [row])))"

definition dah_row_proof ::
  "bytes merkle_hasher \<Rightarrow> data_availability_header \<Rightarrow> nat \<times> nat \<Rightarrow> (row_proof, types_error) result" where
  "dah_row_proof H self rows =
     try_bind (row_proof_loop H self [fst rows..<snd rows + 1] [] []) (\<lambda>(proofs, roots).
       Inr \<lparr> rp_row_roots = roots, rp_proofs = proofs,
             rp_start_row = fst rows, rp_end_row = snd rows \<rparr>)"

fun verify_rows ::
  "bytes merkle_hasher \<Rightarrow> bytes \<Rightarrow> (namespaced_hash \<times> bytes merkle_proof) list
    \<Rightarrow> (unit, types_error) result" where
  "verify_rows H root [] = Inr ()" |
  "verify_rows H root ((row, pf) # rest) =
     try_bind (verify_proof H pf (to_array row) root) (\<lambda>_. verify_rows H root rest)"

definition row_proof_verify ::
  "bytes merkle_hasher \<Rightarrow> row_proof \<Rightarrow> hash \<Rightarrow> (unit, types_error) result" where
  "row_proof_verify H self root =
     (if length (rp_row_roots self) \<noteq> length (rp_proofs self) then
        bail_verification ''invalid row proof: row_roots.len() != proofs.len()''
      else if rp_end_row self < rp_start_row self then
        bail_verification ''start_row ({}) > end_row ({})''
      else if (rp_end_row self - rp_start_row self + 1) mod 2 ^ 16 \<noteq> length (rp_proofs self) then
        bail_verification ''length based on start_row and end_row ({}) != length of proofs ({})''
      else (case root of
        NoHash \<Rightarrow> bail_verification ''empty hash''
      | Sha256 r \<Rightarrow> verify_rows H r (zip (rp_row_roots self) (rp_proofs self))))"

section \<open>Facts\<close>

lemma dah_validate_basic_iff:
  "dah_validate_basic d v = Inr () \<longleftrightarrow>
     length (column_roots d) = length (row_roots d) \<and> 2 \<le> length (row_roots d) \<and> length (row_roots d) \<le> 256"
  by (auto simp: dah_validate_basic_def MIN_EXTENDED_SQUARE_WIDTH_def)

text \<open>What the loop returns on rows in range: a proof and the root of each row.\<close>

definition proof_of_row :: "bytes merkle_hasher \<Rightarrow> data_availability_header \<Rightarrow> nat \<Rightarrow> bytes merkle_proof" where
  "proof_of_row H d i =
     \<lparr> proof_index = i, proof_total = length (all_roots d),
       proof_leaf_hash = leaf_hash_fn H (all_roots d ! i), proof_aunts = aunts_of H i (all_roots d) \<rparr>"

lemma row_proof_loop_ok:
  "\<forall>i \<in> set rows. i < length (row_roots d) \<Longrightarrow>
   row_proof_loop H d rows ps rs = Inr (ps @ map (proof_of_row H d) rows, rs @ map ((!) (row_roots d)) rows)"
  by (induction rows arbitrary: ps rs)
    (auto simp: new_proof_eq all_roots_def row_root_def list_get_def proof_of_row_def)

lemma row_proof_loop_error:
  "\<exists>i \<in> set rows. \<not> i < length (row_roots d) \<Longrightarrow> \<exists>i n. row_proof_loop H d rows ps rs = Inl (IndexOutOfRange i n)"
proof (induction rows arbitrary: ps rs)
  case (Cons i rows)
  show ?case
  proof (cases "i < length (row_roots d)")
    case True
    with Cons show ?thesis
      by (auto simp: new_proof_eq all_roots_def row_root_def list_get_def)
  next
    case False
    show ?thesis
    proof (cases "i < length (all_roots d)")
      case True
      with False show ?thesis by (simp add: new_proof_eq row_root_def list_get_def)
    qed (simp add: new_proof_def)
  qed
qed simp

lemma verify_rows_ok:
  "\<forall>(r, p) \<in> set rps. verify_proof H p (to_array r) root = Inr () \<Longrightarrow> verify_rows H root rps = Inr ()"
  by (induction rps rule: verify_rows.induct) auto

lemma verify_proof_of_row:
  assumes "i < length (row_roots d)"
  shows "verify_proof H (proof_of_row H d i) (to_array (row_roots d ! i)) (tree_root H (all_roots d)) = Inr ()"
proof -
  have i: "i < length (all_roots d)" "all_roots d ! i = to_array (row_roots d ! i)"
    using assms by (simp_all add: all_roots_def nth_append)
  from subtree_root_complete [OF i(1), of H] i(2) show ?thesis
    by (simp add: verify_proof_def proof_of_row_def Let_def)
qed

section \<open>Correctness of the data availability header\<close>

text \<open>
  A proof for a non-empty range of rows that exist verifies against the hash of the header it
  was made from, provided tendermint's hash of a list of byte vectors is the root of the same tree.
\<close>

lemma row_proof_verifies:
  assumes "\<And>leaves. simple_hash leaves = tree_root H leaves"
    and "fst rows \<le> snd rows" "snd rows < length (row_roots d)" "length (row_roots d) \<le> u16_max"
  shows "\<exists>p. dah_row_proof H d rows = Inr p \<and> row_proof_verify H p (dah_hash simple_hash d) = Inr ()"
proof -
  let ?is = "[fst rows..<snd rows + 1]"
  have r: "row_proof_loop H d ?is [] [] = Inr (map (proof_of_row H d) ?is, map ((!) (row_roots d)) ?is)"
    using row_proof_loop_ok [of ?is d H "[]" "[]"] assms(3) by auto
  have "verify_rows H (tree_root H (all_roots d))
      (zip (map ((!) (row_roots d)) ?is) (map (proof_of_row H d) ?is)) = Inr ()"
    by (rule verify_rows_ok) (use verify_proof_of_row assms(3) in \<open>auto simp: in_set_zip\<close>)
  moreover have "(snd rows - fst rows + 1) mod 2 ^ 16 = snd rows - fst rows + 1"
    using assms(3,4) by (simp add: u16_max_def)
  ultimately show ?thesis
    using assms(1,2) r by (simp add: dah_row_proof_def row_proof_verify_def dah_hash_def del: upt_Suc)
qed

text \<open>
  Asking for the proof of a range of rows fails, with an index out of range, exactly when the
  range has a row the header does not have.
\<close>

lemma row_proof_error_iff:
  "(\<exists>e. dah_row_proof H d rows = Inl e) \<longleftrightarrow>
     fst rows \<le> snd rows \<and> length (row_roots d) \<le> snd rows"
proof (cases "\<forall>i \<in> set [fst rows..<snd rows + 1]. i < length (row_roots d)")
  case True
  then show ?thesis
    using row_proof_loop_ok [OF True, of H "[]" "[]"]
    by (auto simp: dah_row_proof_def not_le simp del: upt_Suc)
next
  case False
  then have "fst rows \<le> snd rows \<and> length (row_roots d) \<le> snd rows" by auto
  with False show ?thesis
    using row_proof_loop_error [of "[fst rows..<snd rows + 1]" d H "[]" "[]"]
    by (auto simp: dah_row_proof_def simp del: upt_Suc)
qed

text \<open>
  A header built by \<open>new\<close> has as many columns as rows, between 2 and 256 of them, so its width
  fits \<open>u16\<close>, and every index below the width has a row root and a column root.
\<close>

lemma dah_new_width:
  assumes "dah_new rows columns v = Inr d"
  shows "\<exists>w. dah_square_width d = Inr w \<and> 2 \<le> w \<and> w \<le> 256 \<and>
    (\<forall>axis i. axis_root d axis i \<noteq> None \<longleftrightarrow> i < w)"
proof -
  have d: "d = \<lparr> row_roots = rows, column_roots = columns \<rparr>" "dah_validate_basic d v = Inr ()"
    using assms by (auto simp: dah_new_def Let_def res_simps)
  have "axis_root d axis i \<noteq> None \<longleftrightarrow> i < length rows" for axis i
    using d by (cases axis)
      (auto simp: dah_validate_basic_iff row_root_def column_root_def list_get_def)
  then show ?thesis
    using d by (auto simp: dah_validate_basic_iff dah_square_width_def u16_max_def)
qed

end
