(* ===== verification/Block.thy ===== *)
theory Block
  imports Dah
begin

text \<open>
  Block headers and commits, from \<^verbatim>\<open>types/src/block.rs\<close>. The data types are those of tendermint:
  of a header the fields the code reads, the others as one opaque field; a height is at most
  \<open>i64::MAX\<close>; a time is a point of a line. The functions of tendermint the code calls are collected in
  a record \<open>tm_env\<close>: hashes of headers and validator sets, the canonical bytes of a vote, the check
  of a signature, and the reading and arithmetic of the clock.
\<close>

section \<open>Data\<close>

type_synonym time = int

record block_id =
  bid_hash :: hash
  psh_total :: nat
  psh_hash :: hash

record header =
  version_block :: nat
  version_app :: nat
  hdr_chain_id :: string
  hdr_height :: nat
  hdr_time :: time
  last_block_id :: "block_id option"
  data_hash :: "hash option"
  validators_hash :: hash
  next_validators_hash :: hash
  hdr_rest :: bytes

datatype commit_sig =
    BlockIdFlagAbsent
  | BlockIdFlagCommit bytes time "bytes option"
  | BlockIdFlagNil bytes time "bytes option"

record commit =
  commit_height :: nat
  commit_round :: nat
  commit_block_id :: block_id
  signatures :: "commit_sig list"

text \<open>The vote that the signature at an index of a commit signs.\<close>

record vote =
  vote_height :: nat
  vote_round :: nat
  vote_block_id :: block_id
  vote_timestamp :: time
  vote_validator_address :: bytes
  vote_validator_index :: nat
  vote_signature :: "bytes option"

record validator_info =
  val_address :: bytes
  val_pub_key :: bytes
  val_power :: nat

record validator_set =
  validators :: "validator_info list"
  vs_proposer :: "validator_info option"
  total_voting_power :: nat

record tm_env =
  env_header_hash :: "header \<Rightarrow> hash"
  env_valset_hash :: "validator_set \<Rightarrow> hash"
  env_simple_hash :: "bytes list \<Rightarrow> bytes"
  env_signable_vec :: "vote \<Rightarrow> string \<Rightarrow> bytes"
  env_verify_signature :: "validator_info \<Rightarrow> bytes \<Rightarrow> bytes \<Rightarrow> bool"
  env_now :: time
  env_time_checked_add :: "time \<Rightarrow> nat \<Rightarrow> time option"

definition GENESIS_HEIGHT :: nat where
  "GENESIS_HEIGHT = 1"

definition SIGNATURE_LENGTH :: nat where
  "SIGNATURE_LENGTH = 64"

definition BLOCK_PROTOCOL :: nat where
  "BLOCK_PROTOCOL = 11"

definition MAX_CHAIN_ID_LEN :: nat where
  "MAX_CHAIN_ID_LEN = 50"

section \<open>Validation\<close>

definition header_validate_basic :: "header \<Rightarrow> (unit, validation_error) result" where
  "header_validate_basic self =
     (if version_block self \<noteq> BLOCK_PROTOCOL then
        bail_validation ''version block ({}) != block protocol ({})''
      else if MAX_CHAIN_ID_LEN < length (hdr_chain_id self) then
        bail_validation ''chain id ({}) len > maximum ({})''
      else if hdr_height self = 0 then
        bail_validation ''height == 0''
      else if hdr_height self = GENESIS_HEIGHT \<and> last_block_id self \<noteq> None then
        bail_validation ''last_block_id == Some() at height {GENESIS_HEIGHT}''
      else if hdr_height self \<noteq> GENESIS_HEIGHT \<and> last_block_id self = None then
        bail_validation ''last_block_id == None at height {}''
      else Inr ())"

definition is_zero :: "block_id \<Rightarrow> bool" where
  "is_zero i \<longleftrightarrow> bid_hash i = NoHash \<and> psh_hash i = NoHash \<and> psh_total i = 0"

definition signature_validate :: "bytes option \<Rightarrow> (unit, validation_error) result" where
  "signature_validate signature =
     (case signature of
        Some sig \<Rightarrow>
          if sig = [] then bail_validation ''no signature in commit sig''
          else if length sig \<noteq> SIGNATURE_LENGTH then
            bail_validation ''signature ({:?}) length != required ({})''
          else Inr ()
      | None \<Rightarrow> bail_validation ''no signature in commit sig'')"

fun commit_sig_validate_basic :: "commit_sig \<Rightarrow> (unit, validation_error) result" where
  "commit_sig_validate_basic BlockIdFlagAbsent = Inr ()" |
  "commit_sig_validate_basic (BlockIdFlagCommit _ _ signature) = signature_validate signature" |
  "commit_sig_validate_basic (BlockIdFlagNil _ _ signature) = signature_validate signature"

fun commit_sigs_validate :: "commit_sig list \<Rightarrow> (unit, validation_error) result" where
  "commit_sigs_validate [] = Inr ()" |
  "commit_sigs_validate (s # ss) =
     try_bind (commit_sig_validate_basic s) (\<lambda>_. commit_sigs_validate ss)"

definition commit_validate_basic :: "commit \<Rightarrow> (unit, validation_error) result" where
  "commit_validate_basic self =
     (if GENESIS_HEIGHT \<le> commit_height self then
        if is_zero (commit_block_id self) then bail_validation ''block_id is zero''
        else if signatures self = [] then bail_validation ''no signatures in commit''
        else commit_sigs_validate (signatures self)
      else Inr ())"

text \<open>\<open>signature_idx.try_into()?\<close> narrows the index to the \<open>i32\<close> range of a validator index.\<close>

definition i32_max :: nat where
  "i32_max = 2 ^ 31 - 1"

definition vote_of ::
  "commit \<Rightarrow> nat \<Rightarrow> bytes \<Rightarrow> time \<Rightarrow> bytes option \<Rightarrow> (vote, types_error) result" where
  "vote_of self signature_idx validator_address timestamp signature =
     (if signature_idx \<le> i32_max then
        Inr \<lparr> vote_height = commit_height self, vote_round = commit_round self,
              vote_block_id = commit_block_id self, vote_timestamp = timestamp,
              vote_validator_address = validator_address, vote_validator_index = signature_idx,
              vote_signature = signature \<rparr>
      else Inl Tendermint)"

definition vote_sign_bytes ::
  "tm_env \<Rightarrow> commit \<Rightarrow> string \<Rightarrow> nat \<Rightarrow> (bytes, types_error) result" where
  "vote_sign_bytes env self chain_id signature_idx =
     try_bind (ok_or (InvalidSignatureIndex signature_idx (commit_height self))
                (list_get (signatures self) signature_idx)) (\<lambda>sig.
     try_bind (case sig of
          BlockIdFlagCommit validator_address timestamp signature \<Rightarrow>
            vote_of self signature_idx validator_address timestamp signature
        | BlockIdFlagNil validator_address timestamp signature \<Rightarrow>
            vote_of self signature_idx validator_address timestamp signature
        | BlockIdFlagAbsent \<Rightarrow> Inl UnexpectedAbsentSignature) (\<lambda>vote.
     Inr (env_signable_vec env vote chain_id)))"

section \<open>Facts\<close>

lemma header_validate_basic_iff:
  "header_validate_basic h = Inr () \<longleftrightarrow>
     version_block h = 11 \<and> length (hdr_chain_id h) \<le> 50 \<and> 0 < hdr_height h \<and>
     (last_block_id h = None \<longleftrightarrow> hdr_height h = 1)"
  by (auto simp: header_validate_basic_def BLOCK_PROTOCOL_def MAX_CHAIN_ID_LEN_def GENESIS_HEIGHT_def)

text \<open>A signature that is present and has the right length.\<close>

definition signature_ok :: "bytes option \<Rightarrow> bool" where
  "signature_ok s \<longleftrightarrow> (\<exists>b. s = Some b \<and> length b = SIGNATURE_LENGTH)"

lemma signature_validate_iff: "signature_validate s = Inr () \<longleftrightarrow> signature_ok s"
  by (auto simp: signature_validate_def signature_ok_def SIGNATURE_LENGTH_def split: option.splits)

fun commit_sig_ok :: "commit_sig \<Rightarrow> bool" where
  "commit_sig_ok BlockIdFlagAbsent = True" |
  "commit_sig_ok (BlockIdFlagCommit _ _ s) = signature_ok s" |
  "commit_sig_ok (BlockIdFlagNil _ _ s) = signature_ok s"

lemma commit_sig_validate_iff: "commit_sig_validate_basic s = Inr () \<longleftrightarrow> commit_sig_ok s"
  by (cases s) (simp_all add: signature_validate_iff)

lemma commit_sigs_validate_iff: "commit_sigs_validate ss = Inr () \<longleftrightarrow> (\<forall>s \<in> set ss. commit_sig_ok s)"
  by (induction ss) (auto simp: try_bind_Inr_iff commit_sig_validate_iff)

lemma commit_validate_basic_iff:
  "commit_validate_basic c = Inr () \<longleftrightarrow>
     (0 < commit_height c \<longrightarrow> \<not> is_zero (commit_block_id c) \<and> signatures c \<noteq> [] \<and>
       (\<forall>s \<in> set (signatures c). commit_sig_ok s))"
  by (auto simp: commit_validate_basic_def GENESIS_HEIGHT_def commit_sigs_validate_iff)

end
