(* ===== verification/Validator_Set.thy ===== *)
theory Validator_Set
  imports Block
begin

text \<open>
  Voting power and the verification of commits, from \<^verbatim>\<open>types/src/trust_level.rs\<close> and
  \<^verbatim>\<open>types/src/validator_set.rs\<close>. A loop of the source is a recursion over the remaining
  signatures that carries its mutable variables. The theorems say what an accepted commit means in
  terms of voting power: more than two thirds (\<open>verify_commit_light\<close>), or more than the trust level
  (\<open>verify_commit_light_trusting\<close>), of the power of the set has signed the vote.
\<close>

section \<open>Trust levels\<close>

record trust_level_ratio =
  numerator :: nat
  denominator :: nat

definition trust_level_new :: "nat \<Rightarrow> nat \<Rightarrow> trust_level_ratio" where
  "trust_level_new n d = \<lparr> numerator = n, denominator = d \<rparr>"

definition DEFAULT_TRUST_LEVEL :: trust_level_ratio where
  "DEFAULT_TRUST_LEVEL = trust_level_new 1 3"

definition voting_power_needed :: "trust_level_ratio \<Rightarrow> nat \<Rightarrow> (nat, verification_error) result" where
  "voting_power_needed self total_power =
     try_bind (ok_or (VerificationOther ''u64 overflow while calculating voting power needed'')
                (checked_mul (numerator self) total_power)) (\<lambda>m.
     ok_or (VerificationOther ''division error while calculating voting power needed'')
                (checked_div m (denominator self)))"

section \<open>Validator sets\<close>

definition valset_validate_basic :: "validator_set \<Rightarrow> (unit, validation_error) result" where
  "valset_validate_basic self =
     (if validators self = [] then bail_validation ''validatiors is empty''
      else if vs_proposer self = None then bail_validation ''proposer is none''
      else Inr ())"

definition verify_signature ::
  "tm_env \<Rightarrow> validator_info \<Rightarrow> bytes \<Rightarrow> bytes \<Rightarrow> (unit, types_error) result" where
  "verify_signature env validator sign_bytes signature =
     (if env_verify_signature env validator sign_bytes signature then Inr () else Inl Tendermint)"

fun verify_commit_light_loop ::
  "tm_env \<Rightarrow> string \<Rightarrow> commit \<Rightarrow> nat \<Rightarrow> nat \<Rightarrow> nat \<Rightarrow> (validator_info \<times> commit_sig) list
    \<Rightarrow> (unit, types_error) result" where
  "verify_commit_light_loop env chain_id commit needed tallied idx [] =
     Inl (Verification (NotEnoughVotingPower tallied needed))" |
  "verify_commit_light_loop env chain_id commit needed tallied idx ((validator, commit_sig) # rest) =
     (case commit_sig of
        BlockIdFlagCommit _ _ (Some signature) \<Rightarrow>
          try_bind (vote_sign_bytes env commit chain_id idx) (\<lambda>vote_sign.
          try_bind (verify_signature env validator vote_sign signature) (\<lambda>_.
          let tallied' = wrapping_add tallied (val_power validator) in
          if needed < tallied' then Inr ()
          else verify_commit_light_loop env chain_id commit needed tallied' (idx + 1) rest))
      | BlockIdFlagCommit _ _ None \<Rightarrow> bail_verification ''No signature in CommitSig''
      | _ \<Rightarrow> verify_commit_light_loop env chain_id commit needed tallied (idx + 1) rest)"

definition verify_commit_light ::
  "tm_env \<Rightarrow> validator_set \<Rightarrow> string \<Rightarrow> nat \<Rightarrow> commit \<Rightarrow> (unit, types_error) result" where
  "verify_commit_light env self chain_id height commit =
     (if length (validators self) \<noteq> length (signatures commit) then
        bail_verification ''validators signature len ({}) != commit signatures len ({})''
      else if height \<noteq> commit_height commit then
        bail_verification ''height ({}) != commit height ({})''
      else
        try_bind (map_err Verification (voting_power_needed (trust_level_new 2 3) (total_voting_power self)))
          (\<lambda>needed. verify_commit_light_loop env chain_id commit needed 0 0
                       (zip (validators self) (signatures commit))))"

fun find_validator_loop :: "nat \<Rightarrow> bytes \<Rightarrow> validator_info list \<Rightarrow> (nat \<times> validator_info) option" where
  "find_validator_loop i val_id [] = None" |
  "find_validator_loop i val_id (v # vs) =
     (if val_address v = val_id then Some (i, v) else find_validator_loop (i + 1) val_id vs)"

definition find_validator :: "validator_set \<Rightarrow> bytes \<Rightarrow> (nat \<times> validator_info) option" where
  "find_validator vals val_id = find_validator_loop 0 val_id (validators vals)"

fun verify_commit_light_trusting_loop ::
  "tm_env \<Rightarrow> validator_set \<Rightarrow> string \<Rightarrow> commit \<Rightarrow> nat \<Rightarrow> (nat \<rightharpoonup> nat) \<Rightarrow> nat \<Rightarrow> nat \<Rightarrow> commit_sig list
    \<Rightarrow> (unit, types_error) result" where
  "verify_commit_light_trusting_loop env self chain_id commit needed seen_vals tallied idx [] =
     Inl (Verification (NotEnoughVotingPower tallied needed))" |
  "verify_commit_light_trusting_loop env self chain_id commit needed seen_vals tallied idx (commit_sig # rest) =
     (case commit_sig of
        BlockIdFlagCommit val_id _ (Some signature) \<Rightarrow>
          (case find_validator self val_id of
             None \<Rightarrow> verify_commit_light_trusting_loop env self chain_id commit needed seen_vals tallied (idx + 1) rest
           | Some (val_idx, validator) \<Rightarrow>
               if seen_vals val_idx \<noteq> None then bail_verification ''Double vote from {val_id} ({prev_idx} and {idx}''
               else
                 try_bind (vote_sign_bytes env commit chain_id idx) (\<lambda>vote_sign.
                 try_bind (verify_signature env validator vote_sign signature) (\<lambda>_.
                 let tallied' = wrapping_add tallied (val_power validator) in
                 if needed < tallied' then Inr ()
                 else verify_commit_light_trusting_loop env self chain_id commit needed
                        (seen_vals(val_idx \<mapsto> idx)) tallied' (idx + 1) rest)))
      | BlockIdFlagCommit _ _ None \<Rightarrow> bail_verification ''No signature in CommitSig''
      | _ \<Rightarrow> verify_commit_light_trusting_loop env self chain_id commit needed seen_vals tallied (idx + 1) rest)"

definition verify_commit_light_trusting ::
  "tm_env \<Rightarrow> validator_set \<Rightarrow> string \<Rightarrow> commit \<Rightarrow> trust_level_ratio \<Rightarrow> (unit, types_error) result" where
  "verify_commit_light_trusting env self chain_id commit trust_level =
     try_bind (map_err Verification (voting_power_needed trust_level (total_voting_power self))) (\<lambda>needed.
       verify_commit_light_trusting_loop env self chain_id commit needed Map.empty 0 0 (signatures commit))"

section \<open>Voting power\<close>

text \<open>
  What tendermint guarantees of a validator set: the total is the sum of the powers, and it is at most
  \<open>i64::MAX\<close>.
\<close>

definition valset_powers :: "validator_set \<Rightarrow> bool" where
  "valset_powers vs \<longleftrightarrow>
     total_voting_power vs = sum_list (map val_power (validators vs)) \<and> total_voting_power vs \<le> i64_max"

definition power_of :: "validator_set \<Rightarrow> nat set \<Rightarrow> nat" where
  "power_of vs S = (\<Sum>i \<in> S. val_power (validators vs ! i))"

lemma power_of_le_total:
  assumes "valset_powers vs" "S \<subseteq> {..<length (validators vs)}"
  shows "power_of vs S \<le> total_voting_power vs"
proof -
  have "power_of vs S \<le> (\<Sum>i < length (validators vs). val_power (validators vs ! i))"
    unfolding power_of_def using assms(2) by (intro sum_mono2) auto
  also have "\<dots> = total_voting_power vs"
    using assms(1) by (simp add: valset_powers_def sum_list_sum_nth atLeast0LessThan)
  finally show ?thesis .
qed

lemma voting_power_needed_eq:
  assumes "voting_power_needed t p = Inr n"
  shows "n = numerator t * p div denominator t" "0 < denominator t"
  using assms by (auto simp: voting_power_needed_def checked_mul_def checked_div_def res_simps split: if_splits)

text \<open>The signatures that count: those that sign the vote at their index for a validator.\<close>

definition signed_by :: "tm_env \<Rightarrow> string \<Rightarrow> commit \<Rightarrow> nat \<Rightarrow> validator_info \<Rightarrow> bool" where
  "signed_by env chain_id c idx v \<longleftrightarrow>
     (\<exists>a t s b. idx < length (signatures c) \<and> signatures c ! idx = BlockIdFlagCommit a t (Some s) \<and>
        vote_sign_bytes env c chain_id idx = Inr b \<and> env_verify_signature env v b s)"


definition signers :: "tm_env \<Rightarrow> string \<Rightarrow> commit \<Rightarrow> validator_set \<Rightarrow> nat set" where
  "signers env chain_id c vs =
     {i. i < length (validators vs) \<and> signed_by env chain_id c i (validators vs ! i)}"

lemma power_of_insert: "finite S \<Longrightarrow> i \<notin> S \<Longrightarrow> power_of vs (insert i S) = val_power (validators vs ! i) + power_of vs S"
  by (simp add: power_of_def)

lemma tally_no_wrap:
  assumes "valset_powers vs" "finite S" "i \<notin> S" "insert i S \<subseteq> {..<length (validators vs)}"
  shows "wrapping_add (power_of vs S) (val_power (validators vs ! i)) = power_of vs (insert i S)"
proof -
  have "power_of vs (insert i S) \<le> i64_max"
    using power_of_le_total [OF assms(1,4)] assms(1) by (simp add: valset_powers_def)
  then show ?thesis
    using assms(2,3) by (simp add: power_of_insert wrapping_add_def wrap64_def i64_max_def add.commute)
qed

lemma light_loop_sound:
  assumes "valset_powers vs" "length (validators vs) = length (signatures c)"
    and "verify_commit_light_loop env chain_id c needed (power_of vs S) idx rest = Inr ()"
    and "rest = drop idx (zip (validators vs) (signatures c))"
    and "S \<subseteq> signers env chain_id c vs" "S \<subseteq> {..<idx}"
  shows "\<exists>S \<subseteq> signers env chain_id c vs. needed < power_of vs S"
  using assms(3-6)
proof (induction rest arbitrary: idx S)
  case Nil
  then show ?case by simp
next
  case (Cons r rest)
  have idx: "idx < length (validators vs)"
    using Cons.prems(2) by (metis assms(2) drop_eq_Nil2 length_zip linorder_not_less list.distinct(1) min.idem)
  have r: "r = (validators vs ! idx, signatures c ! idx)"
    and rest: "rest = drop (idx + 1) (zip (validators vs) (signatures c))"
    using Cons.prems(2) idx assms(2) by (auto simp: Cons_nth_drop_Suc [symmetric])
  have fin: "finite S" "idx \<notin> S" using Cons.prems(4) finite_subset by auto
  have S': "S \<subseteq> {..<idx + 1}" "insert idx S \<subseteq> {..<idx + 1}" using Cons.prems(4) by auto
  have sub: "insert idx S \<subseteq> {..<length (validators vs)}" using Cons.prems(4) idx by auto
  show ?case
  proof (cases "\<exists>a t s. signatures c ! idx = BlockIdFlagCommit a t s")
    case False
    then have "verify_commit_light_loop env chain_id c needed (power_of vs S) (idx + 1) rest = Inr ()"
      using Cons.prems(1) r by (cases "signatures c ! idx") auto
    then show ?thesis using Cons.IH rest Cons.prems(3) S'(1) by blast
  next
    case True
    then obtain a t s where sig: "signatures c ! idx = BlockIdFlagCommit a t (Some s)"
      using Cons.prems(1) r by (auto split: option.splits)
    with Cons.prems(1) r obtain b where b: "vote_sign_bytes env c chain_id idx = Inr b"
      "env_verify_signature env (validators vs ! idx) b s"
      by (auto simp: res_simps verify_signature_def split: if_splits)
    then have "idx \<in> signers env chain_id c vs"
      using sig idx assms(2) by (auto simp: signers_def signed_by_def)
    then have sg: "insert idx S \<subseteq> signers env chain_id c vs" using Cons.prems(3) by blast
    have "needed < power_of vs (insert idx S) \<or>
        verify_commit_light_loop env chain_id c needed (power_of vs (insert idx S)) (idx + 1) rest = Inr ()"
      using Cons.prems(1) r sig b tally_no_wrap [OF assms(1) fin sub]
      by (auto simp: verify_signature_def Let_def split: if_splits)
    then show ?thesis using sg Cons.IH [OF _ rest sg S'(2)] by blast
  qed
qed

lemma light_loop_complete:
  assumes "valset_powers vs" "length (validators vs) = length (signatures c)"
    and "\<forall>i < length (signatures c). \<forall>a t s. signatures c ! i = BlockIdFlagCommit a t s \<longrightarrow>
      signed_by env chain_id c i (validators vs ! i)"
    and "rest = drop idx (zip (validators vs) (signatures c))"
    and "S = signers env chain_id c vs \<inter> {..<idx}"
    and "needed < power_of vs (signers env chain_id c vs)" "\<not> needed < power_of vs S"
  shows "verify_commit_light_loop env chain_id c needed (power_of vs S) idx rest = Inr ()"
  using assms(4-7)
proof (induction rest arbitrary: idx S)
  case Nil
  then have "length (validators vs) \<le> idx" using assms(2) by simp
  then have "S = signers env chain_id c vs" using Nil.prems(2) by (auto simp: signers_def)
  then show ?case using Nil.prems by simp
next
  case (Cons r rest)
  have idx: "idx < length (validators vs)"
    using Cons.prems(1) by (metis assms(2) drop_eq_Nil2 length_zip linorder_not_less list.distinct(1) min.idem)
  have r: "r = (validators vs ! idx, signatures c ! idx)"
    and rest: "rest = drop (idx + 1) (zip (validators vs) (signatures c))"
    using Cons.prems(1) idx assms(2) by (auto simp: Cons_nth_drop_Suc [symmetric])
  have fin: "finite S" "idx \<notin> S" using Cons.prems(2) by auto
  have sub: "insert idx S \<subseteq> {..<length (validators vs)}" using Cons.prems(2) idx by auto
  show ?case
  proof (cases "idx \<in> signers env chain_id c vs")
    case False
    then have "\<nexists>a t s. signatures c ! idx = BlockIdFlagCommit a t s"
      using assms(2,3) idx by (auto simp: signers_def)
    moreover have "S = signers env chain_id c vs \<inter> {..<idx + 1}"
      using Cons.prems(2) False by (auto simp: less_Suc_eq)
    ultimately show ?thesis
      using Cons.IH [OF rest] Cons.prems(3,4) r by (cases "signatures c ! idx") auto
  next
    case True
    have S': "insert idx S = signers env chain_id c vs \<inter> {..<idx + 1}"
      using Cons.prems(2) True by (auto simp: less_Suc_eq)
    from True obtain a t s b where sig: "signatures c ! idx = BlockIdFlagCommit a t (Some s)"
      "vote_sign_bytes env c chain_id idx = Inr b" "env_verify_signature env (validators vs ! idx) b s"
      by (auto simp: signers_def signed_by_def)
    then show ?thesis
      using Cons.IH [OF rest S' Cons.prems(3)] r tally_no_wrap [OF assms(1) fin sub]
      by (auto simp: verify_signature_def Let_def)
  qed
qed

lemma two_thirds_iff: "2 * (t :: nat) div 3 < p \<longleftrightarrow> 2 * t < 3 * p"
  by linarith

lemma voting_power_needed_ok:
  assumes "p \<le> i64_max"
  shows "voting_power_needed (trust_level_new 2 3) p = Inr (2 * p div 3)"
    "voting_power_needed DEFAULT_TRUST_LEVEL p = Inr (p div 3)"
  using assms
  by (simp_all add: voting_power_needed_def trust_level_new_def DEFAULT_TRUST_LEVEL_def checked_mul_def
      checked_div_def i64_max_def u64_max_def)


text \<open>The validators, by index, for whom some signature of the commit carries their address and verifies.\<close>

definition trusted_signers :: "tm_env \<Rightarrow> string \<Rightarrow> commit \<Rightarrow> validator_set \<Rightarrow> nat set" where
  "trusted_signers env chain_id c vs =
     {i. i < length (validators vs) \<and> (\<exists>idx a t s. idx < length (signatures c) \<and>
        signatures c ! idx = BlockIdFlagCommit a t (Some s) \<and> a = val_address (validators vs ! i) \<and>
        signed_by env chain_id c idx (validators vs ! i))}"

lemma find_validator_loop_Some:
  "find_validator_loop k a xs = Some (i, v) \<Longrightarrow>
     k \<le> i \<and> i < k + length xs \<and> v = xs ! (i - k) \<and> val_address v = a"
  by (induction k a xs rule: find_validator_loop.induct) (auto split: if_splits simp: nth_Cons')

lemma find_validator_Some:
  "find_validator vs a = Some (i, v) \<Longrightarrow>
     i < length (validators vs) \<and> v = validators vs ! i \<and> val_address v = a"
  using find_validator_loop_Some [of 0 a "validators vs" i v] by (auto simp: find_validator_def)

lemma trusting_loop_sound:
  assumes "valset_powers vs"
    and "verify_commit_light_trusting_loop env vs chain_id c needed seen (power_of vs (dom seen)) idx rest = Inr ()"
    and "rest = drop idx (signatures c)" "dom seen \<subseteq> trusted_signers env chain_id c vs"
  shows "\<exists>S \<subseteq> trusted_signers env chain_id c vs. needed < power_of vs S"
  using assms(2-4)
proof (induction rest arbitrary: idx seen)
  case Nil
  then show ?case by simp
next
  case (Cons sg rest)
  have idx: "idx < length (signatures c)"
    using Cons.prems(2) by (metis drop_eq_Nil2 linorder_not_less list.distinct(1))
  have sg: "sg = signatures c ! idx" and rest: "rest = drop (idx + 1) (signatures c)"
    using Cons.prems(2) idx by (auto simp: Cons_nth_drop_Suc [symmetric])
  have sub: "dom seen \<subseteq> {..<length (validators vs)}"
    using Cons.prems(3) by (auto simp: trusted_signers_def)
  show ?case
  proof (cases "\<exists>a t s i v. sg = BlockIdFlagCommit a t (Some s) \<and> find_validator vs a = Some (i, v)")
    case False
    then have "verify_commit_light_trusting_loop env vs chain_id c needed seen (power_of vs (dom seen)) (idx + 1) rest = Inr ()"
      using Cons.prems(1) by (cases sg) (auto split: option.splits)
    then show ?thesis using Cons.IH rest Cons.prems(3) by blast
  next
    case True
    then obtain a t s i v where sig: "sg = BlockIdFlagCommit a t (Some s)" "find_validator vs a = Some (i, v)"
      by blast
    note v = find_validator_Some [OF sig(2)]
    from sig Cons.prems(1) obtain b where new: "i \<notin> dom seen"
      and b: "vote_sign_bytes env c chain_id idx = Inr b" "env_verify_signature env v b s"
      by (auto simp: res_simps verify_signature_def split: if_splits)
    have "i \<in> trusted_signers env chain_id c vs"
      using v b sig(1) sg idx by (auto simp: trusted_signers_def signed_by_def)
    then have dom: "dom (seen(i \<mapsto> idx)) \<subseteq> trusted_signers env chain_id c vs"
      using Cons.prems(3) by auto
    have "insert i (dom seen) \<subseteq> {..<length (validators vs)}" using sub v by auto
    note tally = tally_no_wrap [OF assms(1) finite_subset [OF sub] new this]
    have "needed < power_of vs (dom (seen(i \<mapsto> idx))) \<or>
        verify_commit_light_trusting_loop env vs chain_id c needed (seen(i \<mapsto> idx))
          (power_of vs (dom (seen(i \<mapsto> idx)))) (idx + 1) rest = Inr ()"
      using Cons.prems(1) sig b v new tally
      by (auto simp: verify_signature_def Let_def domIff split: if_splits)
    then show ?thesis using dom Cons.IH [OF _ rest dom] by blast
  qed
qed

lemma signers_bounded:
  "finite (signers env chain_id c vs)" "signers env chain_id c vs \<subseteq> {..<length (validators vs)}"
  by (auto simp: signers_def)

lemma light_loop_quorum:
  assumes "valset_powers vs" "length (validators vs) = length (signatures c)"
    and "verify_commit_light_loop env chain_id c needed 0 0 (zip (validators vs) (signatures c)) = Inr ()"
  shows "needed < power_of vs (signers env chain_id c vs)"
proof -
  have "power_of vs {} = 0" by (simp add: power_of_def)
  then obtain S where S: "S \<subseteq> signers env chain_id c vs" "needed < power_of vs S"
    using light_loop_sound [OF assms(1,2), of env chain_id needed "{}" 0 "zip (validators vs) (signatures c)"]
      assms(3) by auto
  have "power_of vs S \<le> power_of vs (signers env chain_id c vs)"
    unfolding power_of_def using S(1) signers_bounded by (intro sum_mono2) auto
  with S(2) show ?thesis by linarith
qed

lemma verify_commit_light_Inr:
  assumes "valset_powers vs"
  shows "verify_commit_light env vs chain_id height c = Inr () \<longleftrightarrow>
    length (validators vs) = length (signatures c) \<and> height = commit_height c \<and>
    verify_commit_light_loop env chain_id c (2 * total_voting_power vs div 3) 0 0
      (zip (validators vs) (signatures c)) = Inr ()"
  using assms voting_power_needed_ok(1) [of "total_voting_power vs"]
  by (auto simp: verify_commit_light_def valset_powers_def)

lemma verify_commit_light_quorum:
  assumes "valset_powers vs" "verify_commit_light env vs chain_id height c = Inr ()"
  shows "2 * total_voting_power vs < 3 * power_of vs (signers env chain_id c vs)"
proof -
  have "2 * total_voting_power vs div 3 < power_of vs (signers env chain_id c vs)"
    using light_loop_quorum [OF assms(1), of c env chain_id] assms(2)
    unfolding verify_commit_light_Inr [OF assms(1)] by blast
  then show ?thesis by (simp only: two_thirds_iff)
qed

text \<open>A set of three validators of which two sign, in an environment that accepts every signature.\<close>

definition sample_env :: tm_env where
  "sample_env = \<lparr> env_header_hash = (\<lambda>h. Sha256 (replicate (hdr_height h) 1)),
     env_valset_hash = (\<lambda>_. Sha256 [2]), env_simple_hash = (\<lambda>_. [3]), env_signable_vec = (\<lambda>_ _. []),
     env_verify_signature = (\<lambda>_ _ _. True), env_now = 1000,
     env_time_checked_add = (\<lambda>t d. Some (t + int d)) \<rparr>"

definition sample_valset :: validator_set where
  "sample_valset = \<lparr> validators =
     [\<lparr> val_address = [1], val_pub_key = [], val_power = 4 \<rparr>,
      \<lparr> val_address = [2], val_pub_key = [], val_power = 1 \<rparr>,
      \<lparr> val_address = [3], val_pub_key = [], val_power = 4 \<rparr>],
     vs_proposer = Some \<lparr> val_address = [1], val_pub_key = [], val_power = 4 \<rparr>, total_voting_power = 9 \<rparr>"

definition sample_commit :: "nat \<Rightarrow> commit" where
  "sample_commit h = \<lparr> commit_height = h, commit_round = 0,
     commit_block_id = \<lparr> bid_hash = Sha256 (replicate h 1), psh_total = 1, psh_hash = NoHash \<rparr>,
     signatures = [BlockIdFlagCommit [1] 5 (Some (replicate 64 0)), BlockIdFlagAbsent,
       BlockIdFlagCommit [3] 5 (Some (replicate 64 0))] \<rparr>"

lemmas sample_defs = sample_env_def sample_valset_def sample_commit_def

lemma sample_valset_powers: "valset_powers sample_valset"
  by (simp add: valset_powers_def sample_valset_def i64_max_def)

lemma sample_commit_accepted: "verify_commit_light sample_env sample_valset ''c'' 7 (sample_commit 7) = Inr ()"
  by (simp add: verify_commit_light_def sample_defs voting_power_needed_def width_defs u64_max_eq vote_sign_bytes_def
      vote_of_def list_get_def verify_signature_def trust_level_new_def i32_max_def)

lemma sample_commit_signers:
  assumes "signatures (sample_commit 7) ! i = BlockIdFlagCommit a t s" "i < length (signatures (sample_commit 7))"
  shows "i \<in> signers sample_env ''c'' (sample_commit 7) sample_valset"
proof -
  have "i = 0 \<or> i = 2" using assms by (auto simp: sample_commit_def less_Suc_eq)
  then show ?thesis
    by (auto simp: signers_def signed_by_def sample_commit_def sample_valset_def sample_env_def
        vote_sign_bytes_def vote_of_def list_get_def i32_max_def)
qed

section \<open>Correctness of commit verification\<close>



text \<open>
  (C36) Two commits accepted by the light verification against the same validator set have common
  signers holding more than one third of the voting power.
\<close>

theorem verify_commit_light_quorums_intersect:
  assumes "valset_powers vs" "verify_commit_light env vs ch1 h1 c1 = Inr ()" "verify_commit_light env vs ch2 h2 c2 = Inr ()"
  shows "total_voting_power vs < 3 * power_of vs (signers env ch1 c1 vs \<inter> signers env ch2 c2 vs)"
proof -
  let ?A = "signers env ch1 c1 vs" and ?B = "signers env ch2 c2 vs"
  have "power_of vs (?A \<union> ?B) + power_of vs (?A \<inter> ?B) = power_of vs ?A + power_of vs ?B"
    unfolding power_of_def by (rule sum.union_inter) (rule signers_bounded)+
  moreover have "power_of vs (?A \<union> ?B) \<le> total_voting_power vs"
    by (rule power_of_le_total [OF assms(1)]) (use signers_bounded in auto)
  ultimately show ?thesis
    using verify_commit_light_quorum [OF assms(1,2)] verify_commit_light_quorum [OF assms(1,3)] by linarith
qed

theorem verify_commit_light_quorums_intersect_witness:
  "total_voting_power sample_valset < 3 * power_of sample_valset
     (signers sample_env ''c'' (sample_commit 7) sample_valset \<inter>
      signers sample_env ''c'' (sample_commit 7) sample_valset)"
  by (rule verify_commit_light_quorums_intersect
      [OF sample_valset_powers sample_commit_accepted sample_commit_accepted])

text \<open>
  A commit accepted by the trusting verification carries valid signatures, under their own
  addresses, of distinct validators of the trusted set holding more than the trust level.
\<close>

lemma verify_commit_light_trusting_power:
  assumes "valset_powers vs" "verify_commit_light_trusting env vs chain_id c level = Inr ()"
  shows "numerator level * total_voting_power vs < denominator level * power_of vs (trusted_signers env chain_id c vs)"
proof -
  from assms(2) obtain needed where n: "voting_power_needed level (total_voting_power vs) = Inr needed"
    "verify_commit_light_trusting_loop env vs chain_id c needed Map.empty 0 0 (signatures c) = Inr ()"
    by (auto simp: verify_commit_light_trusting_def res_simps)
  have "power_of vs (dom Map.empty) = 0" by (simp add: power_of_def)
  with n(2) obtain S where S: "S \<subseteq> trusted_signers env chain_id c vs" "needed < power_of vs S"
    using trusting_loop_sound [OF assms(1), of env chain_id c needed Map.empty 0 "signatures c"] by auto
  have "power_of vs S \<le> power_of vs (trusted_signers env chain_id c vs)"
    unfolding power_of_def using S(1) by (intro sum_mono2) (auto simp: trusted_signers_def)
  with S have "numerator level * total_voting_power vs div denominator level < power_of vs (trusted_signers env chain_id c vs)"
    using voting_power_needed_eq(1) [OF n(1)] by linarith
  then show ?thesis
    using voting_power_needed_eq(2) [OF n(1)] by (simp add: div_less_iff_less_mult mult.commute)
qed

end
