(* ===== verification/Extended_Header.thy ===== *)
theory Extended_Header
  imports Validator_Set
begin

text \<open>
  Extended headers, their validation and the verification of one header, or a chain of headers,
  against a trusted one, from \<^verbatim>\<open>types/src/extended_header.rs\<close>. The clock that \<open>verify\<close> reads is
  \<open>env_now\<close> of the environment: one reading for the duration of a call.
\<close>

section \<open>The header and its accessors\<close>

record extended_header =
  eh_header :: header
  eh_commit :: commit
  eh_validator_set :: validator_set
  eh_dah :: data_availability_header

definition eh_app_version :: "extended_header \<Rightarrow> (app_version, types_error) result" where
  "eh_app_version self =
     ok_or (UnsupportedAppVersion (version_app (eh_header self))) (from_u64 (version_app (eh_header self)))"

definition chain_id :: "extended_header \<Rightarrow> string" where
  "chain_id self = hdr_chain_id (eh_header self)"

definition height :: "extended_header \<Rightarrow> nat" where
  "height self = hdr_height (eh_header self)"

definition eh_time :: "extended_header \<Rightarrow> time" where
  "eh_time self = hdr_time (eh_header self)"

definition eh_hash :: "extended_header \<Rightarrow> hash" where
  "eh_hash self = bid_hash (commit_block_id (eh_commit self))"

definition last_header_hash :: "extended_header \<Rightarrow> hash" where
  "last_header_hash self =
     (case last_block_id (eh_header self) of Some b \<Rightarrow> bid_hash b | None \<Rightarrow> NoHash)"

text \<open>\<open>Height::increment\<close> of tendermint panics above \<open>i64::MAX\<close>.\<close>

definition height_increment :: "nat \<Rightarrow> (nat, types_error) result" where
  "height_increment h = (if h < i64_max then Inr (h + 1) else Inl (Panic ''height overflow''))"

definition VERIFY_CLOCK_DRIFT :: nat where
  "VERIFY_CLOCK_DRIFT = 10 * 10 ^ 9"

section \<open>Validation\<close>

definition eh_validate :: "tm_env \<Rightarrow> extended_header \<Rightarrow> (unit, types_error) result" where
  "eh_validate env self =
     (let hdr = eh_header self; com = eh_commit self; vals = eh_validator_set self in
      try_bind (map_err Validation (header_validate_basic hdr)) (\<lambda>_.
      try_bind (map_err Validation (commit_validate_basic com)) (\<lambda>_.
      try_bind (map_err Validation (valset_validate_basic vals)) (\<lambda>_.
      if env_valset_hash env vals \<noteq> validators_hash hdr then
        Inl (Validation (ValidationOther ''validator_set hash ({}) != header validators_hash ({})''))
      else if dah_hash (env_simple_hash env) (eh_dah self) \<noteq>
              (case data_hash hdr of Some h \<Rightarrow> h | None \<Rightarrow> NoHash) then
        Inl (Validation (ValidationOther ''dah hash ({}) != header dah hash ({})''))
      else if commit_height com \<noteq> height self then
        Inl (Validation (ValidationOther ''commit height ({}) != header height ({})''))
      else if bid_hash (commit_block_id com) \<noteq> env_header_hash env hdr then
        Inl (Validation (ValidationOther ''commit block_id hash ({}) != header hash ({})''))
      else
        try_bind (verify_commit_light env vals (hdr_chain_id hdr) (height self) com) (\<lambda>_.
        try_bind (eh_app_version self) (\<lambda>v.
        map_err Validation (dah_validate_basic (eh_dah self) v)))))))"

definition decode_and_validate ::
  "tm_env \<Rightarrow> (bytes \<Rightarrow> extended_header option) \<Rightarrow> bytes \<Rightarrow> (extended_header, types_error) result" where
  "decode_and_validate env decode bs =
     try_bind (ok_or Protobuf (decode bs)) (\<lambda>hdr.
     try_bind (eh_validate env hdr) (\<lambda>_. Inr hdr))"

section \<open>Verification\<close>

definition verify :: "tm_env \<Rightarrow> extended_header \<Rightarrow> extended_header \<Rightarrow> (unit, types_error) result" where
  "verify env self untrusted =
     (if height untrusted \<le> height self then
        bail_verification ''untrusted header height({}) <= current trusted header({})''
      else if chain_id untrusted \<noteq> chain_id self then
        bail_verification ''untrusted header has different chain {}, not {}''
      else if \<not> eh_time self < eh_time untrusted then
        bail_verification ''untrusted header time ({}) must be after current trusted header ({})''
      else case env_time_checked_add env (env_now env) VERIFY_CLOCK_DRIFT of
        None \<Rightarrow> Inl (Panic ''now.checked_add(VERIFY_CLOCK_DRIFT)'')
      | Some valid_until \<Rightarrow>
        if \<not> eh_time untrusted < valid_until then
          bail_verification ''new untrusted header has a time from the future {} (now: {}, clock_drift: {:?})''
        else
          try_bind (height_increment (height self)) (\<lambda>next.
          if next = height untrusted then
            (if validators_hash (eh_header untrusted) \<noteq> next_validators_hash (eh_header self) then
               bail_verification ''expected old header next validators ({}) to match those from new header ({})''
             else if last_header_hash untrusted \<noteq> eh_hash self then
               bail_verification ''expected new header to point to last header hash ({}), but got {}''
             else Inr ())
          else verify_commit_light_trusting env (eh_validator_set self) (chain_id self)
                 (eh_commit untrusted) DEFAULT_TRUST_LEVEL))"

fun verify_range_loop ::
  "tm_env \<Rightarrow> nat \<Rightarrow> extended_header \<Rightarrow> extended_header list \<Rightarrow> (unit, types_error) result" where
  "verify_range_loop env i trusted [] = Inr ()" |
  "verify_range_loop env i trusted (untrusted # rest) =
     try_bind (if i \<noteq> 0 then
                 try_bind (height_increment (height trusted)) (\<lambda>next.
                 if next \<noteq> height untrusted then
                   bail_verification ''untrusted header height ({}) not adjacent to the current trusted ({})''
                 else Inr ())
               else Inr ()) (\<lambda>_.
     try_bind (verify env trusted untrusted) (\<lambda>_.
     verify_range_loop env (i + 1) untrusted rest))"

definition verify_range ::
  "tm_env \<Rightarrow> extended_header \<Rightarrow> extended_header list \<Rightarrow> (unit, types_error) result" where
  "verify_range env self untrusted = verify_range_loop env 0 self untrusted"

definition verify_adjacent_range ::
  "tm_env \<Rightarrow> extended_header \<Rightarrow> extended_header list \<Rightarrow> (unit, types_error) result" where
  "verify_adjacent_range env self untrusted =
     (if untrusted = [] then Inr ()
      else try_bind (height_increment (height self)) (\<lambda>next.
        if next \<noteq> height (untrusted ! 0) then
          bail_verification ''untrusted header height ({}) not adjacent to the current trusted ({})''
        else verify_range env self untrusted))"

section \<open>Chains of headers\<close>

text \<open>One header extends another: the next height, later, bound to it by hash and validators.\<close>

definition extends :: "extended_header \<Rightarrow> extended_header \<Rightarrow> bool" where
  "extends a b \<longleftrightarrow> height b = height a + 1 \<and> chain_id b = chain_id a \<and> eh_time a < eh_time b \<and>
     last_header_hash b = eh_hash a \<and>
     validators_hash (eh_header b) = next_validators_hash (eh_header a)"

fun chained :: "extended_header \<Rightarrow> extended_header list \<Rightarrow> bool" where
  "chained h [] \<longleftrightarrow> True" |
  "chained h (x # xs) \<longleftrightarrow> extends h x \<and> chained x xs"

definition not_from_future :: "tm_env \<Rightarrow> extended_header \<Rightarrow> bool" where
  "not_from_future env h \<longleftrightarrow>
     (\<exists>t. env_time_checked_add env (env_now env) VERIFY_CLOCK_DRIFT = Some t \<and> eh_time h < t)"

lemma verify_adjacent_iff:
  assumes "height untrusted = height self + 1"
  shows "verify env self untrusted = Inr () \<longleftrightarrow>
    height self < i64_max \<and> extends self untrusted \<and> not_from_future env untrusted"
  using assms
  by (auto simp: verify_def extends_def not_from_future_def height_increment_def split: option.splits)

lemma verify_higher: "verify env self untrusted = Inr () \<Longrightarrow> height self < height untrusted"
  by (simp add: verify_def split: if_splits)

lemma chained_append: "chained h (xs @ ys) \<longleftrightarrow> chained h xs \<and> chained (last (h # xs)) ys"
  by (induction xs arbitrary: h) auto

lemma chained_heights: "chained h hs \<Longrightarrow> map height hs = [height h + 1..<height h + 1 + length hs]"
proof (induction hs arbitrary: h)
  case (Cons x hs)
  then have x: "height x = height h + 1" "chained x hs" by (simp_all add: extends_def)
  show ?case
    using Cons.IH [OF x(2)] x(1) upt_conv_Cons [of "height h + 1" "height h + 1 + length (x # hs)"]
    by (simp del: upt_Suc)
qed simp

definition acceptable :: "tm_env \<Rightarrow> extended_header \<Rightarrow> extended_header list \<Rightarrow> bool" where
  "acceptable env h hs \<longleftrightarrow> chained h hs \<and> (hs = [] \<or> height h + length hs \<le> i64_max) \<and>
     list_all (not_from_future env) hs"

lemma acceptable_Nil [simp]: "acceptable env self []"
  by (simp add: acceptable_def)

lemma acceptable_Cons:
  "acceptable env self (x # hs) \<longleftrightarrow>
     height self < i64_max \<and> extends self x \<and> not_from_future env x \<and> acceptable env x hs"
  by (auto simp: acceptable_def extends_def)

lemma verify_range_loop_acceptable:
  "i \<noteq> 0 \<Longrightarrow> verify_range_loop env i self hs = Inr () \<longleftrightarrow> acceptable env self hs"
proof (induction hs arbitrary: i self)
  case (Cons h hs)
  have "verify_range_loop env i self (h # hs) = Inr () \<longleftrightarrow>
      height self < i64_max \<and> height h = height self + 1 \<and> verify env self h = Inr () \<and>
      verify_range_loop env (i + 1) h hs = Inr ()"
    using Cons.prems by (auto simp: height_increment_def try_bind_Inr_iff)
  then show ?case
    using Cons.IH [of "i + 1" h] verify_adjacent_iff [of h self env]
    by (auto simp: acceptable_Cons extends_def)
qed simp

lemma verify_range_Cons:
  "verify_range env self (x # hs) = Inr () \<longleftrightarrow> verify env self x = Inr () \<and> acceptable env x hs"
  by (auto simp: verify_range_def try_bind_Inr_iff verify_range_loop_acceptable)

lemma acceptable_append:
  "acceptable env h (xs @ ys) \<longleftrightarrow> acceptable env h xs \<and> acceptable env (last (h # xs)) ys"
  by (induction xs arbitrary: h) (auto simp: acceptable_Cons)

lemma verify_adjacent_range_acceptable:
  "verify_adjacent_range env self hs = Inr () \<longleftrightarrow> acceptable env self hs"
proof (cases hs)
  case Nil
  then show ?thesis by (simp add: verify_adjacent_range_def acceptable_def)
next
  case (Cons x xs)
  have "verify_adjacent_range env self hs = Inr () \<longleftrightarrow>
      height self < i64_max \<and> height x = height self + 1 \<and> verify env self x = Inr () \<and> acceptable env x xs"
    using Cons verify_range_Cons [of env self x xs]
    by (auto simp: verify_adjacent_range_def height_increment_def)
  also have "\<dots> \<longleftrightarrow> acceptable env self hs"
    using Cons verify_adjacent_iff [of x self env] by (auto simp: acceptable_Cons extends_def)
  finally show ?thesis .
qed

text \<open>A chain of headers that validate in the sample environment.\<close>

definition sample_root :: namespaced_hash where
  "sample_root = \<lparr> min_namespace = TRANSACTION, max_namespace = PARITY_SHARE, ns_hash = replicate 32 1 \<rparr>"

definition sample_header :: "nat \<Rightarrow> extended_header" where
  "sample_header h = \<lparr> eh_header =
     \<lparr> version_block = 11, version_app = 2, hdr_chain_id = ''c'', hdr_height = h, hdr_time = int h,
       last_block_id = (if h = 1 then None
         else Some \<lparr> bid_hash = Sha256 (replicate (h - 1) 1), psh_total = 1, psh_hash = NoHash \<rparr>),
       data_hash = Some (Sha256 [3]), validators_hash = Sha256 [2], next_validators_hash = Sha256 [2],
       hdr_rest = [] \<rparr>,
     eh_commit = sample_commit h, eh_validator_set = sample_valset,
     eh_dah = \<lparr> row_roots = [sample_root, sample_root], column_roots = [sample_root, sample_root] \<rparr> \<rparr>"

lemma sample_height [simp]: "height (sample_header h) = h"
  by (simp add: height_def sample_header_def)

lemma sample_fields:
  "eh_validator_set (sample_header h) = sample_valset" "eh_commit (sample_header h) = sample_commit h"
  "chain_id (sample_header h) = ''c''"
  by (simp_all add: sample_header_def chain_id_def)

lemma sample_extends: "0 < h \<Longrightarrow> extends (sample_header h) (sample_header (Suc h))"
  by (simp add: extends_def height_def chain_id_def eh_time_def last_header_hash_def eh_hash_def
      sample_header_def sample_commit_def)

lemma sample_not_from_future: "h < 1000 \<Longrightarrow> not_from_future sample_env (sample_header h)"
  by (simp add: not_from_future_def sample_env_def eh_time_def sample_header_def VERIFY_CLOCK_DRIFT_def)

lemma sample_acceptable:
  "0 < h \<Longrightarrow> h + n < 1000 \<Longrightarrow> acceptable sample_env (sample_header h) (map sample_header [Suc h..<Suc h + n])"
proof (induction n arbitrary: h)
  case (Suc n)
  have "[Suc h..<Suc h + Suc n] = Suc h # [Suc (Suc h)..<Suc (Suc h) + n]"
    using upt_conv_Cons [of "Suc h" "Suc h + Suc n"] by (simp del: upt_Suc)
  then show ?case
    using Suc.IH [of "Suc h"] Suc.prems sample_extends sample_not_from_future
    by (simp add: acceptable_Cons i64_max_def del: upt_Suc)
qed simp

lemma sample_validates: "eh_validate sample_env (sample_header 7) = Inr ()"
  using sample_commit_accepted
  by (simp add: eh_validate_def header_validate_basic_def commit_validate_basic_def valset_validate_basic_def
      signature_validate_def BLOCK_PROTOCOL_def MAX_CHAIN_ID_LEN_def GENESIS_HEIGHT_def
      eh_app_version_def from_u64_def dah_validate_basic_def MIN_EXTENDED_SQUARE_WIDTH_def dah_hash_def
      sample_header_def height_def SIGNATURE_LENGTH_def is_zero_def
      sample_defs)

section \<open>Correctness of validation and verification\<close>

text \<open>
  (C8) A list of headers passes the adjacent verification against a trusted header exactly when each
  extends the one before it (next height, same chain, later time, bound by the hash of the last
  header and of the next validators), none is from the future and the heights fit \<open>i64\<close>. Their heights
  are then the consecutive heights after the trusted one.
\<close>

theorem verify_adjacent_range_iff:
  "verify_adjacent_range env self hs = Inr () \<longleftrightarrow>
     chained self hs \<and> map height hs = [height self + 1..<height self + 1 + length hs] \<and>
     (hs = [] \<or> height self + length hs \<le> i64_max) \<and> list_all (not_from_future env) hs"
  using chained_heights [of self hs]
  by (auto simp: verify_adjacent_range_acceptable acceptable_def)

text \<open>
  Verifying a range in two parts is the same as verifying it whole: the first part against the
  trusted header, the second against the last header of the first.
\<close>

lemma verify_adjacent_range_append:
  "verify_adjacent_range env self (xs @ ys) = Inr () \<longleftrightarrow>
     verify_adjacent_range env self xs = Inr () \<and> verify_adjacent_range env (last (self # xs)) ys = Inr ()"
  by (simp only: verify_adjacent_range_acceptable acceptable_append)

text \<open>
  A range accepted against any lower trusted header is internally a chain: each header but the
  first passes the adjacent verification against its predecessor.
\<close>

lemma verify_range_adjacent_inside:
  assumes "verify_range env self (x # hs) = Inr ()"
  shows "height self < height x \<and> verify_adjacent_range env x hs = Inr ()"
  using assms verify_range_Cons [of env self x hs] verify_higher [of env self x]
  by (simp add: verify_adjacent_range_acceptable)

text \<open>
  (C12) A header that validates has a positive height that its commit shares, is committed to under its
  own hash by more than two thirds of the voting power of the validator set it names, commits to the
  row and column roots it carries, and has a square of a supported width and application version.
\<close>

theorem eh_validate_sound:
  assumes "valset_powers (eh_validator_set h)" "eh_validate env h = Inr ()"
  shows "0 < height h \<and> commit_height (eh_commit h) = height h \<and>
    eh_hash h = env_header_hash env (eh_header h) \<and>
    env_valset_hash env (eh_validator_set h) = validators_hash (eh_header h) \<and>
    data_hash (eh_header h) = Some (dah_hash (env_simple_hash env) (eh_dah h)) \<and>
    2 * total_voting_power (eh_validator_set h) <
      3 * power_of (eh_validator_set h) (signers env (chain_id h) (eh_commit h) (eh_validator_set h)) \<and>
    length (column_roots (eh_dah h)) = length (row_roots (eh_dah h)) \<and>
    2 \<le> length (row_roots (eh_dah h)) \<and> length (row_roots (eh_dah h)) \<le> 256 \<and>
    version_app (eh_header h) \<in> {1, 2, 3}"
proof -
  note v = assms(2) [unfolded eh_validate_def Let_def, simplified try_bind_Inr_iff map_err_Inr_iff]
  have c: "verify_commit_light env (eh_validator_set h) (chain_id h) (height h) (eh_commit h) = Inr ()"
    using v by (auto simp: chain_id_def try_bind_Inr_iff split: if_splits)
  have "version_app (eh_header h) \<in> {1, 2, 3} \<and> length (column_roots (eh_dah h)) = length (row_roots (eh_dah h)) \<and>
      2 \<le> length (row_roots (eh_dah h)) \<and> length (row_roots (eh_dah h)) \<le> 256"
    using v by (auto simp: eh_app_version_def dah_validate_basic_iff from_u64_def try_bind_Inr_iff split: if_splits)
  moreover have "data_hash (eh_header h) = Some (dah_hash (env_simple_hash env) (eh_dah h))"
    using v by (auto simp: dah_hash_def split: if_splits option.splits)
  ultimately show ?thesis
    using v verify_commit_light_quorum [OF assms(1) c]
    by (auto simp: header_validate_basic_iff height_def eh_hash_def split: if_splits)
qed

theorem eh_validate_sound_witness:
  "0 < height (sample_header 7) \<and> eh_hash (sample_header 7) = env_header_hash sample_env (eh_header (sample_header 7)) \<and>
   2 * total_voting_power sample_valset <
     3 * power_of sample_valset (signers sample_env ''c'' (sample_commit 7) sample_valset)"
  using eh_validate_sound [of "sample_header 7" sample_env] sample_validates sample_valset_powers
  unfolding sample_fields by blast

end
