(* ===== verification/Store.thy ===== *)
theory Store
  imports Block_Ranges Extended_Header
begin

text \<open>
  The interface of header stores, from \<^verbatim>\<open>node/src/store.rs\<close> and \<^verbatim>\<open>node/src/store/utils.rs\<close>:
  errors, sampling metadata, ranges given by bounds, headers verified as a chain, and the method
  \<open>get_range\<close> that the trait derives from the required ones. The locale \<open>header_store\<close> states what
  the trait promises of an implementation; it is interpreted on both stores of the node.
\<close>

section \<open>Errors\<close>

datatype store_insertion_error =
    HeadersVerificationFailed types_error
  | NeighborsVerificationFailed types_error
  | ContraintsNotMet block_ranges_error
  | HashExists hash

text \<open>\<open>StorePanic\<close> is no value of \<open>StoreError\<close>: it stands for an \<open>expect\<close> or \<open>panic!\<close> that is reached.\<close>

datatype store_error =
    NotFound
  | InsertionFailed store_insertion_error
  | StoredDataError string
  | FatalDatabaseError string
  | ExecutorError string
  | OpenFailed string
  | StorePanic string

fun is_fatal :: "store_error \<Rightarrow> bool" where
  "is_fatal (StoredDataError _) = True" |
  "is_fatal (FatalDatabaseError _) = True" |
  "is_fatal (ExecutorError _) = True" |
  "is_fatal (OpenFailed _) = True" |
  "is_fatal NotFound = False" |
  "is_fatal (InsertionFailed _) = False" |
  "is_fatal (StorePanic _) = True"

section \<open>Sampling metadata\<close>

type_synonym cid = bytes

datatype sampling_status = Unknown | Accepted | Rejected

record sampling_metadata =
  sm_status :: sampling_status
  sm_cids :: "cid list"

record raw_sampling_metadata =
  raw_accepted :: bool
  raw_cids :: "bytes list"
  raw_unknown :: bool

text \<open>\<open>Cid::read_bytes\<close> belongs to the crate \<open>cid\<close>: the argument \<open>read_cid\<close>.\<close>

definition metadata_from_raw ::
  "(bytes \<Rightarrow> cid option) \<Rightarrow> raw_sampling_metadata \<Rightarrow> (sampling_metadata, unit) result" where
  "metadata_from_raw read_cid item =
     (let status = (if raw_unknown item then Unknown
                    else if raw_accepted item then Accepted else Rejected) in
      try_bind (try_map (\<lambda>b. ok_or () (read_cid b)) (raw_cids item)) (\<lambda>cids.
        Inr \<lparr> sm_status = status, sm_cids = cids \<rparr>))"

definition metadata_to_raw :: "(cid \<Rightarrow> bytes) \<Rightarrow> sampling_metadata \<Rightarrow> raw_sampling_metadata" where
  "metadata_to_raw to_bytes item =
     (let (accepted, unknown) = (case sm_status item of
          Unknown \<Rightarrow> (False, True) | Accepted \<Rightarrow> (True, False) | Rejected \<Rightarrow> (False, False)) in
      \<lparr> raw_accepted = accepted, raw_cids = map to_bytes (sm_cids item), raw_unknown = unknown \<rparr>)"

text \<open>Both stores merge new CIDs into the metadata of a height in the same way.\<close>

fun push_cids :: "cid list \<Rightarrow> cid list \<Rightarrow> cid list" where
  "push_cids known [] = known" |
  "push_cids known (c # cs) = push_cids (if c \<in> set known then known else known @ [c]) cs"

section \<open>Headers verified as a chain\<close>

definition verified_from_vec ::
  "tm_env \<Rightarrow> extended_header list \<Rightarrow> (extended_header list, types_error) result" where
  "verified_from_vec env headers =
     (case headers of
        [] \<Rightarrow> Inr []
      | hd' # rest \<Rightarrow> try_bind (verify_adjacent_range env hd' rest) (\<lambda>_. Inr headers))"

fun validate_headers :: "tm_env \<Rightarrow> extended_header list \<Rightarrow> (unit, types_error) result" where
  "validate_headers env [] = Inr ()" |
  "validate_headers env (h # hs) = try_bind (eh_validate env h) (\<lambda>_. validate_headers env hs)"

section \<open>Ranges given by bounds\<close>

datatype bound = Unbounded | Included nat | Excluded nat

definition to_headers_range :: "bound \<times> bound \<Rightarrow> nat \<Rightarrow> (block_range, store_error) result" where
  "to_headers_range bounds last_index =
     try_bind (case fst bounds of
          Unbounded \<Rightarrow> Inr 1
        | Included x \<Rightarrow> if last_index < x \<or> x = 0 then Inl NotFound else Inr x
        | Excluded x \<Rightarrow> if last_index \<le> x then Inl NotFound else Inr (x + 1)) (\<lambda>start.
     try_bind (case snd bounds of
          Unbounded \<Rightarrow> Inr last_index
        | Included x \<Rightarrow> if last_index < x then Inl NotFound else Inr x
        | Excluded x \<Rightarrow>
            if wrapping_add last_index 1 < x then Inl NotFound
            else if x = 0 then Inr 0 else Inr (x - 1)) (\<lambda>end'.
     Inr (start, end')))"

text \<open>
  The provided method \<open>get_range\<close>, over the required \<open>head_height\<close> and \<open>get_by_height\<close>: the headers of
  every height of the range, or the first error.
\<close>

definition get_range ::
  "(nat, store_error) result \<Rightarrow> (nat \<Rightarrow> (extended_header, store_error) result)
    \<Rightarrow> bound \<times> bound \<Rightarrow> (extended_header list, store_error) result" where
  "get_range head_height get_by_height bounds =
     try_bind head_height (\<lambda>head_height.
     try_bind (to_headers_range bounds head_height) (\<lambda>rng.
     try_map get_by_height [fst rng..<snd rng + 1]))"

section \<open>Facts\<close>

lemma metadata_raw_roundtrip:
  assumes "\<And>c. c \<in> set (sm_cids m) \<Longrightarrow> read_cid (to_bytes c) = Some c"
  shows "metadata_from_raw read_cid (metadata_to_raw to_bytes m) = Inr m"
proof -
  have "try_map (\<lambda>b. ok_or () (read_cid b)) (map to_bytes (sm_cids m)) = Inr (sm_cids m)"
    using assms by (simp add: try_map_Inr_iff list_all2_conv_all_nth)
  then show ?thesis
    by (cases "sm_status m") (simp_all add: metadata_from_raw_def metadata_to_raw_def)
qed

lemma push_cids_set: "set (push_cids known cs) = set known \<union> set cs"
  by (induction known cs rule: push_cids.induct) auto

lemma push_cids_distinct: "distinct known \<Longrightarrow> distinct (push_cids known cs)"
  by (induction known cs rule: push_cids.induct) auto

lemma push_cids_prefix: "\<exists>new. push_cids known cs = known @ new"
  by (induction known cs rule: push_cids.induct) auto

lemma verified_from_vec_iff:
  "verified_from_vec env hs = Inr hs' \<longleftrightarrow> hs' = hs \<and> (hs = [] \<or> acceptable env (hd hs) (tl hs))"
  by (cases hs) (auto simp: verified_from_vec_def try_bind_Inr_iff verify_adjacent_range_acceptable)

text \<open>Membership of a height in a pair of bounds, clipped to the heights up to the last one.\<close>

fun above_start :: "bound \<Rightarrow> nat \<Rightarrow> bool" where
  "above_start Unbounded h \<longleftrightarrow> 0 < h" |
  "above_start (Included x) h \<longleftrightarrow> x \<le> h" |
  "above_start (Excluded x) h \<longleftrightarrow> x < h"

fun below_end :: "nat \<Rightarrow> bound \<Rightarrow> nat \<Rightarrow> bool" where
  "below_end last' Unbounded h \<longleftrightarrow> h \<le> last'" |
  "below_end last' (Included x) h \<longleftrightarrow> h \<le> x" |
  "below_end last' (Excluded x) h \<longleftrightarrow> h < x"

lemma to_headers_range_heights:
  assumes "to_headers_range bs n = Inr r" "n < u64_max"
  shows "{fst r..snd r} = {h. 0 < h \<and> above_start (fst bs) h \<and> below_end n (snd bs) h}"
    and "0 < fst r" "snd r \<le> n"
  using assms
  by (auto simp: to_headers_range_def wrapping_add_def wrap64_def u64_max_def try_bind_Inr_iff
      split: bound.splits if_splits)


section \<open>What a store promises\<close>

lemma list_all2_lookup:
  "list_all2 (\<lambda>h x. m h = Some x) hs xs \<longleftrightarrow> (\<forall>h \<in> set hs. h \<in> dom m) \<and> xs = map (the \<circ> m) hs"
  by (induction hs arbitrary: xs) (auto simp: list_all2_Cons1)

definition headers_map :: "extended_header list \<Rightarrow> nat \<rightharpoonup> extended_header" where
  "headers_map hs = map_of (map (\<lambda>h. (height h, h)) hs)"

lemma headers_map_dom: "dom (headers_map hs) = height ` set hs"
  by (simp add: headers_map_def dom_map_of_conv_image_fst image_image)

lemma headers_map_Some:
  "distinct (map height hs) \<Longrightarrow> headers_map hs k = Some h \<longleftrightarrow> h \<in> set hs \<and> height h = k"
  by (auto simp: headers_map_def comp_def)

lemma chained_nth:
  "chained h hs \<Longrightarrow> Suc i < length (h # hs) \<Longrightarrow> extends ((h # hs) ! i) ((h # hs) ! Suc i)"
  by (induction hs arbitrary: h i) (auto simp: nth_Cons split: nat.splits)

text \<open>Stored headers that are neighbours in height are linked as in a chain.\<close>

definition linked :: "(nat \<rightharpoonup> extended_header) \<Rightarrow> bool" where
  "linked m \<longleftrightarrow> (\<forall>h x y. m h = Some x \<longrightarrow> m (Suc h) = Some y \<longrightarrow> extends x y)"

definition keyed_by_height :: "(nat \<rightharpoonup> extended_header) \<Rightarrow> bool" where
  "keyed_by_height m \<longleftrightarrow> (\<forall>h x. m h = Some x \<longrightarrow> height x = h)"

lemma linked_chained:
  assumes "linked m" "\<forall>h \<in> {a..b}. m h \<noteq> None" "a \<le> b"
  shows "chained (the (m a)) (map (the \<circ> m) [Suc a..<Suc b])"
  using assms(2,3)
proof (induction "b - a" arbitrary: a)
  case 0
  then show ?case by simp
next
  case (Suc n)
  then have "a < b" by simp
  then have "[Suc a..<Suc b] = Suc a # [Suc (Suc a)..<Suc b]" by (simp add: upt_conv_Cons del: upt_Suc)
  moreover have "extends (the (m a)) (the (m (Suc a)))"
  proof -
    obtain x y where "m a = Some x" "m (Suc a) = Some y"
      using Suc.prems(1) \<open>a < b\<close> by (metis atLeastAtMost_iff not_None_eq order_less_imp_le le_refl Suc_leI le_SucI)
    with assms(1) show ?thesis by (simp add: linked_def)
  qed
  moreover have "chained (the (m (Suc a))) (map (the \<circ> m) [Suc (Suc a)..<Suc b])"
    using Suc.hyps(1) [of "Suc a"] Suc.hyps(2) Suc.prems \<open>a < b\<close> by auto
  ultimately show ?case by simp
qed

text \<open>A chain as a map from heights, and what makes its union with a linked map linked.\<close>

lemma chain_height_nth:
  assumes "chained x xs" "i < length (x # xs)"
  shows "height ((x # xs) ! i) = height x + i"
proof (cases i)
  case (Suc j)
  then have "map height xs ! j = [height x + 1..<height x + 1 + length xs] ! j"
    using chained_heights [OF assms(1)] by simp
  then show ?thesis using Suc assms(2) by (simp del: upt_Suc)
qed simp

lemma last_Cons_nth: "last (x # xs) = (x # xs) ! length xs"
  by (subst last_conv_nth) simp_all

lemma chain_heights:
  assumes "chained x xs"
  shows "map height (x # xs) = [height x..<height x + length (x # xs)]"
    and "height (last (x # xs)) = height x + length xs"
    and "height ` set (x # xs) = {height x..height (last (x # xs))}"
    and "distinct (map height (x # xs))"
proof -
  show m: "map height (x # xs) = [height x..<height x + length (x # xs)]"
  proof (rule nth_equalityI)
    fix i assume i: "i < length (map height (x # xs))"
    then have "map height (x # xs) ! i = height x + i"
      using chain_height_nth [OF assms, of i] by (simp only: nth_map length_map)
    then show "map height (x # xs) ! i = [height x..<height x + length (x # xs)] ! i"
      using i by (simp del: upt_Suc list.map)
  qed simp
  show l: "height (last (x # xs)) = height x + length xs"
    unfolding last_Cons_nth by (rule chain_height_nth [OF assms]) simp
  have "height ` set (x # xs) = set (map height (x # xs))" by simp
  then show "height ` set (x # xs) = {height x..height (last (x # xs))}"
    unfolding m l by auto
  show "distinct (map height (x # xs))" unfolding m by simp
qed

lemma headers_map_chain:
  assumes "chained x xs"
  shows "headers_map (x # xs) k =
    (if height x \<le> k \<and> k \<le> height x + length xs then Some ((x # xs) ! (k - height x)) else None)"
proof (cases "height x \<le> k \<and> k \<le> height x + length xs")
  case True
  then have "height ((x # xs) ! (k - height x)) = k" "(x # xs) ! (k - height x) \<in> set (x # xs)"
    using chain_height_nth [OF assms, of "k - height x"] nth_mem [of "k - height x" "x # xs"] by auto
  with True headers_map_Some [OF chain_heights(4) [OF assms]] show ?thesis by auto
next
  case False
  then have "k \<notin> dom (headers_map (x # xs))"
    unfolding headers_map_dom chain_heights(3) [OF assms] chain_heights(2) [OF assms] by auto
  with False show ?thesis by (auto simp: domIff)
qed

lemma linked_union:
  assumes "linked m" "chained x xs" "0 < height x"
    and "\<And>p. m (height x - 1) = Some p \<Longrightarrow> extends p x"
    and "\<And>q. m (height (last (x # xs)) + 1) = Some q \<Longrightarrow> extends (last (x # xs)) q"
  shows "linked (m ++ headers_map (x # xs))"
  unfolding linked_def
proof (intro allI impI)
  fix h u v
  let ?H = "headers_map (x # xs)"
  assume u: "(m ++ ?H) h = Some u" and v: "(m ++ ?H) (Suc h) = Some v"
  note H = headers_map_chain [OF assms(2)]
  note lst = chain_heights(2) [OF assms(2)]
  consider "Suc h < height x \<or> height x + length xs < h" | "Suc h = height x"
    | "h = height x + length xs" | "height x \<le> h \<and> h < height x + length xs"
    by linarith
  then show "extends u v"
  proof cases
    case 1
    then have "?H h = None" "?H (Suc h) = None" by (auto simp: H)
    then show ?thesis using u v assms(1) by (auto simp: map_add_def linked_def)
  next
    case 2
    then have "?H h = None" "?H (Suc h) = Some x" by (auto simp: H)
    moreover have "height x - 1 = h" using 2 by simp
    ultimately show ?thesis using u v assms(4) [of u] by (auto simp: map_add_def)
  next
    case 3
    then have "?H h = Some (last (x # xs))" "?H (Suc h) = None" unfolding last_Cons_nth by (auto simp: H)
    then show ?thesis using u v assms(5) [of v] 3 lst by (auto simp: map_add_def)
  next
    case 4
    then have "?H h = Some ((x # xs) ! (h - height x))" "?H (Suc h) = Some ((x # xs) ! Suc (h - height x))"
      by (auto simp: H Suc_diff_le)
    then show ?thesis using u v chained_nth [OF assms(2), of "h - height x"] 4 by (auto simp: map_add_def)
  qed
qed

locale header_store =
  fixes st_header_ok :: "extended_header \<Rightarrow> bool"
    and st_invar :: "'s \<Rightarrow> bool"
    and st_headers :: "'s \<Rightarrow> nat \<rightharpoonup> extended_header"
    and st_head_height :: "'s \<Rightarrow> (nat, store_error) result"
    and st_get_by_height :: "'s \<Rightarrow> nat \<Rightarrow> (extended_header, store_error) result"
    and st_ranges :: "'s \<Rightarrow> (block_ranges, store_error) result"
    and st_insert :: "tm_env \<Rightarrow> 's \<Rightarrow> extended_header list \<Rightarrow> (unit, store_error) result \<times> 's"
    and st_remove_last :: "'s \<Rightarrow> (nat, store_error) result \<times> 's"
  assumes st_keyed: "st_invar s \<Longrightarrow> keyed_by_height (st_headers s)"
    and st_linked: "st_invar s \<Longrightarrow> linked (st_headers s)"
    and st_ranges: "st_invar s \<Longrightarrow>
      \<exists>rs. st_ranges s = Inr rs \<and> canonical rs \<and> heights rs = dom (st_headers s)"
    and st_head_height: "st_invar s \<Longrightarrow> st_head_height s =
      (if dom (st_headers s) = {} then Inl NotFound else Inr (Max (dom (st_headers s))))"
    and st_get_by_height: "st_invar s \<Longrightarrow> st_get_by_height s h = ok_or NotFound (st_headers s h)"
    and st_insert: "st_invar s \<Longrightarrow> \<forall>h \<in> set hs. st_header_ok h \<Longrightarrow> st_insert env s hs = (Inr (), s') \<Longrightarrow>
      st_invar s' \<and> distinct (map height hs) \<and> dom (st_headers s) \<inter> height ` set hs = {} \<and>
      st_headers s' = st_headers s ++ headers_map hs"
    and st_remove_last: "st_invar s \<Longrightarrow> dom (st_headers s) \<noteq> {} \<Longrightarrow>
      \<exists>s'. st_remove_last s = (Inr (Min (dom (st_headers s))), s') \<and> st_invar s' \<and>
        st_headers s' = (st_headers s)(Min (dom (st_headers s)) := None)"
    and st_remove_last_empty: "st_invar s \<Longrightarrow> dom (st_headers s) = {} \<Longrightarrow> st_remove_last s = (Inl NotFound, s)"
    and st_bounded: "st_invar s \<Longrightarrow> h \<in> dom (st_headers s) \<Longrightarrow> h \<le> i64_max"
    and st_ok_height: "st_header_ok x \<Longrightarrow> height x \<le> i64_max"
begin

lemma finite_dom: "st_invar s \<Longrightarrow> finite (dom (st_headers s))"
  using st_ranges finite_heights by metis

lemma dom_pos: "st_invar s \<Longrightarrow> h \<in> dom (st_headers s) \<Longrightarrow> 0 < h"
  using st_ranges heights_pos canonical_wf by metis

lemma get_after_insert:
  assumes "st_invar s" "\<forall>h \<in> set hs. st_header_ok h" "st_insert env s hs = (Inr (), s')" "h \<in> set hs"
  shows "st_get_by_height s' (height h) = Inr h"
proof -
  note ins = st_insert [OF assms(1-3)]
  have "headers_map hs (height h) = Some h" using ins assms(4) headers_map_Some by metis
  with ins show ?thesis by (simp add: st_get_by_height map_add_Some_iff)
qed

lemma get_kept_by_insert:
  assumes "st_invar s" "\<forall>h \<in> set hs. st_header_ok h" "st_insert env s hs = (Inr (), s')"
    and "st_get_by_height s k = Inr x"
  shows "st_get_by_height s' k = Inr x"
proof -
  note ins = st_insert [OF assms(1-3)]
  have x: "st_headers s k = Some x" using assms(4) st_get_by_height [OF assms(1)] by simp
  with ins have "k \<notin> height ` set hs" by blast
  then have "headers_map hs k = None" using headers_map_dom by (metis domIff)
  with ins x show ?thesis by (simp add: st_get_by_height map_add_def)
qed

lemma get_range_inclusive:
  assumes "st_invar s"
  shows "get_range (st_head_height s) (st_get_by_height s) (Included a, Included b) = Inr xs \<longleftrightarrow>
    dom (st_headers s) \<noteq> {} \<and> 0 < a \<and> a \<le> Max (dom (st_headers s)) \<and> b \<le> Max (dom (st_headers s)) \<and>
    {a..b} \<subseteq> dom (st_headers s) \<and> xs = map (the \<circ> st_headers s) [a..<b + 1]"
proof -
  have "try_map (st_get_by_height s) [a..<b + 1] = Inr xs \<longleftrightarrow>
      {a..b} \<subseteq> dom (st_headers s) \<and> xs = map (the \<circ> st_headers s) [a..<b + 1]"
  proof -
    have "try_map (st_get_by_height s) [a..<b + 1] = Inr xs \<longleftrightarrow>
        list_all2 (\<lambda>h x. st_headers s h = Some x) [a..<b + 1] xs"
      by (simp add: try_map_Inr_iff st_get_by_height [OF assms])
    also have "\<dots> \<longleftrightarrow> (\<forall>h \<in> set [a..<b + 1]. h \<in> dom (st_headers s)) \<and> xs = map (the \<circ> st_headers s) [a..<b + 1]"
      by (rule list_all2_lookup)
    finally show ?thesis by (auto simp: subset_iff)
  qed
  then show ?thesis
    by (auto simp: get_range_def st_head_height [OF assms] to_headers_range_def)
qed

lemma get_range_chained:
  assumes "st_invar s" "get_range (st_head_height s) (st_get_by_height s) (Included a, Included b) = Inr (x # xs)"
  shows "height x = a \<and> chained x xs"
proof -
  have sub: "{a..b} \<subseteq> dom (st_headers s)" and xs: "x # xs = map (the \<circ> st_headers s) [a..<b + 1]"
    using assms get_range_inclusive by blast+
  then have ab: "a \<le> b" by (cases "a \<le> b") auto
  then have "[a..<b + 1] = a # [Suc a..<Suc b]" by (simp add: upt_conv_Cons del: upt_Suc)
  with xs have x: "x = the (st_headers s a)" "xs = map (the \<circ> st_headers s) [Suc a..<Suc b]" by auto
  moreover have "height (the (st_headers s a)) = a"
    using st_keyed [OF assms(1)] sub ab by (fastforce simp: keyed_by_height_def)
  moreover have "chained (the (st_headers s a)) (map (the \<circ> st_headers s) [Suc a..<Suc b])"
    by (rule linked_chained [OF st_linked [OF assms(1)] _ ab]) (use sub in auto)
  ultimately show ?thesis by simp
qed

end

section \<open>The trait and the contract its users rely on\<close>

text \<open>
  A type that implements the trait \<open>Store\<close> is a record of its methods; code that is generic over the
  store takes the record as an argument. The methods that wait for a notification are left out.
\<close>

record 's store_ops =
  so_get_head :: "'s \<Rightarrow> (extended_header, store_error) result"
  so_get_by_hash :: "'s \<Rightarrow> hash \<Rightarrow> (extended_header, store_error) result"
  so_get_by_height :: "'s \<Rightarrow> nat \<Rightarrow> (extended_header, store_error) result"
  so_head_height :: "'s \<Rightarrow> (nat, store_error) result"
  so_has :: "'s \<Rightarrow> hash \<Rightarrow> bool"
  so_has_at :: "'s \<Rightarrow> nat \<Rightarrow> bool"
  so_update_sampling_metadata :: "'s \<Rightarrow> nat \<Rightarrow> sampling_status \<Rightarrow> cid list \<Rightarrow> (unit, store_error) result \<times> 's"
  so_get_sampling_metadata :: "'s \<Rightarrow> nat \<Rightarrow> (sampling_metadata option, store_error) result"
  so_insert :: "tm_env \<Rightarrow> 's \<Rightarrow> extended_header list \<Rightarrow> (unit, store_error) result \<times> 's"
  so_get_stored_header_ranges :: "'s \<Rightarrow> (block_ranges, store_error) result"
  so_get_accepted_sampling_ranges :: "'s \<Rightarrow> (block_ranges, store_error) result"
  so_remove_last :: "'s \<Rightarrow> (nat, store_error) result \<times> 's"

definition so_get_range ::
  "'s store_ops \<Rightarrow> 's \<Rightarrow> bound \<times> bound \<Rightarrow> (extended_header list, store_error) result" where
  "so_get_range ops s bounds = get_range (so_head_height ops s) (so_get_by_height ops s) bounds"

definition metadata_cids :: "sampling_metadata option \<Rightarrow> cid set" where
  "metadata_cids m = (case m of None \<Rightarrow> {} | Some x \<Rightarrow> set (sm_cids x))"

text \<open>
  On top of the headers: the heights accepted by sampling, and the CIDs recorded for a height, which
  an update only adds to.
\<close>

locale sampled_store =
  header_store st_header_ok st_invar st_headers "so_head_height ops" "so_get_by_height ops"
    "so_get_stored_header_ranges ops" "so_insert ops" "so_remove_last ops"
  for st_header_ok :: "extended_header \<Rightarrow> bool"
    and st_invar :: "'s \<Rightarrow> bool"
    and st_headers :: "'s \<Rightarrow> nat \<rightharpoonup> extended_header"
    and ops :: "'s store_ops" +
  fixes st_accepted :: "'s \<Rightarrow> nat set"
    and st_cids :: "'s \<Rightarrow> nat \<Rightarrow> cid set"
  assumes sa_head: "st_invar s \<Longrightarrow> so_get_head ops s = try_bind (so_head_height ops s) (so_get_by_height ops s)"
    and sa_accepted: "st_invar s \<Longrightarrow>
      \<exists>rs. so_get_accepted_sampling_ranges ops s = Inr rs \<and> canonical rs \<and> heights rs = st_accepted s"
    and sa_metadata: "st_invar s \<Longrightarrow> h \<in> dom (st_headers s) \<Longrightarrow>
      \<exists>m. so_get_sampling_metadata ops s h = Inr m \<and> metadata_cids m = st_cids s h"
    and sa_metadata_missing: "st_invar s \<Longrightarrow> h \<notin> dom (st_headers s) \<Longrightarrow> so_get_sampling_metadata ops s h = Inl NotFound"
    and sa_update: "st_invar s \<Longrightarrow> h \<in> dom (st_headers s) \<Longrightarrow>
      \<exists>s'. so_update_sampling_metadata ops s h st cids = (Inr (), s') \<and> st_invar s' \<and> st_headers s' = st_headers s \<and>
        st_accepted s' = (if st = Accepted then insert h (st_accepted s) else st_accepted s - {h}) \<and>
        st_cids s' = (st_cids s)(h := st_cids s h \<union> set cids)"
    and sa_update_missing: "st_invar s \<Longrightarrow> h \<notin> dom (st_headers s) \<Longrightarrow>
      so_update_sampling_metadata ops s h st cids = (Inl NotFound, s)"
    and sa_insert_keeps: "st_invar s \<Longrightarrow> \<forall>h \<in> set hs. st_header_ok h \<Longrightarrow> so_insert ops env s hs = (Inr (), s') \<Longrightarrow>
      st_accepted s' = st_accepted s"
    and sa_remove_keeps: "st_invar s \<Longrightarrow> so_remove_last ops s = (Inr h, s') \<Longrightarrow>
      st_accepted s' = st_accepted s \<and> (\<forall>k. k \<noteq> h \<longrightarrow> st_cids s' k = st_cids s k)"
begin

lemma ops_get_range_chained:
  assumes "st_invar s" "so_get_range ops s (Included a, Included b) = Inr (x # xs)"
  shows "height x = a \<and> chained x xs"
  using get_range_chained [OF assms(1)] assms(2) by (simp add: so_get_range_def)

end

text \<open>
  A store whose failed insertions change nothing and are never fatal, and that accepts what its
  documentation promises: a chain that meets the insertion constraints, verifies against the stored
  neighbours and has new hashes.
\<close>

definition insertable :: "tm_env \<Rightarrow> (nat \<rightharpoonup> extended_header) \<Rightarrow> extended_header \<Rightarrow> extended_header list \<Rightarrow> bool" where
  "insertable env m x xs \<longleftrightarrow> acceptable env x xs \<and> 0 < height x \<and>
     dom m \<inter> {height x..height (last (x # xs))} = {} \<and>
     (dom m = {} \<or> Max (dom m) < height x \<or> height x - 1 \<in> dom m \<or> height (last (x # xs)) + 1 \<in> dom m) \<and>
     (\<forall>p. m (height x - 1) = Some p \<longrightarrow> verify env p x = Inr ()) \<and>
     (\<forall>q. m (height (last (x # xs)) + 1) = Some q \<longrightarrow> verify env (last (x # xs)) q = Inr ()) \<and>
     distinct (map eh_hash (x # xs)) \<and> (\<forall>h \<in> set (x # xs). \<forall>y \<in> ran m. eh_hash y \<noteq> eh_hash h)"

locale atomic_store = sampled_store +
  assumes st_insert_succeeds: "st_invar s \<Longrightarrow> \<forall>h \<in> set (x # xs). st_header_ok h \<Longrightarrow> insertable env (st_headers s) x xs \<Longrightarrow>
      \<exists>s'. so_insert ops env s (x # xs) = (Inr (), s')"
    and st_insert_error: "st_invar s \<Longrightarrow> \<forall>h \<in> set hs. st_header_ok h \<Longrightarrow> so_insert ops env s hs = (Inl e, s') \<Longrightarrow>
      s' = s \<and> \<not> is_fatal e"
begin

lemma insert_invar:
  assumes "st_invar s" "\<forall>h \<in> set hs. st_header_ok h" "so_insert ops env s hs = (r, s')"
  shows "st_invar s'"
  using st_insert [OF assms(1,2), of env s'] st_insert_error [OF assms(1,2), of env _ s'] assms(1,3)
  by (cases r) fastforce+

lemma insert_keeps_headers:
  assumes "st_invar s" "\<forall>h \<in> set hs. st_header_ok h" "so_insert ops env s hs = (r, s')" "st_headers s k = Some x"
  shows "st_headers s' k = Some x"
proof (cases r)
  case (Inl e)
  then show ?thesis using st_insert_error [OF assms(1,2), of env e s'] assms(3,4) by auto
next
  case (Inr u)
  then have ins: "so_insert ops env s hs = (Inr (), s')" using assms(3) by simp
  note i = st_insert [OF assms(1,2) ins]
  have "headers_map hs k = None" using i assms(4) headers_map_dom [of hs] by (metis IntI domI domIff emptyE)
  then show ?thesis using i assms(4) by (simp add: map_add_def)
qed

end

end
