(* ===== verification/In_Memory_Store.thy ===== *)
theory In_Memory_Store
  imports Store
begin

text \<open>
  The in-memory store, from \<^verbatim>\<open>node/src/store/in_memory_store.rs\<close>. Its state is the record
  \<open>InMemoryStoreInner\<close>; a method that takes \<open>&mut self\<close> returns its result with the new state. The lock
  and the notifier around it only order the calls, so a method is one step of the model. Methods that
  wait for a notification are not modelled.
\<close>

section \<open>State and operations\<close>

record in_memory_store =
  ms_headers :: "hash \<rightharpoonup> extended_header"
  ms_height_to_hash :: "nat \<rightharpoonup> hash"
  ms_header_ranges :: block_ranges
  ms_sampling_data :: "nat \<rightharpoonup> sampling_metadata"
  ms_accepted_sampling_ranges :: block_ranges

definition ms_new :: in_memory_store where
  "ms_new = \<lparr> ms_headers = Map.empty, ms_height_to_hash = Map.empty, ms_header_ranges = new_ranges,
     ms_sampling_data = Map.empty, ms_accepted_sampling_ranges = new_ranges \<rparr>"

definition ms_get_stored_ranges :: "in_memory_store \<Rightarrow> (block_ranges, store_error) result" where
  "ms_get_stored_ranges self = Inr (ms_header_ranges self)"

definition ms_get_accepted_sampling_ranges :: "in_memory_store \<Rightarrow> (block_ranges, store_error) result" where
  "ms_get_accepted_sampling_ranges self = Inr (ms_accepted_sampling_ranges self)"

definition ms_get_head_height :: "in_memory_store \<Rightarrow> (nat, store_error) result" where
  "ms_get_head_height self = ok_or NotFound (head (ms_header_ranges self))"

definition ms_contains_hash :: "in_memory_store \<Rightarrow> hash \<Rightarrow> bool" where
  "ms_contains_hash self h \<longleftrightarrow> ms_headers self h \<noteq> None"

definition ms_get_by_hash :: "in_memory_store \<Rightarrow> hash \<Rightarrow> (extended_header, store_error) result" where
  "ms_get_by_hash self h = ok_or NotFound (ms_headers self h)"

definition ms_contains_height :: "in_memory_store \<Rightarrow> nat \<Rightarrow> bool" where
  "ms_contains_height self h = contains (ms_header_ranges self) h"

definition ms_get_by_height :: "in_memory_store \<Rightarrow> nat \<Rightarrow> (extended_header, store_error) result" where
  "ms_get_by_height self h =
     (case ms_height_to_hash self h of
        None \<Rightarrow> Inl NotFound
      | Some hash \<Rightarrow>
          ok_or (StorePanic ''inconsistent between header hash and header heights'') (ms_headers self hash))"

definition ms_get_head :: "in_memory_store \<Rightarrow> (extended_header, store_error) result" where
  "ms_get_head self = try_bind (ms_get_head_height self) (ms_get_by_height self)"

definition ms_neighbour :: "in_memory_store \<Rightarrow> nat \<Rightarrow> (extended_header, store_error) result" where
  "ms_neighbour self h =
     map_err (\<lambda>e. case e of NotFound \<Rightarrow> StorePanic ''inconsistency between headers and ranges table'' | e \<Rightarrow> e)
       (ms_get_by_height self h)"

definition neighbours_error :: "types_error \<Rightarrow> store_error" where
  "neighbours_error e = InsertionFailed (NeighborsVerificationFailed e)"

definition ms_verify_against_neighbours ::
  "tm_env \<Rightarrow> in_memory_store \<Rightarrow> extended_header option \<Rightarrow> extended_header option \<Rightarrow> (unit, store_error) result" where
  "ms_verify_against_neighbours env self lowest_header highest_header =
     try_bind (case lowest_header of
          None \<Rightarrow> Inr ()
        | Some lowest \<Rightarrow>
            try_bind (ms_neighbour self (height lowest - 1)) (\<lambda>prev.
              map_err neighbours_error (verify env prev lowest))) (\<lambda>_.
     case highest_header of
       None \<Rightarrow> Inr ()
     | Some highest \<Rightarrow>
         try_bind (ms_neighbour self (height highest + 1)) (\<lambda>next.
           map_err neighbours_error (verify env highest next)))"

text \<open>The loop over the headers to insert: the state it leaves when it stops early is kept.\<close>

fun ms_insert_loop :: "in_memory_store \<Rightarrow> extended_header list \<Rightarrow> (unit, store_error) result \<times> in_memory_store" where
  "ms_insert_loop self [] = (Inr (), self)" |
  "ms_insert_loop self (header # rest) =
     (let hash = eh_hash header; h = height header in
      if ms_headers self hash \<noteq> None then (Inl (InsertionFailed (HashExists hash)), self)
      else ms_insert_loop
        (self\<lparr> ms_headers := (ms_headers self)(hash \<mapsto> header),
               ms_height_to_hash := (ms_height_to_hash self)(h \<mapsto> hash) \<rparr>) rest)"

definition ms_insert_verified ::
  "tm_env \<Rightarrow> in_memory_store \<Rightarrow> extended_header list \<Rightarrow> (unit, store_error) result \<times> in_memory_store" where
  "ms_insert_verified env self headers =
     (if headers = [] then (Inr (), self)
      else let hd' = hd headers; tl' = last headers; headers_range = (height hd', height tl') in
        case check_insertion_constraints (ms_header_ranges self) headers_range of
          Inl e \<Rightarrow> (Inl (InsertionFailed (ContraintsNotMet e)), self)
        | Inr (prev_exists, next_exists) \<Rightarrow>
          (case ms_verify_against_neighbours env self (if prev_exists then Some hd' else None)
                  (if next_exists then Some tl' else None) of
             Inl e \<Rightarrow> (Inl e, self)
           | Inr _ \<Rightarrow>
             (case ms_insert_loop self headers of
                (Inl e, self') \<Rightarrow> (Inl e, self')
              | (Inr _, self') \<Rightarrow>
                  (case insert_relaxed (ms_header_ranges self') headers_range of
                     Inl _ \<Rightarrow> (Inl (StorePanic ''invalid range''), self')
                   | Inr rs \<Rightarrow> (Inr (), self'\<lparr> ms_header_ranges := rs \<rparr>)))))"

definition ms_insert ::
  "tm_env \<Rightarrow> in_memory_store \<Rightarrow> extended_header list \<Rightarrow> (unit, store_error) result \<times> in_memory_store" where
  "ms_insert env self headers =
     (case verified_from_vec env headers of
        Inl e \<Rightarrow> (Inl (InsertionFailed (HeadersVerificationFailed e)), self)
      | Inr hs \<Rightarrow> ms_insert_verified env self hs)"

definition update_accepted :: "block_ranges \<Rightarrow> nat \<Rightarrow> sampling_status \<Rightarrow> (block_ranges, store_error) result" where
  "update_accepted rs h status =
     map_err (\<lambda>_. StorePanic ''invalid height'')
       (case status of Accepted \<Rightarrow> insert_relaxed rs (h, h) | _ \<Rightarrow> remove_relaxed rs (h, h))"

definition ms_update_sampling_metadata ::
  "in_memory_store \<Rightarrow> nat \<Rightarrow> sampling_status \<Rightarrow> cid list \<Rightarrow> (unit, store_error) result \<times> in_memory_store" where
  "ms_update_sampling_metadata self h status cids =
     (if \<not> ms_contains_height self h then (Inl NotFound, self)
      else
        let metadata = (case ms_sampling_data self h of
              None \<Rightarrow> \<lparr> sm_status = status, sm_cids = cids \<rparr>
            | Some m \<Rightarrow> m\<lparr> sm_status := status, sm_cids := push_cids (sm_cids m) cids \<rparr>);
            self' = self\<lparr> ms_sampling_data := (ms_sampling_data self)(h \<mapsto> metadata) \<rparr>
        in case update_accepted (ms_accepted_sampling_ranges self') h status of
             Inl e \<Rightarrow> (Inl e, self')
           | Inr rs \<Rightarrow> (Inr (), self'\<lparr> ms_accepted_sampling_ranges := rs \<rparr>))"

definition ms_get_sampling_metadata ::
  "in_memory_store \<Rightarrow> nat \<Rightarrow> (sampling_metadata option, store_error) result" where
  "ms_get_sampling_metadata self h =
     (if \<not> ms_contains_height self h then Inl NotFound else Inr (ms_sampling_data self h))"

definition ms_remove_last :: "in_memory_store \<Rightarrow> (nat, store_error) result \<times> in_memory_store" where
  "ms_remove_last self =
     (case tail (ms_header_ranges self) of
        None \<Rightarrow> (Inl NotFound, self)
      | Some h \<Rightarrow>
        (case ms_height_to_hash self h of
           None \<Rightarrow> (Inl (StoredDataError ''inconsistency between ranges and height_to_hash tables, height {height}''), self)
         | Some hash \<Rightarrow>
           (case ms_headers self hash of
              None \<Rightarrow> (Inl (StoredDataError ''inconsistency between header and height_to_hash tables, hash {hash}''), self)
            | Some _ \<Rightarrow>
                (Inr h, self\<lparr> ms_sampling_data := (ms_sampling_data self)(h := None),
                              ms_height_to_hash := (ms_height_to_hash self)(h := None),
                              ms_headers := (ms_headers self)(hash := None),
                              ms_header_ranges := snd (pop_tail (ms_header_ranges self)) \<rparr>))))"

section \<open>The invariant and the abstraction\<close>

definition ms_map :: "in_memory_store \<Rightarrow> nat \<rightharpoonup> extended_header" where
  "ms_map s h = Option.bind (ms_height_to_hash s h) (ms_headers s)"

text \<open>The two header tables agree with each other.\<close>

definition tables_ok :: "in_memory_store \<Rightarrow> bool" where
  "tables_ok s \<longleftrightarrow>
     (\<forall>h k. ms_height_to_hash s h = Some k \<longrightarrow> (\<exists>x. ms_headers s k = Some x \<and> height x = h)) \<and>
     (\<forall>k x. ms_headers s k = Some x \<longrightarrow> eh_hash x = k \<and> ms_height_to_hash s (height x) = Some k)"

definition ms_invar :: "in_memory_store \<Rightarrow> bool" where
  "ms_invar s \<longleftrightarrow> canonical (ms_header_ranges s) \<and> (\<forall>h \<in> heights (ms_header_ranges s). h \<le> i64_max) \<and>
     tables_ok s \<and> dom (ms_height_to_hash s) = heights (ms_header_ranges s) \<and> linked (ms_map s) \<and>
     canonical (ms_accepted_sampling_ranges s) \<and> dom (ms_sampling_data s) \<subseteq> heights (ms_header_ranges s)"

lemma tables_ok_hash: "tables_ok s \<Longrightarrow> ms_height_to_hash s h = Some k \<Longrightarrow> \<exists>x. ms_headers s k = Some x \<and> height x = h"
  unfolding tables_ok_def by blast

lemma tables_ok_header:
  "tables_ok s \<Longrightarrow> ms_headers s k = Some x \<Longrightarrow> eh_hash x = k \<and> ms_height_to_hash s (height x) = Some k"
  unfolding tables_ok_def by blast

lemma tables_ok_map:
  assumes "tables_ok s"
  shows "ms_map s h = Some x \<longleftrightarrow> ms_headers s (eh_hash x) = Some x \<and> height x = h"
proof
  assume "ms_map s h = Some x"
  then obtain k where k: "ms_height_to_hash s h = Some k" "ms_headers s k = Some x"
    by (auto simp: ms_map_def bind_eq_Some_conv)
  with tables_ok_hash [OF assms k(1)] tables_ok_header [OF assms k(2)]
  show "ms_headers s (eh_hash x) = Some x \<and> height x = h" by auto
next
  assume "ms_headers s (eh_hash x) = Some x \<and> height x = h"
  with tables_ok_header [OF assms, of "eh_hash x" x] show "ms_map s h = Some x" by (simp add: ms_map_def)
qed

lemma tables_ok_dom: "tables_ok s \<Longrightarrow> dom (ms_map s) = dom (ms_height_to_hash s)"
  by (auto simp: ms_map_def dom_def bind_eq_Some_conv dest: tables_ok_hash)

lemma ms_invar_dom: "ms_invar s \<Longrightarrow> dom (ms_map s) = heights (ms_header_ranges s)"
  by (simp add: ms_invar_def tables_ok_dom)

lemma ms_get_by_height_eq:
  assumes "tables_ok s"
  shows "ms_get_by_height s h = ok_or NotFound (ms_map s h)"
  using tables_ok_hash [OF assms, of h]
  by (cases "ms_height_to_hash s h") (auto simp: ms_get_by_height_def ms_map_def)

lemma ms_neighbour_eq:
  "tables_ok s \<Longrightarrow> ms_map s h = Some x \<Longrightarrow> ms_neighbour s h = Inr x"
  by (simp add: ms_neighbour_def ms_get_by_height_eq)

section \<open>Insertion\<close>

lemma insert_step_ok:
  assumes "tables_ok s" "ms_height_to_hash s (height x) = None" "ms_headers s (eh_hash x) = None"
  defines "s' \<equiv> s\<lparr> ms_headers := (ms_headers s)(eh_hash x \<mapsto> x),
                 ms_height_to_hash := (ms_height_to_hash s)(height x \<mapsto> eh_hash x) \<rparr>"
  shows "tables_ok s'" "ms_map s' = (ms_map s)(height x \<mapsto> x)"
proof -
  have fresh: "ms_height_to_hash s h \<noteq> Some (eh_hash x)" for h
    using tables_ok_hash [OF assms(1)] assms(3) by fastforce
  show "ms_map s' = (ms_map s)(height x \<mapsto> x)"
  proof
    fix h
    show "ms_map s' h = ((ms_map s)(height x \<mapsto> x)) h"
      using fresh [of h] by (cases "ms_height_to_hash s h") (auto simp: ms_map_def s'_def)
  qed
  have no: "height y \<noteq> height x" if "ms_headers s k = Some y" for k y
    using tables_ok_header [OF assms(1) that] assms(2) by auto
  show "tables_ok s'"
    unfolding tables_ok_def
  proof (intro conjI allI impI)
    fix h k assume "ms_height_to_hash s' h = Some k"
    then show "\<exists>y. ms_headers s' k = Some y \<and> height y = h"
      using tables_ok_hash [OF assms(1), of h k] fresh [of h] by (auto simp: s'_def split: if_splits)
  next
    fix k y assume y: "ms_headers s' k = Some y"
    then show "eh_hash y = k" using tables_ok_header [OF assms(1), of k y] by (auto simp: s'_def split: if_splits)
    show "ms_height_to_hash s' (height y) = Some k"
      using y tables_ok_header [OF assms(1), of k y] no [of k y] by (auto simp: s'_def split: if_splits)
  qed
qed

lemma insert_loop_ok:
  assumes "tables_ok s" "\<forall>x \<in> set hs. ms_height_to_hash s (height x) = None" "distinct (map height hs)"
    and "ms_insert_loop s hs = (Inr (), s')"
  shows "tables_ok s' \<and> ms_map s' = ms_map s ++ headers_map hs \<and>
    ms_header_ranges s' = ms_header_ranges s \<and> ms_sampling_data s' = ms_sampling_data s \<and>
    ms_accepted_sampling_ranges s' = ms_accepted_sampling_ranges s"
  using assms
proof (induction s hs rule: ms_insert_loop.induct)
  case (1 s)
  then show ?case by (simp add: headers_map_def)
next
  case (2 s x rest)
  let ?s = "s\<lparr> ms_headers := (ms_headers s)(eh_hash x \<mapsto> x),
               ms_height_to_hash := (ms_height_to_hash s)(height x \<mapsto> eh_hash x) \<rparr>"
  have free: "ms_headers s (eh_hash x) = None" and rest: "ms_insert_loop ?s rest = (Inr (), s')"
    using "2.prems"(4) by (auto simp: Let_def split: if_splits)
  note st = insert_step_ok [OF "2.prems"(1) _ free]
  have ok: "tables_ok ?s" "ms_map ?s = (ms_map s)(height x \<mapsto> x)" using st "2.prems"(2) by auto
  have "tables_ok s' \<and> ms_map s' = ms_map ?s ++ headers_map rest \<and>
    ms_header_ranges s' = ms_header_ranges ?s \<and> ms_sampling_data s' = ms_sampling_data ?s \<and>
    ms_accepted_sampling_ranges s' = ms_accepted_sampling_ranges ?s"
  proof (rule "2.IH" [OF refl refl _ ok(1) _ _ rest])
    show "\<forall>y \<in> set rest. ms_height_to_hash ?s (height y) = None" "distinct (map height rest)"
      using "2.prems"(2,3) by (auto simp: image_iff)
  qed (simp add: free)
  moreover have "(ms_map s)(height x \<mapsto> x) ++ headers_map rest = ms_map s ++ headers_map (x # rest)"
  proof -
    have "headers_map rest (height x) = None"
      using "2.prems"(3) by (auto simp: headers_map_def map_of_eq_None_iff)
    then show ?thesis by (auto simp: headers_map_def fun_eq_iff map_add_def split: option.split)
  qed
  ultimately show ?case using ok(2) by simp
qed

lemma insert_loop_error:
  "ms_insert_loop s hs = (Inl e, s') \<Longrightarrow> \<exists>k. e = InsertionFailed (HashExists k)"
  by (induction s hs rule: ms_insert_loop.induct) (auto simp: Let_def split: if_splits)

lemma neighbours_Inr:
  assumes "ms_verify_against_neighbours env s lo hi = Inr ()" "tables_ok s"
  shows "\<And>x p. lo = Some x \<Longrightarrow> ms_map s (height x - 1) = Some p \<Longrightarrow> verify env p x = Inr ()"
    and "\<And>x q. hi = Some x \<Longrightarrow> ms_map s (height x + 1) = Some q \<Longrightarrow> verify env x q = Inr ()"
  using assms ms_neighbour_eq [OF assms(2)]
  by (auto simp: ms_verify_against_neighbours_def try_bind_Inr_iff)


lemma insert_loop_ranges: "ms_insert_loop s hs = (Inr u, s') \<Longrightarrow> ms_header_ranges s' = ms_header_ranges s"
  by (induction s hs rule: ms_insert_loop.induct) (auto simp: Let_def split: if_splits)

lemma neighbours_Inl:
  assumes "ms_verify_against_neighbours env s lo hi = Inl e"
  shows "e \<noteq> InsertionFailed (HashExists k)"
proof -
  have nb: "e' \<noteq> InsertionFailed (HashExists k)" if "ms_neighbour s h = Inl e'" for h e'
    using that by (auto simp: ms_neighbour_def ms_get_by_height_def ok_or_def split: option.splits)
  have er: "e' \<noteq> InsertionFailed (HashExists k)" if "map_err neighbours_error v = Inl e'" for v :: "(unit, types_error) result" and e'
    using that by (cases v) (auto simp: neighbours_error_def)
  show ?thesis
    using assms nb er by (auto simp: ms_verify_against_neighbours_def try_bind_Inl_iff split: option.splits)
qed

lemma neighbours_linked:
  assumes "ms_verify_against_neighbours env s (if height x - 1 \<in> dom (ms_map s) then Some x else None)
      (if height l + 1 \<in> dom (ms_map s) then Some l else None) = Inr ()"
    and "tables_ok s" "0 < height x"
  shows "\<And>p. ms_map s (height x - 1) = Some p \<Longrightarrow> extends p x"
    and "\<And>q. ms_map s (height l + 1) = Some q \<Longrightarrow> extends l q"
proof -
  note nb = neighbours_Inr [OF assms(1,2)]
  show "extends p x" if "ms_map s (height x - 1) = Some p" for p
  proof -
    have "verify env p x = Inr ()" using nb(1) that by (simp add: domI)
    moreover have "height x = height p + 1" using that tables_ok_map [OF assms(2)] assms(3) by simp
    ultimately show ?thesis using verify_adjacent_iff by blast
  qed
  show "extends l q" if "ms_map s (height l + 1) = Some q" for q
  proof -
    have "verify env l q = Inr ()" using nb(2) that by (simp add: domI)
    moreover have "height q = height l + 1" using that tables_ok_map [OF assms(2)] by simp
    ultimately show ?thesis using verify_adjacent_iff by blast
  qed
qed

text \<open>
  The three outcomes of inserting a verified chain: the headers are all added; nothing changes; or a
  hash was already there, found after some headers may have been added.
\<close>

lemma ms_insert_verified_ok:
  assumes inv: "ms_invar s" and ch: "chained x xs" and le: "height (last (x # xs)) \<le> i64_max"
    and al: "insertion_allowed (ms_header_ranges s) (height x, height (last (x # xs)))"
    and nb: "ms_verify_against_neighbours env s (if height x - 1 \<in> dom (ms_map s) then Some x else None)
      (if height (last (x # xs)) + 1 \<in> dom (ms_map s) then Some (last (x # xs)) else None) = Inr ()"
    and lp: "ms_insert_loop s (x # xs) = (Inr (), s')"
    and rs: "insert_relaxed (ms_header_ranges s') (height x, height (last (x # xs))) = Inr rs"
  shows "ms_invar (s'\<lparr> ms_header_ranges := rs \<rparr>)" "ms_map s' = ms_map s ++ headers_map (x # xs)"
    "dom (ms_map s) \<inter> height ` set (x # xs) = {}"
proof -
  have t: "tables_ok s" and dm: "dom (ms_map s) = heights (ms_header_ranges s)"
    "dom (ms_height_to_hash s) = heights (ms_header_ranges s)"
    using inv ms_invar_dom by (auto simp: ms_invar_def)
  have pos: "0 < height x" and disj: "heights (ms_header_ranges s) \<inter> {height x..height (last (x # xs))} = {}"
    using al by (auto simp: insertion_allowed_def valid_range_def)
  note chs = chain_heights [OF ch]
  show "dom (ms_map s) \<inter> height ` set (x # xs) = {}" unfolding dm chs(3) by (rule disj)
  then have "\<forall>y \<in> set (x # xs). ms_height_to_hash s (height y) = None"
    unfolding dm(1) dm(2) [symmetric] by (auto simp: domIff)
  note l = insert_loop_ok [OF t this chs(4) lp]
  then show mp: "ms_map s' = ms_map s ++ headers_map (x # xs)" by blast
  obtain rs' where rs': "insert_relaxed (ms_header_ranges s) (height x, height (last (x # xs))) = Inr rs'"
    "heights rs' = heights (ms_header_ranges s) \<union> {height x..height (last (x # xs))}" "canonical rs'"
    using insert_relaxed_correct [of "ms_header_ranges s" "(height x, height (last (x # xs)))"] inv al canonical_wf
    by (auto simp: ms_invar_def insertion_allowed_def)
  then have r: "heights rs = heights (ms_header_ranges s) \<union> {height x..height (last (x # xs))}" "canonical rs"
    using rs l by auto
  have "linked (ms_map s ++ headers_map (x # xs))"
    using linked_union [OF _ ch pos] neighbours_linked [OF nb t pos] inv by (auto simp: ms_invar_def)
  moreover have "tables_ok (s'\<lparr> ms_header_ranges := rs \<rparr>)" "ms_map (s'\<lparr> ms_header_ranges := rs \<rparr>) = ms_map s'"
    using l by (auto simp: tables_ok_def ms_map_def fun_eq_iff)
  moreover have "dom (ms_height_to_hash s') = heights rs"
  proof -
    have "dom (ms_height_to_hash s') = dom (ms_map s')" using tables_ok_dom l by blast
    also have "\<dots> = dom (ms_map s) \<union> height ` set (x # xs)"
      unfolding mp by (simp only: dom_map_add headers_map_dom Un_commute)
    also have "\<dots> = heights rs" unfolding dm(1) chs(3) r(1) by (rule refl)
    finally show ?thesis .
  qed
  ultimately show "ms_invar (s'\<lparr> ms_header_ranges := rs \<rparr>)"
    using inv l r le mp by (auto simp: ms_invar_def)
qed


lemma ms_insert_verified_cases:
  assumes res: "ms_insert_verified env s (x # xs) = (r, s')" and inv: "ms_invar s" and ch: "chained x xs"
    and le: "height (last (x # xs)) \<le> i64_max"
  obtains
    (inserted) "r = Inr ()" "ms_invar s'" "ms_map s' = ms_map s ++ headers_map (x # xs)"
      "dom (ms_map s) \<inter> height ` set (x # xs) = {}"
  | (refused) e where "r = Inl e" "s' = s" "\<And>k. e \<noteq> InsertionFailed (HashExists k)"
  | (duplicate) k where "r = Inl (InsertionFailed (HashExists k))"
  supply last.simps [simp del]
proof -
  let ?rng = "(height x, height (last (x # xs)))"
  have wf: "wf_ranges (ms_header_ranges s)" and dm: "dom (ms_map s) = heights (ms_header_ranges s)"
    using inv ms_invar_dom canonical_wf by (auto simp: ms_invar_def)
  show thesis
  proof (cases "check_insertion_constraints (ms_header_ranges s) ?rng")
    case (Inl e)
    then show ?thesis using res refused by (auto simp: ms_insert_verified_def Let_def)
  next
    case (Inr pn)
    define nb where "nb = ms_verify_against_neighbours env s (if height x - 1 \<in> dom (ms_map s) then Some x else None)
      (if height (last (x # xs)) + 1 \<in> dom (ms_map s) then Some (last (x # xs)) else None)"
    have al: "insertion_allowed (ms_header_ranges s) ?rng" and
      pn: "pn = (height x - 1 \<in> dom (ms_map s), height (last (x # xs)) + 1 \<in> dom (ms_map s))"
    proof -
      obtain p n where "pn = (p, n)" by fastforce
      with Inr check_insertion_iff [OF wf, of ?rng p n]
      show "insertion_allowed (ms_header_ranges s) ?rng"
        "pn = (height x - 1 \<in> dom (ms_map s), height (last (x # xs)) + 1 \<in> dom (ms_map s))"
        unfolding dm by simp_all
    qed
    have res': "(r, s') = (case nb of Inl e \<Rightarrow> (Inl e, s) | Inr _ \<Rightarrow>
        (case ms_insert_loop s (x # xs) of (Inl e, t) \<Rightarrow> (Inl e, t) | (Inr _, t) \<Rightarrow>
          (case insert_relaxed (ms_header_ranges t) ?rng of
             Inl _ \<Rightarrow> (Inl (StorePanic ''invalid range''), t)
           | Inr rs \<Rightarrow> (Inr (), t\<lparr> ms_header_ranges := rs \<rparr>))))"
      using res Inr pn by (simp add: ms_insert_verified_def Let_def nb_def)
    show ?thesis
    proof (cases nb)
      case (Inl e)
      then show ?thesis using res' refused neighbours_Inl unfolding nb_def by fastforce
    next
      case (Inr u)
      obtain lr t where lp: "ms_insert_loop s (x # xs) = (lr, t)" by fastforce
      show ?thesis
      proof (cases lr)
        case (Inl e)
        then show ?thesis using res' Inr lp insert_loop_error duplicate by fastforce
      next
        case lr: (Inr v)
        have tr: "ms_header_ranges t = ms_header_ranges s"
          using insert_loop_ranges lp lr by blast
        have v: "valid_range ?rng" using al by (simp add: insertion_allowed_def)
        obtain rs where rs: "insert_relaxed (ms_header_ranges t) ?rng = Inr rs"
          unfolding tr by (rule insert_relaxed_correct [OF wf v])
        note ok = ms_insert_verified_ok [OF inv ch le al _ _ rs]
        show ?thesis
        proof (rule inserted)
          have "r = Inr ()" and s': "s' = t\<lparr> ms_header_ranges := rs \<rparr>"
            using res' Inr lp lr rs by simp_all
          then show "r = Inr ()" by simp
          have loop: "ms_insert_loop s (x # xs) = (Inr (), t)" using lp lr by simp
          show "ms_invar s'" "dom (ms_map s) \<inter> height ` set (x # xs) = {}"
            using ok [OF _ loop] Inr unfolding s' by (simp_all add: nb_def)
          have "ms_map s' = ms_map t" unfolding s' by (simp add: ms_map_def fun_eq_iff)
          then show "ms_map s' = ms_map s ++ headers_map (x # xs)"
            using ok [OF _ loop] Inr by (simp add: nb_def)
        qed
      qed
    qed
  qed
qed


lemma ms_insert_cases:
  assumes res: "ms_insert env s hs = (r, s')" and inv: "ms_invar s" and le: "\<forall>h \<in> set hs. height h \<le> i64_max"
  obtains
    (inserted) "r = Inr ()" "ms_invar s'" "ms_map s' = ms_map s ++ headers_map hs"
      "dom (ms_map s) \<inter> height ` set hs = {}" "distinct (map height hs)"
  | (refused) e where "r = Inl e" "s' = s" "\<And>k. e \<noteq> InsertionFailed (HashExists k)"
  | (duplicate) k where "r = Inl (InsertionFailed (HashExists k))"
proof (cases hs)
  case Nil
  then have "r = Inr ()" "s' = s"
    using res by (auto simp: ms_insert_def verified_from_vec_def ms_insert_verified_def)
  then show ?thesis using inserted inv Nil by (simp add: headers_map_def)
next
  case (Cons x xs)
  show ?thesis
  proof (cases "verified_from_vec env hs")
    case (Inl e)
    then show ?thesis using res refused by (auto simp: ms_insert_def)
  next
    case (Inr hs')
    then have "hs' = x # xs" and ch: "chained x xs"
      using Cons by (auto simp: verified_from_vec_iff acceptable_def)
    then have v: "ms_insert_verified env s (x # xs) = (r, s')" using res Inr by (simp add: ms_insert_def)
    have "height (last (x # xs)) \<le> i64_max" using le Cons by auto
    then show ?thesis
      using ms_insert_verified_cases [OF v inv ch] inserted refused duplicate Cons chain_heights(4) [OF ch]
      by metis
  qed
qed

text \<open>The only errors of an insertion into a consistent store are the insertion errors.\<close>

lemma neighbours_error_kind:
  assumes "tables_ok s" "ms_verify_against_neighbours env s lo hi = Inl e"
    and "\<And>x. lo = Some x \<Longrightarrow> height x - 1 \<in> dom (ms_map s)" "\<And>x. hi = Some x \<Longrightarrow> height x + 1 \<in> dom (ms_map s)"
  shows "\<exists>k. e = InsertionFailed k"
proof -
  have er: "\<exists>k. e' = InsertionFailed k" if "map_err neighbours_error v = Inl e'" for v :: "(unit, types_error) result" and e'
    using that by (cases v) (auto simp: neighbours_error_def)
  show ?thesis
    using assms(2,3,4) ms_neighbour_eq [OF assms(1)] er
    by (cases lo; cases hi) (fastforce simp: ms_verify_against_neighbours_def try_bind_Inl_iff)+
qed

lemma ms_insert_verified_error:
  assumes inv: "ms_invar s" and res: "ms_insert_verified env s (x # xs) = (Inl e, s')"
  shows "\<exists>k. e = InsertionFailed k"
  supply last.simps [simp del] ms_insert_loop.simps [simp del]
proof -
  let ?rng = "(height x, height (last (x # xs)))"
  have wf: "wf_ranges (ms_header_ranges s)" and dm: "dom (ms_map s) = heights (ms_header_ranges s)" and t: "tables_ok s"
    using inv ms_invar_dom canonical_wf by (auto simp: ms_invar_def)
  show ?thesis
  proof (cases "check_insertion_constraints (ms_header_ranges s) ?rng")
    case (Inl e)
    then show ?thesis using res by (auto simp: ms_insert_verified_def Let_def)
  next
    case (Inr pn)
    then obtain p n where ci: "check_insertion_constraints (ms_header_ranges s) ?rng = Inr (p, n)" by (cases pn) auto
    with check_insertion_iff [OF wf] have al: "insertion_allowed (ms_header_ranges s) ?rng"
      and pn: "p \<longleftrightarrow> height x - 1 \<in> dom (ms_map s)" "n \<longleftrightarrow> height (last (x # xs)) + 1 \<in> dom (ms_map s)"
      unfolding dm by simp_all
    let ?lo = "if p then Some x else None" and ?hi = "if n then Some (last (x # xs)) else None"
    show ?thesis
    proof (cases "ms_verify_against_neighbours env s ?lo ?hi")
      case (Inl e')
      then have "e = e'" using res ci by (simp add: ms_insert_verified_def Let_def)
      with Inl neighbours_error_kind [OF t Inl] pn show ?thesis by (auto split: if_splits)
    next
      case nb: (Inr u)
      obtain lr m1 where lp: "ms_insert_loop s (x # xs) = (lr, m1)" by fastforce
      have "valid_range ?rng" using al by (simp add: insertion_allowed_def)
      then have "\<exists>rs. insert_relaxed (ms_header_ranges m1) ?rng = Inr rs" if "lr = Inr v" for v
        using insert_relaxed_correct [OF wf, of ?rng] insert_loop_ranges lp that by metis
      with res ci nb lp show ?thesis
        by (cases lr) (use insert_loop_error in \<open>fastforce simp: ms_insert_verified_def Let_def\<close>)+
    qed
  qed
qed

lemma ms_insert_error:
  assumes "ms_invar s" "ms_insert env s hs = (Inl e, s')"
  shows "\<exists>k. e = InsertionFailed k"
proof (cases "verified_from_vec env hs")
  case (Inr hs')
  then have "ms_insert_verified env s hs' = (Inl e, s')" using assms(2) by (simp add: ms_insert_def)
  then show ?thesis using ms_insert_verified_error [OF assms(1)]
    by (cases hs') (auto simp: ms_insert_verified_def)
qed (use assms(2) in \<open>auto simp: ms_insert_def\<close>)

text \<open>Insertion succeeds where the documentation promises it.\<close>

lemma insert_loop_succeeds:
  assumes "distinct (map eh_hash hs)" "\<forall>h \<in> set hs. ms_headers s (eh_hash h) = None"
  shows "\<exists>s'. ms_insert_loop s hs = (Inr (), s')"
  using assms
proof (induction hs arbitrary: s)
  case (Cons x xs)
  let ?s = "s\<lparr> ms_headers := (ms_headers s)(eh_hash x \<mapsto> x),
               ms_height_to_hash := (ms_height_to_hash s)(height x \<mapsto> eh_hash x) \<rparr>"
  have "\<forall>h \<in> set xs. ms_headers ?s (eh_hash h) = None"
    using Cons.prems by (auto simp: image_iff)
  then show ?case using Cons.IH [of ?s] Cons.prems by (simp add: Let_def)
qed simp

lemma ms_insert_succeeds:
  assumes inv: "ms_invar s" and ins: "insertable env (ms_map s) x xs"
  shows "\<exists>s'. ms_insert env s (x # xs) = (Inr (), s')"
  supply last.simps [simp del] ms_insert_loop.simps [simp del]
proof -
  let ?l = "last (x # xs)" and ?rng = "(height x, height (last (x # xs)))"
  have wf: "wf_ranges (ms_header_ranges s)" and dm: "dom (ms_map s) = heights (ms_header_ranges s)" and t: "tables_ok s"
    using inv ms_invar_dom canonical_wf by (auto simp: ms_invar_def)
  have acc: "acceptable env x xs" using ins by (simp add: insertable_def)
  then have ver: "verified_from_vec env (x # xs) = Inr (x # xs)" by (simp add: verified_from_vec_iff)
  have "height x \<le> height ?l" using chain_heights(2) acc by (auto simp: acceptable_def)
  then have al: "insertion_allowed (ms_header_ranges s) ?rng"
    using ins unfolding insertable_def dm by (auto simp: insertion_allowed_def valid_range_def)
  then have ci: "check_insertion_constraints (ms_header_ranges s) ?rng =
      Inr (height x - 1 \<in> dom (ms_map s), height ?l + 1 \<in> dom (ms_map s))"
    using check_insertion_iff [OF wf, of ?rng] unfolding dm by simp
  have nb: "ms_verify_against_neighbours env s (if height x - 1 \<in> dom (ms_map s) then Some x else None)
      (if height ?l + 1 \<in> dom (ms_map s) then Some ?l else None) = Inr ()"
    using ins ms_neighbour_eq [OF t] by (auto simp: ms_verify_against_neighbours_def insertable_def)
  have "\<forall>h \<in> set (x # xs). ms_headers s (eh_hash h) = None"
  proof
    fix h assume h: "h \<in> set (x # xs)"
    show "ms_headers s (eh_hash h) = None"
    proof (rule ccontr)
      assume "ms_headers s (eh_hash h) \<noteq> None"
      then obtain y where y: "ms_headers s (eh_hash h) = Some y" by blast
      then have "eh_hash y = eh_hash h" "ms_map s (height y) = Some y"
        using tables_ok_header [OF t y] by (auto simp: ms_map_def)
      moreover have "\<forall>h \<in> set (x # xs). \<forall>y \<in> ran (ms_map s). eh_hash y \<noteq> eh_hash h"
        using ins unfolding insertable_def by blast
      ultimately show False using h ranI [of "ms_map s" "height y" y] by blast
    qed
  qed
  then obtain s1 where lp: "ms_insert_loop s (x # xs) = (Inr (), s1)"
    using insert_loop_succeeds [of "x # xs" s] ins by (auto simp: insertable_def)
  have v: "valid_range ?rng" using al by (simp add: insertion_allowed_def)
  obtain rs where "insert_relaxed (ms_header_ranges s1) ?rng = Inr rs"
    unfolding insert_loop_ranges [OF lp] by (rule insert_relaxed_correct [OF wf v])
  then show ?thesis using ver ci nb lp by (simp add: ms_insert_def ms_insert_verified_def Let_def)
qed

section \<open>Removal and sampling metadata\<close>

lemma linked_remove: "linked m \<Longrightarrow> linked (m(h := None))"
  by (simp add: linked_def)

lemma ms_remove_last_ok:
  assumes inv: "ms_invar s" and ne: "dom (ms_map s) \<noteq> {}"
  shows "\<exists>s'. ms_remove_last s = (Inr (Min (dom (ms_map s))), s') \<and> ms_invar s' \<and>
    ms_map s' = (ms_map s)(Min (dom (ms_map s)) := None)"
proof -
  let ?h = "Min (dom (ms_map s))"
  have t: "tables_ok s" and can: "canonical (ms_header_ranges s)" and lk: "linked (ms_map s)"
    and dm: "dom (ms_map s) = heights (ms_header_ranges s)"
    and dh: "dom (ms_height_to_hash s) = heights (ms_header_ranges s)"
    and le: "\<forall>h \<in> heights (ms_header_ranges s). h \<le> i64_max"
    using inv ms_invar_dom by (auto simp: ms_invar_def)
  have u: "u64_ranges (ms_header_ranges s)"
    using u64_ranges_heights [OF canonical_wf [OF can]] le by (auto simp: i64_max_def u64_max_def)
  have "?h \<in> dom (ms_map s)" using ne dm by (intro Min_in) auto
  then obtain k where k: "ms_height_to_hash s ?h = Some k" using dm dh by blast
  then obtain x where x: "ms_headers s k = Some x" "height x = ?h" using tables_ok_hash [OF t k] by blast
  have "ms_header_ranges s \<noteq> []" using ne dm by auto
  then have tl: "tail (ms_header_ranges s) = Some ?h"
    using tail_correct [OF canonical_wf [OF can]] dm by simp
  obtain o' rs where pop: "pop_tail (ms_header_ranges s) = (o', rs)" by fastforce
  have rs: "heights rs = heights (ms_header_ranges s) - {?h}" "canonical rs"
    using pop_tail_correct [OF canonical_wf [OF can] u pop] tl can by auto
  define s' where "s' = s\<lparr> ms_sampling_data := (ms_sampling_data s)(?h := None),
    ms_height_to_hash := (ms_height_to_hash s)(?h := None), ms_headers := (ms_headers s)(k := None),
    ms_header_ranges := rs \<rparr>"
  have res: "ms_remove_last s = (Inr ?h, s')"
    using tl k x pop by (simp add: ms_remove_last_def s'_def)
  have other: "ms_height_to_hash s h \<noteq> Some k" if "h \<noteq> ?h" for h
    using tables_ok_hash [OF t, of h k] x that by auto
  have mp: "ms_map s' = (ms_map s)(?h := None)"
  proof
    fix h show "ms_map s' h = ((ms_map s)(?h := None)) h"
      using other [of h] by (cases "ms_height_to_hash s h") (auto simp: ms_map_def s'_def)
  qed
  have "tables_ok s'"
    unfolding tables_ok_def
  proof (intro conjI allI impI)
    fix h j assume "ms_height_to_hash s' h = Some j"
    then show "\<exists>y. ms_headers s' j = Some y \<and> height y = h"
      using tables_ok_hash [OF t, of h j] other [of h] by (auto simp: s'_def split: if_splits)
  next
    fix j y assume y: "ms_headers s' j = Some y"
    then show "eh_hash y = j" using tables_ok_header [OF t, of j y] by (auto simp: s'_def split: if_splits)
    show "ms_height_to_hash s' (height y) = Some j"
      using y tables_ok_header [OF t, of j y] k by (auto simp: s'_def split: if_splits)
  qed
  moreover have "dom (ms_height_to_hash s') = heights rs" using dh rs(1) by (auto simp: s'_def)
  ultimately have "ms_invar s'"
    using inv rs mp linked_remove [OF lk, of ?h] by (auto simp: ms_invar_def s'_def)
  with res mp show ?thesis by blast
qed

lemma ms_remove_last_empty:
  assumes "ms_invar s" "dom (ms_map s) = {}"
  shows "ms_remove_last s = (Inl NotFound, s)"
proof -
  have "ms_header_ranges s = []"
    using assms ms_invar_dom wf_heights_empty canonical_wf by (auto simp: ms_invar_def)
  then show ?thesis by (simp add: ms_remove_last_def tail_def)
qed

lemma update_accepted_ok:
  assumes "canonical rs" "0 < h"
  shows "\<exists>rs'. update_accepted rs h st = Inr rs' \<and> canonical rs' \<and>
    heights rs' = (if st = Accepted then insert h (heights rs) else heights rs - {h})"
proof (cases "st = Accepted")
  case True
  then show ?thesis
    using ranges.hs_insert [of rs "(h, h)"] assms by (auto simp: update_accepted_def)
next
  case False
  then show ?thesis
    using ranges.hs_remove [of rs "(h, h)"] assms by (cases st) (auto simp: update_accepted_def)
qed

lemma ms_update_sampling_ok:
  assumes inv: "ms_invar s" and h: "h \<in> dom (ms_map s)"
  shows "\<exists>s'. ms_update_sampling_metadata s h st cids = (Inr (), s') \<and> ms_invar s' \<and> ms_map s' = ms_map s \<and>
    ms_header_ranges s' = ms_header_ranges s \<and>
    heights (ms_accepted_sampling_ranges s') =
      (if st = Accepted then insert h (heights (ms_accepted_sampling_ranges s))
       else heights (ms_accepted_sampling_ranges s) - {h}) \<and>
    ms_sampling_data s' = (ms_sampling_data s)(h \<mapsto> (case ms_sampling_data s h of
      None \<Rightarrow> \<lparr> sm_status = st, sm_cids = cids \<rparr>
    | Some m \<Rightarrow> \<lparr> sm_status = st, sm_cids = push_cids (sm_cids m) cids \<rparr>))"
proof -
  have hr: "h \<in> heights (ms_header_ranges s)" using h ms_invar_dom [OF inv] by simp
  then have "0 < h" using heights_pos canonical_wf inv by (auto simp: ms_invar_def)
  then obtain rs where rs: "update_accepted (ms_accepted_sampling_ranges s) h st = Inr rs" "canonical rs"
    "heights rs = (if st = Accepted then insert h (heights (ms_accepted_sampling_ranges s))
       else heights (ms_accepted_sampling_ranges s) - {h})"
    using update_accepted_ok inv by (metis ms_invar_def)
  have "ms_contains_height s h" using hr by (simp add: ms_contains_height_def contains_iff)
  with rs inv hr show ?thesis
    by (auto simp: ms_update_sampling_metadata_def Let_def ms_invar_def tables_ok_def ms_map_def
        linked_def split: option.splits)
qed

interpretation mem: header_store "\<lambda>h. height h \<le> i64_max" ms_invar ms_map ms_get_head_height ms_get_by_height
  ms_get_stored_ranges ms_insert ms_remove_last
proof (unfold_locales, goal_cases)
  case (1 s)
  then show ?case by (auto simp: keyed_by_height_def ms_invar_def tables_ok_map)
next
  case (2 s)
  then show ?case by (simp add: ms_invar_def)
next
  case (3 s)
  then show ?case using ms_invar_dom by (auto simp: ms_get_stored_ranges_def ms_invar_def)
next
  case (4 s)
  then have "wf_ranges (ms_header_ranges s)" by (simp add: ms_invar_def canonical_wf)
  from head_correct [OF this] wf_heights_empty [OF this] show ?case
    by (simp add: ms_get_head_height_def ms_invar_dom [OF 4])
next
  case (5 s h)
  then show ?case by (simp add: ms_get_by_height_eq ms_invar_def)
next
  case (6 s hs env s')
  show ?case by (rule ms_insert_cases [OF 6(3,1,2)]) auto
next
  case (7 s)
  then show ?case by (rule ms_remove_last_ok)
next
  case (8 s)
  then show ?case by (rule ms_remove_last_empty)
next
  case (9 s h)
  then show ?case using ms_invar_dom [OF 9(1)] by (simp add: ms_invar_def)
qed

definition mem_ops :: "in_memory_store store_ops" where
  "mem_ops = \<lparr> so_get_head = ms_get_head, so_get_by_hash = ms_get_by_hash, so_get_by_height = ms_get_by_height,
     so_head_height = ms_get_head_height, so_has = ms_contains_hash, so_has_at = ms_contains_height,
     so_update_sampling_metadata = ms_update_sampling_metadata, so_get_sampling_metadata = ms_get_sampling_metadata,
     so_insert = ms_insert, so_get_stored_header_ranges = ms_get_stored_ranges,
     so_get_accepted_sampling_ranges = ms_get_accepted_sampling_ranges, so_remove_last = ms_remove_last \<rparr>"

definition ms_accepted :: "in_memory_store \<Rightarrow> nat set" where
  "ms_accepted s = heights (ms_accepted_sampling_ranges s)"

definition ms_cids :: "in_memory_store \<Rightarrow> nat \<Rightarrow> cid set" where
  "ms_cids s h = metadata_cids (ms_sampling_data s h)"

lemma ms_contains_height_iff: "ms_invar s \<Longrightarrow> ms_contains_height s h \<longleftrightarrow> h \<in> dom (ms_map s)"
  using ms_invar_dom by (simp add: ms_contains_height_def contains_iff)

lemma ms_insert_loop_accepted: "ms_insert_loop s hs = (r, s') \<Longrightarrow> ms_accepted_sampling_ranges s' = ms_accepted_sampling_ranges s"
  by (induction s hs rule: ms_insert_loop.induct) (auto simp: Let_def split: if_splits)

lemma ms_insert_accepted: "ms_insert env s hs = (r, s') \<Longrightarrow> ms_accepted_sampling_ranges s' = ms_accepted_sampling_ranges s"
  by (auto simp: ms_insert_def ms_insert_verified_def Let_def dest: ms_insert_loop_accepted
      split: sum.splits prod.splits if_splits)

lemma ms_cids_update:
  assumes "ms_sampling_data s' = (ms_sampling_data s)(h \<mapsto> (case ms_sampling_data s h of
      None \<Rightarrow> \<lparr> sm_status = st, sm_cids = cids \<rparr>
    | Some m \<Rightarrow> \<lparr> sm_status = st, sm_cids = push_cids (sm_cids m) cids \<rparr>))"
  shows "ms_cids s' = (ms_cids s)(h := ms_cids s h \<union> set cids)"
  using assms by (auto simp: ms_cids_def metadata_cids_def fun_eq_iff push_cids_set split: option.splits)

interpretation memory: sampled_store "\<lambda>h. height h \<le> i64_max" ms_invar ms_map mem_ops ms_accepted ms_cids
proof -
  have hs: "header_store (\<lambda>h. height h \<le> i64_max) ms_invar ms_map (so_head_height mem_ops) (so_get_by_height mem_ops)
      (so_get_stored_header_ranges mem_ops) (so_insert mem_ops) (so_remove_last mem_ops)"
    using mem.header_store_axioms by (simp add: mem_ops_def)
  show "sampled_store (\<lambda>h. height h \<le> i64_max) ms_invar ms_map mem_ops ms_accepted ms_cids"
  proof (intro sampled_store.intro sampled_store_axioms.intro hs, goal_cases)
    case (1 s)
    then show ?case by (simp add: mem_ops_def ms_get_head_def)
  next
    case (2 s)
    then show ?case by (auto simp: mem_ops_def ms_get_accepted_sampling_ranges_def ms_accepted_def ms_invar_def)
  next
    case (3 s h)
    then show ?case by (simp add: mem_ops_def ms_get_sampling_metadata_def ms_contains_height_iff ms_cids_def)
  next
    case (4 s h)
    then show ?case by (simp add: mem_ops_def ms_get_sampling_metadata_def ms_contains_height_iff)
  next
    case (5 s h st cids)
    then obtain s' where "ms_update_sampling_metadata s h st cids = (Inr (), s')" "ms_invar s'" "ms_map s' = ms_map s"
      "ms_accepted s' = (if st = Accepted then insert h (ms_accepted s) else ms_accepted s - {h})"
      "ms_cids s' = (ms_cids s)(h := ms_cids s h \<union> set cids)"
      using ms_update_sampling_ok [OF 5, of st cids] ms_cids_update unfolding ms_accepted_def by metis
    then show ?case by (auto simp: mem_ops_def)
  next
    case (6 s h st cids)
    then show ?case by (simp add: mem_ops_def ms_update_sampling_metadata_def ms_contains_height_iff)
  next
    case (7 s hs env s')
    then show ?case using ms_insert_accepted by (simp add: mem_ops_def ms_accepted_def)
  next
    case (8 s h s')
    then show ?case
      by (auto simp: mem_ops_def ms_accepted_def ms_cids_def ms_remove_last_def split: option.splits)
  qed
qed

section \<open>Reachable states\<close>

text \<open>
  The store as a state machine: each step is one call of a method that returns. Insertions that report
  an existing hash are left out, since they can leave the tables half filled (see below).
\<close>

inductive ms_step :: "tm_env \<Rightarrow> in_memory_store \<Rightarrow> in_memory_store \<Rightarrow> bool" where
  step_insert: "\<forall>h \<in> set hs. height h \<le> i64_max \<Longrightarrow> ms_insert env s hs = (r, s') \<Longrightarrow>
    (\<And>k. r \<noteq> Inl (InsertionFailed (HashExists k))) \<Longrightarrow> ms_step env s s'"
| step_update: "ms_update_sampling_metadata s h st cids = (r, s') \<Longrightarrow> ms_step env s s'"
| step_remove: "ms_remove_last s = (r, s') \<Longrightarrow> ms_step env s s'"

inductive_cases ms_step_cases: "ms_step env s s'"

definition ms_reachable :: "tm_env \<Rightarrow> in_memory_store \<Rightarrow> bool" where
  "ms_reachable env s \<longleftrightarrow> (ms_step env)\<^sup>*\<^sup>* ms_new s"

lemma ms_new_invar: "ms_invar ms_new"
  by (simp add: ms_new_def ms_invar_def new_ranges_def tables_ok_def linked_def ms_map_def)

lemma ms_step_invar: "ms_step env s s' \<Longrightarrow> ms_invar s \<Longrightarrow> ms_invar s'"
proof (induction rule: ms_step.induct)
  case (step_insert hs env s r s')
  show ?case by (rule ms_insert_cases [OF step_insert(2,4,1)]) (use step_insert in auto)
next
  case (step_update s h st cids r s' env)
  show ?case
  proof (cases "h \<in> dom (ms_map s)")
    case True
    then show ?thesis using ms_update_sampling_ok [OF step_update(2) True, of st cids] step_update(1) by auto
  next
    case False
    then have "\<not> ms_contains_height s h"
      using ms_invar_dom [OF step_update(2)] by (simp add: ms_contains_height_def contains_iff)
    then show ?thesis using step_update by (simp add: ms_update_sampling_metadata_def)
  qed
next
  case (step_remove s r s' env)
  then show ?case using ms_remove_last_ok [of s] ms_remove_last_empty [of s] by fastforce
qed

lemma ms_reachable_invar: "ms_reachable env s \<Longrightarrow> ms_invar s"
  unfolding ms_reachable_def
  by (induction rule: rtranclp_induct) (auto intro: ms_new_invar ms_step_invar)

text \<open>A store with the first two headers of the sample chain.\<close>

definition sample_store :: in_memory_store where
  "sample_store = snd (ms_insert sample_env ms_new [sample_header 1, sample_header 2])"

lemma sample_eh_hash [simp]: "eh_hash (sample_header h) = Sha256 (replicate h 1)"
  by (simp add: eh_hash_def sample_header_def sample_commit_def)

lemma sample_verified:
  "verified_from_vec sample_env [sample_header 1, sample_header 2] = Inr [sample_header 1, sample_header 2]"
  using sample_acceptable [of 1 1] by (simp add: verified_from_vec_iff numeral_2_eq_2)

lemma sample_insert: "ms_insert sample_env ms_new [sample_header 1, sample_header 2] = (Inr (), sample_store)"
proof -
  have "fst (ms_insert sample_env ms_new [sample_header 1, sample_header 2]) = Inr ()"
    by (simp add: ms_insert_def sample_verified [unfolded One_nat_def numeral_2_eq_2] ms_insert_verified_def Let_def ms_new_def new_ranges_def
        check_insertion_constraints_def valid_range_def ms_verify_against_neighbours_def insert_relaxed_def
        find_affected_ranges_def insert_in_order.simps numeral_2_eq_2)
  then show ?thesis unfolding sample_store_def by (metis prod.collapse)
qed

lemma sample_store_reachable: "ms_reachable sample_env sample_store"
  unfolding ms_reachable_def
  by (rule r_into_rtranclp, rule step_insert [OF _ sample_insert]) (simp_all add: i64_max_def)

lemma sample_store_get:
  "ms_get_by_height sample_store 1 = Inr (sample_header 1)" "ms_get_by_height sample_store 2 = Inr (sample_header 2)"
  using mem.get_after_insert [OF ms_new_invar _ sample_insert, of "sample_header 1"]
    mem.get_after_insert [OF ms_new_invar _ sample_insert, of "sample_header 2"]
  by (simp_all add: i64_max_def)

section \<open>Correctness of the in-memory store\<close>

text \<open>
  (C2) Inserting headers into a consistent store either adds all of them, so that each is found by its
  height and by its hash and nothing stored before is lost; or returns an error and changes nothing;
  or reports that a hash exists.
\<close>

theorem ms_insert_outcomes:
  assumes "ms_invar s" "\<forall>h \<in> set hs. height h \<le> i64_max" "ms_insert env s hs = (r, s')"
  shows "r = Inr () \<and> ms_invar s' \<and>
      (\<forall>h \<in> set hs. ms_get_by_height s' (height h) = Inr h \<and> ms_get_by_hash s' (eh_hash h) = Inr h) \<and>
      (\<forall>k x. ms_get_by_height s k = Inr x \<longrightarrow> ms_get_by_height s' k = Inr x)
    \<or> (\<exists>e. r = Inl e \<and> s' = s) \<or> (\<exists>k. r = Inl (InsertionFailed (HashExists k)))"
proof (rule ms_insert_cases [OF assms(3,1,2)])
  assume ok: "r = Inr ()" "ms_invar s'" "ms_map s' = ms_map s ++ headers_map hs"
  have "ms_get_by_height s' (height h) = Inr h \<and> ms_get_by_hash s' (eh_hash h) = Inr h" if "h \<in> set hs" for h
  proof -
    have g: "ms_get_by_height s' (height h) = Inr h"
      using mem.get_after_insert [OF assms(1,2) _ that] assms(3) ok(1) by blast
    have t: "tables_ok s'" using ok(2) by (simp add: ms_invar_def)
    have "ms_map s' (height h) = Some h" using g ms_get_by_height_eq [OF t] by simp
    then have "ms_headers s' (eh_hash h) = Some h" using tables_ok_map [OF t] by simp
    with g show ?thesis by (simp add: ms_get_by_hash_def)
  qed
  then show ?thesis
    using ok mem.get_kept_by_insert [OF assms(1,2)] assms(3) by blast
qed auto

theorem ms_insert_outcomes_witness:
  "case ms_insert sample_env ms_new [sample_header 1, sample_header 2] of (r, s') \<Rightarrow>
     r = Inr () \<and> ms_invar s' \<and>
      (\<forall>h \<in> set [sample_header 1, sample_header 2].
         ms_get_by_height s' (height h) = Inr h \<and> ms_get_by_hash s' (eh_hash h) = Inr h) \<and>
      (\<forall>k x. ms_get_by_height ms_new k = Inr x \<longrightarrow> ms_get_by_height s' k = Inr x)
    \<or> (\<exists>e. r = Inl e \<and> s' = ms_new) \<or> (\<exists>k. r = Inl (InsertionFailed (HashExists k)))"
  using ms_insert_outcomes [OF ms_new_invar, of "[sample_header 1, sample_header 2]" sample_env]
  by (cases "ms_insert sample_env ms_new [sample_header 1, sample_header 2]") (simp add: i64_max_def)



text \<open>
  Removing the last header of a non-empty consistent store returns the lowest stored height,
  forgets that header and its sampling metadata, keeps all others and keeps the store consistent.
\<close>

lemma ms_remove_last_lowest:
  assumes "ms_invar s" "ms_contains_height s h0"
  shows "\<exists>h s'. ms_remove_last s = (Inr h, s') \<and> ms_invar s' \<and> ms_contains_height s h \<and>
    (\<forall>k. ms_contains_height s k \<longrightarrow> h \<le> k) \<and>
    (\<forall>k. ms_contains_height s' k \<longleftrightarrow> ms_contains_height s k \<and> k \<noteq> h) \<and>
    (\<forall>k. k \<noteq> h \<longrightarrow> ms_get_by_height s' k = ms_get_by_height s k)"
proof -
  have c: "ms_contains_height t k \<longleftrightarrow> k \<in> dom (ms_map t)" if "ms_invar t" for t k
    using ms_invar_dom [OF that] by (simp add: ms_contains_height_def contains_iff)
  have ne: "dom (ms_map s) \<noteq> {}" using assms c by blast
  obtain s' where s': "ms_remove_last s = (Inr (Min (dom (ms_map s))), s')" "ms_invar s'"
    "ms_map s' = (ms_map s)(Min (dom (ms_map s)) := None)"
    using ms_remove_last_ok [OF assms(1) ne] by blast
  have fin: "finite (dom (ms_map s))" by (rule mem.finite_dom [OF assms(1)])
  have get: "ms_get_by_height t k = ok_or NotFound (ms_map t k)" if "ms_invar t" for t k
    using that by (rule mem.st_get_by_height)
  show ?thesis
    using s' Min_in [OF fin ne] Min_le [OF fin] assms(1)
    by (intro exI [of _ "Min (dom (ms_map s))"] exI [of _ s']) (auto simp: c get)
qed

text \<open>
  The error that a hash exists is found inside the loop that fills the tables, which does not undo what
  it did: two headers with one hash leave the first one in the tables, found by its height, but not in
  the stored ranges.
\<close>

definition twin_header :: extended_header where
  "twin_header = (sample_header 2)\<lparr> eh_commit := (sample_commit 2)\<lparr> commit_block_id :=
     (commit_block_id (sample_commit 1)) \<rparr> \<rparr>"

theorem ms_insert_not_atomic:
  "\<exists>s'. ms_insert sample_env ms_new [sample_header 1, twin_header] =
      (Inl (InsertionFailed (HashExists (Sha256 [1]))), s') \<and>
    ms_get_by_height s' 1 = Inr (sample_header 1) \<and> \<not> ms_contains_height s' 1"
proof -
  have tw: "height twin_header = 2" "eh_hash twin_header = Sha256 [1]"
    by (simp_all add: twin_header_def height_def sample_header_def eh_hash_def sample_commit_def)
  have "extends (sample_header 1) twin_header" "not_from_future sample_env twin_header"
    using sample_extends [of 1] sample_not_from_future [of 2]
    by (simp_all add: extends_def twin_header_def height_def chain_id_def eh_time_def last_header_hash_def
        not_from_future_def numeral_2_eq_2)
  then have "acceptable sample_env (sample_header 1) [twin_header]"
    by (simp add: acceptable_Cons i64_max_def)
  then have "verified_from_vec sample_env [sample_header 1, twin_header] = Inr [sample_header 1, twin_header]"
    by (simp add: verified_from_vec_iff)
  then show ?thesis
    by (simp add: ms_insert_def ms_insert_verified_def Let_def ms_new_def new_ranges_def tw
        check_insertion_constraints_def valid_range_def ms_verify_against_neighbours_def
        ms_get_by_height_def ms_contains_height_def contains_def)
qed

end
