(* ===== verification/Redb_Store.thy ===== *)
theory Redb_Store
  imports In_Memory_Store
begin

text \<open>
  The persistent store, from \<^verbatim>\<open>node/src/store/redb_store.rs\<close>. The database is a record of its tables;
  the body of a transaction returns its result with the tables it leaves, and \<open>write_tx\<close> commits or
  aborts it. Reads and writes of the database itself succeed: the input and output errors of \<open>redb\<close>
  are not modelled. The protobuf encoding of headers and metadata is a parameter, the record \<open>codec\<close>.

  The store is shown to implement the in-memory store: forgetting the encoding turns each operation of
  this store into the same operation of the other one, with the same result and the same errors.
\<close>

section \<open>Tables and transactions\<close>

record codec =
  enc_header :: "extended_header \<Rightarrow> bytes"
  dec_header :: "bytes \<Rightarrow> extended_header option"
  enc_metadata :: "sampling_metadata \<Rightarrow> bytes"
  dec_metadata :: "bytes \<Rightarrow> sampling_metadata option"

record redb =
  rd_schema_version :: "nat option"
  rd_heights :: "bytes \<rightharpoonup> nat"
  rd_headers :: "nat \<rightharpoonup> bytes"
  rd_sampling :: "nat \<rightharpoonup> bytes"
  rd_ranges :: "string \<rightharpoonup> (nat \<times> nat) list"
  rd_height_ranges :: "(nat \<times> nat \<times> nat) list"

definition SCHEMA_VERSION :: nat where
  "SCHEMA_VERSION = 2"

definition ACCEPTED_SAMPING_RANGES_KEY :: string where
  "ACCEPTED_SAMPING_RANGES_KEY = ''KEY.ACCEPTED_SAMPING_RANGES''"

definition HEADER_RANGES_KEY :: string where
  "HEADER_RANGES_KEY = ''KEY.HEADER_RANGES''"

fun hash_as_bytes :: "hash \<Rightarrow> bytes" where
  "hash_as_bytes (Sha256 b) = b" |
  "hash_as_bytes NoHash = []"

definition write_tx ::
  "(redb \<Rightarrow> ('a, store_error) result \<times> redb) \<Rightarrow> redb \<Rightarrow> ('a, store_error) result \<times> redb" where
  "write_tx f db = (case f db of (Inl e, _) \<Rightarrow> (Inl e, db) | (Inr x, db') \<Rightarrow> (Inr x, db'))"

definition rd_get_ranges :: "redb \<Rightarrow> string \<Rightarrow> (block_ranges, store_error) result" where
  "rd_get_ranges db name =
     (let raw_ranges = (case rd_ranges db name of None \<Rightarrow> [] | Some v \<Rightarrow> v) in
      map_err (\<lambda>_. StoredDataError ''Stored BlockRanges for {name} are invalid: {e}'') (from_vec raw_ranges))"

definition rd_set_ranges :: "redb \<Rightarrow> string \<Rightarrow> block_ranges \<Rightarrow> redb" where
  "rd_set_ranges db name ranges = db\<lparr> rd_ranges := (rd_ranges db)(name \<mapsto> ranges) \<rparr>"

definition rd_get_height :: "redb \<Rightarrow> bytes \<Rightarrow> (nat, store_error) result" where
  "rd_get_height db key = ok_or NotFound (rd_heights db key)"

definition deserialize_extended_header :: "codec \<Rightarrow> bytes \<Rightarrow> (extended_header, store_error) result" where
  "deserialize_extended_header c bs =
     ok_or (StoredDataError ''Stored ExtendedHeader cannot be deserialized: {e}'') (dec_header c bs)"

definition deserialize_sampling_metadata :: "codec \<Rightarrow> bytes \<Rightarrow> (sampling_metadata, store_error) result" where
  "deserialize_sampling_metadata c bs =
     ok_or (StoredDataError ''Stored SamplingMetadata cannot be deserialized: {e}'') (dec_metadata c bs)"

definition rd_get_header :: "codec \<Rightarrow> redb \<Rightarrow> nat \<Rightarrow> (extended_header, store_error) result" where
  "rd_get_header c db key =
     try_bind (ok_or NotFound (rd_headers db key)) (deserialize_extended_header c)"

definition rd_get_metadata ::
  "codec \<Rightarrow> redb \<Rightarrow> nat \<Rightarrow> (sampling_metadata option, store_error) result" where
  "rd_get_metadata c db key =
     (case rd_sampling db key of
        None \<Rightarrow> Inr None
      | Some bs \<Rightarrow> try_bind (deserialize_sampling_metadata c bs) (\<lambda>m. Inr (Some m)))"

section \<open>Opening and migration\<close>

text \<open>
  The table of version 1 maps the position of a range to the range; iterating it yields the entries
  in the order of the list.
\<close>

definition migrate_v1_to_v2 :: "redb \<Rightarrow> (unit, store_error) result \<times> redb" where
  "migrate_v1_to_v2 db =
     (if rd_schema_version db \<noteq> Some 1 then (Inr (), db)
      else let raw_ranges = map snd (rd_height_ranges db) in
        (Inr (), db\<lparr> rd_height_ranges := [],
                    rd_ranges := (rd_ranges db)(HEADER_RANGES_KEY \<mapsto> raw_ranges),
                    rd_schema_version := Some 2 \<rparr>))"

definition rd_init :: "redb \<Rightarrow> (unit, store_error) result \<times> redb" where
  "rd_init db =
     (case rd_schema_version db of
        Some schema_version \<Rightarrow>
          if schema_version > SCHEMA_VERSION then
            (Inl (OpenFailed ''Incompatible database schema; found {}, expected {}.''), db)
          else migrate_v1_to_v2 db
      | None \<Rightarrow> (Inr (), db\<lparr> rd_schema_version := Some SCHEMA_VERSION \<rparr>))"

definition rd_new :: "redb \<Rightarrow> (unit, store_error) result \<times> redb" where
  "rd_new db =
     (let (r, db') = write_tx rd_init db in
      (map_err (\<lambda>e. case e of OpenFailed m \<Rightarrow> OpenFailed m | _ \<Rightarrow> OpenFailed ''{e}'') r, db'))"

section \<open>Queries\<close>

definition rd_head_height :: "redb \<Rightarrow> (nat, store_error) result" where
  "rd_head_height db =
     try_bind (rd_get_ranges db HEADER_RANGES_KEY) (\<lambda>header_ranges. ok_or NotFound (head header_ranges))"

definition rd_get_by_hash :: "codec \<Rightarrow> redb \<Rightarrow> hash \<Rightarrow> (extended_header, store_error) result" where
  "rd_get_by_hash c db h =
     try_bind (rd_get_height db (hash_as_bytes h)) (\<lambda>height. rd_get_header c db height)"

definition rd_get_by_height :: "codec \<Rightarrow> redb \<Rightarrow> nat \<Rightarrow> (extended_header, store_error) result" where
  "rd_get_by_height c db h = rd_get_header c db h"

definition rd_get_head :: "codec \<Rightarrow> redb \<Rightarrow> (extended_header, store_error) result" where
  "rd_get_head c db =
     try_bind (rd_get_ranges db HEADER_RANGES_KEY) (\<lambda>header_ranges.
     try_bind (ok_or NotFound (head header_ranges)) (\<lambda>head. rd_get_header c db head))"

definition rd_contains_hash :: "redb \<Rightarrow> hash \<Rightarrow> bool" where
  "rd_contains_hash db h =
     (case try_bind (rd_get_height db (hash_as_bytes h)) (\<lambda>height. Inr (rd_headers db height \<noteq> None)) of
        Inl _ \<Rightarrow> False | Inr b \<Rightarrow> b)"

definition rd_contains_height :: "redb \<Rightarrow> nat \<Rightarrow> bool" where
  "rd_contains_height db h \<longleftrightarrow> rd_headers db h \<noteq> None"

definition rd_get_sampling_metadata ::
  "codec \<Rightarrow> redb \<Rightarrow> nat \<Rightarrow> (sampling_metadata option, store_error) result" where
  "rd_get_sampling_metadata c db h =
     (if rd_headers db h = None then Inl NotFound else rd_get_metadata c db h)"

definition rd_get_stored_ranges :: "redb \<Rightarrow> (block_ranges, store_error) result" where
  "rd_get_stored_ranges db = rd_get_ranges db HEADER_RANGES_KEY"

definition rd_get_sampling_ranges :: "redb \<Rightarrow> (block_ranges, store_error) result" where
  "rd_get_sampling_ranges db = rd_get_ranges db ACCEPTED_SAMPING_RANGES_KEY"

section \<open>Updates\<close>

definition rd_neighbour :: "codec \<Rightarrow> redb \<Rightarrow> nat \<Rightarrow> (extended_header, store_error) result" where
  "rd_neighbour c db h =
     map_err (\<lambda>e. case e of NotFound \<Rightarrow> StoredDataError ''inconsistency between headers and ranges table'' | e \<Rightarrow> e)
       (rd_get_header c db h)"

definition rd_verify_against_neighbours ::
  "codec \<Rightarrow> tm_env \<Rightarrow> redb \<Rightarrow> extended_header option \<Rightarrow> extended_header option \<Rightarrow> (unit, store_error) result" where
  "rd_verify_against_neighbours c env db lowest_header highest_header =
     try_bind (case lowest_header of
          None \<Rightarrow> Inr ()
        | Some lowest \<Rightarrow>
            try_bind (rd_neighbour c db (height lowest - 1)) (\<lambda>prev.
              map_err neighbours_error (verify env prev lowest))) (\<lambda>_.
     case highest_header of
       None \<Rightarrow> Inr ()
     | Some highest \<Rightarrow>
         try_bind (rd_neighbour c db (height highest + 1)) (\<lambda>next.
           map_err neighbours_error (verify env highest next)))"

fun rd_insert_loop :: "codec \<Rightarrow> redb \<Rightarrow> extended_header list \<Rightarrow> (unit, store_error) result \<times> redb" where
  "rd_insert_loop c db [] = (Inr (), db)" |
  "rd_insert_loop c db (header # rest) =
     (let h = height header; hash = eh_hash header; serialized_header = enc_header c header;
          db' = db\<lparr> rd_headers := (rd_headers db)(h \<mapsto> serialized_header) \<rparr>;
          db'' = db'\<lparr> rd_heights := (rd_heights db')(hash_as_bytes hash \<mapsto> h) \<rparr> in
      if rd_headers db h \<noteq> None then
        (Inl (StoredDataError ''inconsistency between headers table and ranges table''), db')
      else if rd_heights db' (hash_as_bytes hash) \<noteq> None then
        (Inl (InsertionFailed (HashExists hash)), db'')
      else rd_insert_loop c db'' rest)"

definition rd_insert_body ::
  "codec \<Rightarrow> tm_env \<Rightarrow> extended_header list \<Rightarrow> redb \<Rightarrow> (unit, store_error) result \<times> redb" where
  "rd_insert_body c env headers db =
     (if headers = [] then (Inr (), db)
      else let hd' = hd headers; tl' = last headers in
        case rd_get_ranges db HEADER_RANGES_KEY of
          Inl e \<Rightarrow> (Inl e, db)
        | Inr header_ranges \<Rightarrow>
          (let headers_range = (height hd', height tl') in
           case check_insertion_constraints header_ranges headers_range of
             Inl e \<Rightarrow> (Inl (InsertionFailed (ContraintsNotMet e)), db)
           | Inr (prev_exists, next_exists) \<Rightarrow>
             (case rd_verify_against_neighbours c env db (if prev_exists then Some hd' else None)
                     (if next_exists then Some tl' else None) of
                Inl e \<Rightarrow> (Inl e, db)
              | Inr _ \<Rightarrow>
                (case rd_insert_loop c db headers of
                   (Inl e, db') \<Rightarrow> (Inl e, db')
                 | (Inr _, db') \<Rightarrow>
                     (case insert_relaxed header_ranges headers_range of
                        Inl _ \<Rightarrow> (Inl (StorePanic ''invalid range''), db')
                      | Inr rs \<Rightarrow> (Inr (), rd_set_ranges db' HEADER_RANGES_KEY rs))))))"

definition rd_insert ::
  "codec \<Rightarrow> tm_env \<Rightarrow> redb \<Rightarrow> extended_header list \<Rightarrow> (unit, store_error) result \<times> redb" where
  "rd_insert c env db headers =
     (case verified_from_vec env headers of
        Inl e \<Rightarrow> (Inl (InsertionFailed (HeadersVerificationFailed e)), db)
      | Inr hs \<Rightarrow> write_tx (rd_insert_body c env hs) db)"

definition rd_update_body ::
  "codec \<Rightarrow> nat \<Rightarrow> sampling_status \<Rightarrow> cid list \<Rightarrow> redb \<Rightarrow> (unit, store_error) result \<times> redb" where
  "rd_update_body c h status cids db =
     (case rd_get_ranges db HEADER_RANGES_KEY of
        Inl e \<Rightarrow> (Inl e, db)
      | Inr header_ranges \<Rightarrow>
        (case rd_get_ranges db ACCEPTED_SAMPING_RANGES_KEY of
           Inl e \<Rightarrow> (Inl e, db)
         | Inr sampling_ranges \<Rightarrow>
           if \<not> contains header_ranges h then (Inl NotFound, db)
           else
             (case rd_get_metadata c db h of
                Inl e \<Rightarrow> (Inl e, db)
              | Inr previous \<Rightarrow>
                let entry = (case previous of
                      None \<Rightarrow> \<lparr> sm_status = status, sm_cids = cids \<rparr>
                    | Some m \<Rightarrow> m\<lparr> sm_status := status, sm_cids := push_cids (sm_cids m) cids \<rparr>);
                    db' = db\<lparr> rd_sampling := (rd_sampling db)(h \<mapsto> enc_metadata c entry) \<rparr>
                in case update_accepted sampling_ranges h status of
                     Inl e \<Rightarrow> (Inl e, db')
                   | Inr rs \<Rightarrow> (Inr (), rd_set_ranges db' ACCEPTED_SAMPING_RANGES_KEY rs))))"

definition rd_update_sampling_metadata ::
  "codec \<Rightarrow> redb \<Rightarrow> nat \<Rightarrow> sampling_status \<Rightarrow> cid list \<Rightarrow> (unit, store_error) result \<times> redb" where
  "rd_update_sampling_metadata c db h status cids = write_tx (rd_update_body c h status cids) db"

definition rd_remove_body :: "codec \<Rightarrow> redb \<Rightarrow> (nat, store_error) result \<times> redb" where
  "rd_remove_body c db =
     (case rd_get_ranges db HEADER_RANGES_KEY of
        Inl e \<Rightarrow> (Inl e, db)
      | Inr header_ranges \<Rightarrow>
        (case pop_tail header_ranges of
           (None, _) \<Rightarrow> (Inl NotFound, db)
         | (Some h, header_ranges') \<Rightarrow>
           (let db1 = rd_set_ranges db HEADER_RANGES_KEY header_ranges' in
            case rd_headers db1 h of
              None \<Rightarrow> (Inl (StoredDataError ''inconsistency between ranges and height_to_hash tables, height {height}''), db1)
            | Some bs \<Rightarrow>
              (let db2 = db1\<lparr> rd_headers := (rd_headers db1)(h := None) \<rparr> in
               case dec_header c bs of
                 None \<Rightarrow> (Inl (StoredDataError ''{e}''), db2)
               | Some header \<Rightarrow>
                 (let key = hash_as_bytes (eh_hash header);
                      db3 = db2\<lparr> rd_heights := (rd_heights db2)(key := None) \<rparr> in
                  if rd_heights db2 key = None then
                    (Inl (StoredDataError ''inconsistency between header and height_to_hash tables, hash {hash}''), db3)
                  else (Inr h, db3))))))"

definition rd_remove_last :: "codec \<Rightarrow> redb \<Rightarrow> (nat, store_error) result \<times> redb" where
  "rd_remove_last c db = write_tx (rd_remove_body c) db"

section \<open>The abstraction to the in-memory store\<close>

definition stored_ranges :: "redb \<Rightarrow> string \<Rightarrow> block_ranges" where
  "stored_ranges db name = (case rd_ranges db name of None \<Rightarrow> [] | Some v \<Rightarrow> v)"

definition rd_map :: "codec \<Rightarrow> redb \<Rightarrow> nat \<rightharpoonup> extended_header" where
  "rd_map c db h = Option.bind (rd_headers db h) (dec_header c)"

text \<open>
  The in-memory store with the same headers and ranges. Sampling metadata is forgotten: the two
  stores treat it differently on removal. A hash of no bytes would be confused with the absent hash.
\<close>

definition rd_abs :: "codec \<Rightarrow> redb \<Rightarrow> in_memory_store" where
  "rd_abs c db =
     \<lparr> ms_headers = (\<lambda>k. if k = Sha256 [] then None
          else Option.bind (rd_heights db (hash_as_bytes k)) (rd_map c db)),
       ms_height_to_hash = (\<lambda>h. map_option eh_hash (rd_map c db h)),
       ms_header_ranges = stored_ranges db HEADER_RANGES_KEY,
       ms_sampling_data = Map.empty,
       ms_accepted_sampling_ranges = stored_ranges db ACCEPTED_SAMPING_RANGES_KEY \<rparr>"

definition ms_forget :: "in_memory_store \<Rightarrow> in_memory_store" where
  "ms_forget m = m\<lparr> ms_sampling_data := Map.empty \<rparr>"

text \<open>Every stored header decodes, and the two header tables are inverse to each other.\<close>

definition rd_tables_ok :: "codec \<Rightarrow> redb \<Rightarrow> bool" where
  "rd_tables_ok c db \<longleftrightarrow>
     (\<forall>h b. rd_headers db h = Some b \<longrightarrow>
        (\<exists>x. dec_header c b = Some x \<and> height x = h \<and> eh_hash x \<noteq> Sha256 [] \<and>
             rd_heights db (hash_as_bytes (eh_hash x)) = Some h)) \<and>
     (\<forall>k h. rd_heights db k = Some h \<longrightarrow> (\<exists>x. rd_map c db h = Some x \<and> hash_as_bytes (eh_hash x) = k))"

definition metadata_codec :: "codec \<Rightarrow> bool" where
  "metadata_codec c \<longleftrightarrow> (\<forall>m. dec_metadata c (enc_metadata c m) = Some m)"

definition rd_invar :: "codec \<Rightarrow> redb \<Rightarrow> bool" where
  "rd_invar c db \<longleftrightarrow> metadata_codec c \<and> rd_tables_ok c db \<and> ms_invar (rd_abs c db) \<and>
     (\<forall>h b. rd_sampling db h = Some b \<longrightarrow> dec_metadata c b \<noteq> None)"

text \<open>What is asked of a header: its height fits, its hash has bytes, its encoding decodes to it.\<close>

definition storable :: "codec \<Rightarrow> extended_header \<Rightarrow> bool" where
  "storable c x \<longleftrightarrow> height x \<le> i64_max \<and> eh_hash x \<noteq> Sha256 [] \<and> dec_header c (enc_header c x) = Some x"

lemma rd_headers_row:
  "rd_tables_ok c db \<Longrightarrow> rd_headers db h = Some b \<Longrightarrow>
     \<exists>x. dec_header c b = Some x \<and> rd_map c db h = Some x \<and> height x = h \<and> eh_hash x \<noteq> Sha256 [] \<and>
       rd_heights db (hash_as_bytes (eh_hash x)) = Some h"
  unfolding rd_tables_ok_def by (fastforce simp: rd_map_def)

lemma rd_map_row:
  "rd_tables_ok c db \<Longrightarrow> rd_map c db h = Some x \<Longrightarrow> height x = h \<and> eh_hash x \<noteq> Sha256 [] \<and>
     rd_heights db (hash_as_bytes (eh_hash x)) = Some h"
  using rd_headers_row [of c db h] by (auto simp: rd_map_def bind_eq_Some_conv)

lemma rd_map_None: "rd_tables_ok c db \<Longrightarrow> rd_map c db h = None \<longleftrightarrow> rd_headers db h = None"
  using rd_headers_row [of c db h] by (cases "rd_headers db h") (auto simp: rd_map_def)

lemma rd_heights_row:
  "rd_tables_ok c db \<Longrightarrow> rd_heights db k = Some h \<Longrightarrow> \<exists>x. rd_map c db h = Some x \<and> hash_as_bytes (eh_hash x) = k"
  unfolding rd_tables_ok_def by blast

lemma rd_get_header_eq: "rd_tables_ok c db \<Longrightarrow> rd_get_header c db h = ok_or NotFound (rd_map c db h)"
  using rd_headers_row [of c db h]
  by (cases "rd_headers db h") (auto simp: rd_get_header_def deserialize_extended_header_def rd_map_def)

lemma hash_as_bytes_inj: "hash_as_bytes k = hash_as_bytes k' \<Longrightarrow> k \<noteq> Sha256 [] \<Longrightarrow> k' \<noteq> Sha256 [] \<Longrightarrow> k = k'"
  by (cases k; cases k') auto

lemma rd_abs_map: "rd_tables_ok c db \<Longrightarrow> ms_map (rd_abs c db) = rd_map c db"
proof
  fix h assume t: "rd_tables_ok c db"
  show "ms_map (rd_abs c db) h = rd_map c db h"
    using rd_map_row [OF t, of h] by (cases "rd_map c db h") (auto simp: ms_map_def rd_abs_def)
qed

lemma rd_abs_headers:
  assumes "rd_tables_ok c db" "k \<noteq> Sha256 []"
  shows "ms_headers (rd_abs c db) k = None \<longleftrightarrow> rd_heights db (hash_as_bytes k) = None"
  using rd_heights_row [OF assms(1), of "hash_as_bytes k"] assms(2)
  by (cases "rd_heights db (hash_as_bytes k)") (auto simp: rd_abs_def)

lemma rd_get_ranges_eq:
  "wf_ranges (stored_ranges db name) \<Longrightarrow> rd_get_ranges db name = Inr (stored_ranges db name)"
proof -
  assume "wf_ranges (stored_ranges db name)"
  then have "from_vec (stored_ranges db name) = Inr (stored_ranges db name)" by (simp add: from_vec_iff)
  then show ?thesis by (simp add: rd_get_ranges_def stored_ranges_def)
qed

lemma stored_ranges_set [simp]:
  "stored_ranges (rd_set_ranges db name rs) name' = (if name' = name then rs else stored_ranges db name')"
  by (simp add: stored_ranges_def rd_set_ranges_def)

lemma keys_differ [simp]:
  "HEADER_RANGES_KEY \<noteq> ACCEPTED_SAMPING_RANGES_KEY" "ACCEPTED_SAMPING_RANGES_KEY \<noteq> HEADER_RANGES_KEY"
  by (simp_all add: HEADER_RANGES_KEY_def ACCEPTED_SAMPING_RANGES_KEY_def)

lemma rd_invar_ranges:
  assumes "rd_invar c db"
  shows "rd_get_ranges db HEADER_RANGES_KEY = Inr (ms_header_ranges (rd_abs c db))"
    and "rd_get_ranges db ACCEPTED_SAMPING_RANGES_KEY = Inr (ms_accepted_sampling_ranges (rd_abs c db))"
  using assms by (simp_all add: rd_invar_def ms_invar_def rd_abs_def rd_get_ranges_eq canonical_wf)

lemma rd_neighbour_eq:
  "rd_tables_ok c db \<Longrightarrow> rd_map c db h \<noteq> None \<Longrightarrow> rd_neighbour c db h = ms_neighbour (rd_abs c db) h"
  if "ms_invar (rd_abs c db)" for c db h
  using that
  by (auto simp: rd_neighbour_def ms_neighbour_def rd_get_header_eq ms_get_by_height_eq rd_abs_map ms_invar_def)

section \<open>Each operation implements the in-memory one\<close>

definition rd_put :: "codec \<Rightarrow> redb \<Rightarrow> extended_header \<Rightarrow> redb" where
  "rd_put c db x = db\<lparr> rd_headers := (rd_headers db)(height x \<mapsto> enc_header c x),
     rd_heights := (rd_heights db)(hash_as_bytes (eh_hash x) \<mapsto> height x) \<rparr>"

definition ms_put :: "in_memory_store \<Rightarrow> extended_header \<Rightarrow> in_memory_store" where
  "ms_put m x = m\<lparr> ms_headers := (ms_headers m)(eh_hash x \<mapsto> x),
     ms_height_to_hash := (ms_height_to_hash m)(height x \<mapsto> eh_hash x) \<rparr>"

lemma rd_put_fields [simp]:
  "rd_headers (rd_put c db x) = (rd_headers db)(height x \<mapsto> enc_header c x)"
  "rd_heights (rd_put c db x) = (rd_heights db)(hash_as_bytes (eh_hash x) \<mapsto> height x)"
  "rd_ranges (rd_put c db x) = rd_ranges db" "rd_sampling (rd_put c db x) = rd_sampling db"
  by (simp_all add: rd_put_def)

lemma rd_insert_loop_Cons:
  "rd_headers db (height x) = None \<Longrightarrow> rd_insert_loop c db (x # xs) =
     (if rd_heights db (hash_as_bytes (eh_hash x)) = None then rd_insert_loop c (rd_put c db x) xs
      else (Inl (InsertionFailed (HashExists (eh_hash x))), rd_put c db x))"
  by (simp add: Let_def rd_put_def)

lemma ms_insert_loop_Cons:
  "ms_insert_loop m (x # xs) =
     (if ms_headers m (eh_hash x) = None then ms_insert_loop (ms_put m x) xs
      else (Inl (InsertionFailed (HashExists (eh_hash x))), m))"
  by (simp add: Let_def ms_put_def)

lemma rd_put_map: "storable c x \<Longrightarrow> rd_map c (rd_put c db x) = (rd_map c db)(height x \<mapsto> x)"
  by (auto simp: rd_map_def rd_put_def storable_def fun_eq_iff)

lemma rd_put_ok:
  assumes t: "rd_tables_ok c db" and x: "storable c x"
    and new: "rd_headers db (height x) = None" "rd_heights db (hash_as_bytes (eh_hash x)) = None"
  shows "rd_tables_ok c (rd_put c db x)" "rd_abs c (rd_put c db x) = ms_put (rd_abs c db) x"
proof -
  note mp = rd_put_map [OF x, of db]
  have ne: "h \<noteq> height x" if "rd_map c db h \<noteq> None" for h
    using that new(1) rd_map_None [OF t, of h] by auto
  have hts: "rd_heights db k = Some h \<Longrightarrow> h \<noteq> height x \<and> k \<noteq> hash_as_bytes (eh_hash x)" for k h
    using rd_heights_row [OF t, of k h] ne [of h] new(2) by auto
  show "rd_tables_ok c (rd_put c db x)"
    unfolding rd_tables_ok_def
  proof (intro conjI allI impI)
    fix h b assume b: "rd_headers (rd_put c db x) h = Some b"
    show "\<exists>y. dec_header c b = Some y \<and> height y = h \<and> eh_hash y \<noteq> Sha256 [] \<and>
        rd_heights (rd_put c db x) (hash_as_bytes (eh_hash y)) = Some h"
    proof (cases "h = height x")
      case True
      then show ?thesis using b x by (auto simp: rd_put_def storable_def)
    next
      case False
      then have "rd_headers db h = Some b" using b by (simp add: rd_put_def)
      from rd_headers_row [OF t this] hts show ?thesis by (fastforce simp: rd_put_def)
    qed
  next
    fix k h assume k: "rd_heights (rd_put c db x) k = Some h"
    then show "\<exists>y. rd_map c (rd_put c db x) h = Some y \<and> hash_as_bytes (eh_hash y) = k"
      using rd_heights_row [OF t, of k h] hts [of k h]
      by (auto simp: mp split: if_splits)
  qed
  show "rd_abs c (rd_put c db x) = ms_put (rd_abs c db) x"
  proof -
    have hdr: "ms_headers (rd_abs c (rd_put c db x)) k = ((ms_headers (rd_abs c db))(eh_hash x \<mapsto> x)) k" for k
    proof (cases "k = Sha256 [] \<or> hash_as_bytes k = hash_as_bytes (eh_hash x)")
      case True
      then show ?thesis
        using x hash_as_bytes_inj [of k "eh_hash x"] by (auto simp: rd_abs_def mp storable_def)
    next
      case False
      then have "k \<noteq> eh_hash x" "rd_heights (rd_put c db x) (hash_as_bytes k) = rd_heights db (hash_as_bytes k)"
        by (auto simp: rd_put_def)
      then show ?thesis
        using hts [of "hash_as_bytes k"] by (cases "rd_heights db (hash_as_bytes k)") (auto simp: rd_abs_def mp)
    qed
    moreover have "ms_height_to_hash (rd_abs c (rd_put c db x)) = (ms_height_to_hash (rd_abs c db))(height x \<mapsto> eh_hash x)"
      by (auto simp: rd_abs_def mp fun_eq_iff)
    moreover have "stored_ranges (rd_put c db x) name = stored_ranges db name" for name
      by (simp add: stored_ranges_def rd_put_def)
    ultimately show ?thesis
      by (intro in_memory_store.equality ext) (simp_all add: ms_put_def, simp_all add: rd_abs_def)
  qed
qed

lemma rd_insert_loop_refines:
  assumes "rd_tables_ok c db" "\<forall>x \<in> set hs. storable c x \<and> rd_headers db (height x) = None"
    and "distinct (map height hs)" "rd_insert_loop c db hs = (r, db')"
  shows "\<exists>m'. ms_insert_loop (rd_abs c db) hs = (r, m') \<and>
    (r = Inr () \<longrightarrow> m' = rd_abs c db' \<and> rd_tables_ok c db' \<and> rd_ranges db' = rd_ranges db \<and> rd_sampling db' = rd_sampling db)"
  using assms
proof (induction hs arbitrary: db)
  case (Cons x rest)
  have x: "storable c x" "rd_headers db (height x) = None" using Cons.prems(2) by auto
  then have "eh_hash x \<noteq> Sha256 []" by (simp add: storable_def)
  note new = rd_abs_headers [OF Cons.prems(1) this] and loop = Cons.prems(4) [unfolded rd_insert_loop_Cons [OF x(2)]]
  show ?case
  proof (cases "rd_heights db (hash_as_bytes (eh_hash x)) = None")
    case False
    then show ?thesis using loop new by (auto simp: ms_insert_loop_Cons simp del: ms_insert_loop.simps)
  next
    case True
    note ok = rd_put_ok [OF Cons.prems(1) x True]
    have "\<forall>y \<in> set rest. storable c y \<and> rd_headers (rd_put c db x) (height y) = None"
      using Cons.prems(2,3) by (auto simp: image_iff)
    then show ?thesis
      using Cons.IH [OF ok(1)] Cons.prems(3) loop True new ok(2)
      by (simp add: ms_insert_loop_Cons del: ms_insert_loop.simps)
  qed
qed simp

lemma rd_verify_neighbours_eq:
  assumes "rd_invar c db" "lo \<noteq> None \<longrightarrow> rd_map c db (height (the lo) - 1) \<noteq> None"
    and "hi \<noteq> None \<longrightarrow> rd_map c db (height (the hi) + 1) \<noteq> None"
  shows "rd_verify_against_neighbours c env db lo hi = ms_verify_against_neighbours env (rd_abs c db) lo hi"
  using assms rd_neighbour_eq [of c db "height (the lo) - 1"] rd_neighbour_eq [of c db "height (the hi) + 1"]
  by (cases lo; cases hi)
    (simp_all add: rd_verify_against_neighbours_def ms_verify_against_neighbours_def rd_invar_def)

lemma rd_set_ranges_fields [simp]:
  "rd_map c (rd_set_ranges db name rs) = rd_map c db"
  "rd_heights (rd_set_ranges db name rs) = rd_heights db"
  "rd_headers (rd_set_ranges db name rs) = rd_headers db"
  "rd_sampling (rd_set_ranges db name rs) = rd_sampling db"
  by (simp_all add: rd_set_ranges_def rd_map_def fun_eq_iff)

lemma rd_abs_set_header_ranges:
  "rd_abs c (rd_set_ranges db HEADER_RANGES_KEY rs) = (rd_abs c db)\<lparr> ms_header_ranges := rs \<rparr>"
  by (simp add: rd_abs_def cong: if_cong)

lemma rd_abs_set_accepted_ranges:
  "rd_abs c (rd_set_ranges db ACCEPTED_SAMPING_RANGES_KEY rs) = (rd_abs c db)\<lparr> ms_accepted_sampling_ranges := rs \<rparr>"
  by (simp add: rd_abs_def cong: if_cong)

lemma rd_tables_ok_set_ranges [simp]: "rd_tables_ok c (rd_set_ranges db name rs) = rd_tables_ok c db"
  by (simp add: rd_tables_ok_def)

lemma rd_insert_body_refines:
  assumes inv: "rd_invar c db" and ch: "chained x xs" and st: "\<forall>h \<in> set (x # xs). storable c h"
    and res: "rd_insert_body c env (x # xs) db = (r, db')"
  shows "\<exists>m'. ms_insert_verified env (rd_abs c db) (x # xs) = (r, m') \<and> (r = Inr () \<longrightarrow> m' = rd_abs c db' \<and> rd_invar c db')"
  supply last.simps [simp del] ms_insert_loop.simps [simp del] rd_insert_loop.simps [simp del]
proof -
  let ?m = "rd_abs c db" and ?rng = "(height x, height (last (x # xs)))"
  have t: "rd_tables_ok c db" and im: "ms_invar ?m" using inv by (auto simp: rd_invar_def)
  have wf: "wf_ranges (ms_header_ranges ?m)" using im canonical_wf by (simp add: ms_invar_def)
  have dm: "heights (ms_header_ranges ?m) = dom (rd_map c db)"
    using ms_invar_dom [OF im] rd_abs_map [OF t] by simp
  note rng = rd_invar_ranges(1) [OF inv]
  show ?thesis
  proof (cases "check_insertion_constraints (ms_header_ranges ?m) ?rng")
    case (Inl e)
    then show ?thesis using res by (auto simp: rd_insert_body_def ms_insert_verified_def Let_def rng)
  next
    case (Inr pn)
    then obtain p n where ci: "check_insertion_constraints (ms_header_ranges ?m) ?rng = Inr (p, n)" by (cases pn) auto
    with check_insertion_iff [OF wf] have al: "insertion_allowed (ms_header_ranges ?m) ?rng"
      and pn: "p \<longleftrightarrow> height x - 1 \<in> dom (rd_map c db)" "n \<longleftrightarrow> height (last (x # xs)) + 1 \<in> dom (rd_map c db)"
      unfolding dm by simp_all
    let ?lo = "if p then Some x else None" and ?hi = "if n then Some (last (x # xs)) else None"
    have nb: "rd_verify_against_neighbours c env db ?lo ?hi = ms_verify_against_neighbours env ?m ?lo ?hi"
      by (rule rd_verify_neighbours_eq [OF inv]) (use pn in \<open>auto simp: dom_def\<close>)
    have free: "\<forall>h \<in> set (x # xs). storable c h \<and> rd_headers db (height h) = None"
    proof
      fix h assume "h \<in> set (x # xs)"
      then have "height h \<in> {height x..height (last (x # xs))}" using chain_heights(3) [OF ch] by blast
      then have "height h \<notin> dom (rd_map c db)" using al dm by (auto simp: insertion_allowed_def)
      then show "storable c h \<and> rd_headers db (height h) = None"
        using st \<open>h \<in> set (x # xs)\<close> rd_map_None [OF t] by (auto simp: domIff)
    qed
    obtain lr db1 where lp: "rd_insert_loop c db (x # xs) = (lr, db1)" by fastforce
    from rd_insert_loop_refines [OF t free chain_heights(4) [OF ch] lp]
    obtain m1 where m1: "ms_insert_loop ?m (x # xs) = (lr, m1)"
      "lr = Inr () \<Longrightarrow> m1 = rd_abs c db1 \<and> rd_tables_ok c db1 \<and> rd_ranges db1 = rd_ranges db \<and> rd_sampling db1 = rd_sampling db"
      by blast
    let ?nb = "ms_verify_against_neighbours env ?m ?lo ?hi"
    have rb: "rd_insert_body c env (x # xs) db = (case ?nb of Inl e \<Rightarrow> (Inl e, db) | Inr _ \<Rightarrow> (case lr of Inl e \<Rightarrow> (Inl e, db1) | Inr _ \<Rightarrow>
        (case insert_relaxed (ms_header_ranges ?m) ?rng of
           Inl _ \<Rightarrow> (Inl (StorePanic ''invalid range''), db1)
         | Inr rs \<Rightarrow> (Inr (), rd_set_ranges db1 HEADER_RANGES_KEY rs))))"
      by (cases ?nb; cases lr) (simp_all add: rd_insert_body_def Let_def rng ci nb lp split del: if_split)
    have mb: "ms_insert_verified env ?m (x # xs) = (case ?nb of Inl e \<Rightarrow> (Inl e, ?m) | Inr _ \<Rightarrow>
        (case lr of Inl e \<Rightarrow> (Inl e, m1) | Inr _ \<Rightarrow> (case insert_relaxed (ms_header_ranges m1) ?rng of
           Inl _ \<Rightarrow> (Inl (StorePanic ''invalid range''), m1)
         | Inr rs \<Rightarrow> (Inr (), m1\<lparr> ms_header_ranges := rs \<rparr>))))"
      by (cases ?nb; cases lr) (simp_all add: ms_insert_verified_def Let_def ci m1(1) split del: if_split)
    have l: "ms_header_ranges m1 = ms_header_ranges ?m" if "lr = Inr ()"
      using m1(2) [OF that] by (simp add: rd_abs_def stored_ranges_def)
    have same: "\<exists>m'. ms_insert_verified env ?m (x # xs) = (r, m') \<and> (r = Inr () \<longrightarrow> m' = rd_abs c db' \<and>
        rd_tables_ok c db' \<and> rd_sampling db' = rd_sampling db)"
      unfolding mb using rb [unfolded res] l m1(2)
      by (cases ?nb; cases lr; cases "insert_relaxed (ms_header_ranges ?m) ?rng")
        (auto simp: rd_abs_set_header_ranges split del: if_split)
    then obtain m' where m': "ms_insert_verified env ?m (x # xs) = (r, m')"
      "r = Inr () \<Longrightarrow> m' = rd_abs c db' \<and> rd_tables_ok c db' \<and> rd_sampling db' = rd_sampling db" by blast
    have "ms_invar m'" if "r = Inr ()"
    proof (rule ms_insert_verified_cases [OF m'(1) im ch])
      show "height (last (x # xs)) \<le> i64_max" using bspec [OF st last_in_set] by (simp add: storable_def)
    qed (use that in simp_all)
    then show ?thesis using m' inv by (auto simp: rd_invar_def)
  qed
qed

lemma write_tx_Inr: "write_tx f db = (Inr y, db') \<longleftrightarrow> f db = (Inr y, db')"
  by (auto simp: write_tx_def split: prod.splits sum.splits)

lemma write_tx_Inl: "write_tx f db = (Inl e, db') \<longleftrightarrow> db' = db \<and> (\<exists>d. f db = (Inl e, d))"
  by (auto simp: write_tx_def split: prod.splits sum.splits)

lemma write_tx_refines:
  assumes "\<And>r d. f db = (r, d) \<Longrightarrow> \<exists>m'. g = (r, m') \<and> (\<forall>y. r = Inr y \<longrightarrow> P d m')" "write_tx f db = (r, db')"
  shows "\<exists>m'. g = (r, m') \<and> (case r of Inl _ \<Rightarrow> db' = db | Inr _ \<Rightarrow> P db' m')"
  using assms by (cases r) (fastforce simp: write_tx_Inr write_tx_Inl)+

lemma rd_insert_refines:
  assumes "rd_invar c db" "\<forall>h \<in> set hs. storable c h" "rd_insert c env db hs = (r, db')"
  shows "\<exists>m'. ms_insert env (rd_abs c db) hs = (r, m') \<and>
    (case r of Inl _ \<Rightarrow> db' = db | Inr _ \<Rightarrow> m' = rd_abs c db' \<and> rd_invar c db')"
proof (cases "verified_from_vec env hs")
  case (Inl e)
  then show ?thesis using assms(3) by (auto simp: rd_insert_def ms_insert_def)
next
  case (Inr hs')
  then have hs': "hs' = hs" by (simp add: verified_from_vec_iff)
  then have w: "write_tx (rd_insert_body c env hs) db = (r, db')" using assms(3) Inr by (simp add: rd_insert_def)
  have "\<exists>m'. ms_insert_verified env (rd_abs c db) hs = (r, m') \<and>
      (case r of Inl _ \<Rightarrow> db' = db | Inr _ \<Rightarrow> m' = rd_abs c db' \<and> rd_invar c db')"
  proof (rule write_tx_refines [OF _ w])
    fix r' d assume b: "rd_insert_body c env hs db = (r', d)"
    show "\<exists>m'. ms_insert_verified env (rd_abs c db) hs = (r', m') \<and>
        (\<forall>y. r' = Inr y \<longrightarrow> m' = rd_abs c d \<and> rd_invar c d)"
    proof (cases hs)
      case Nil
      then show ?thesis using b assms(1) by (auto simp: rd_insert_body_def ms_insert_verified_def)
    next
      case (Cons x xs)
      then have "chained x xs" using Inr by (auto simp: verified_from_vec_iff acceptable_def)
      then show ?thesis using rd_insert_body_refines [OF assms(1)] assms(2) b Cons by (metis (full_types) old.unit.exhaust)
    qed
  qed
  then show ?thesis using Inr hs' by (simp add: ms_insert_def)
qed

definition rd_drop :: "redb \<Rightarrow> extended_header \<Rightarrow> redb" where
  "rd_drop db x = db\<lparr> rd_headers := (rd_headers db)(height x := None),
     rd_heights := (rd_heights db)(hash_as_bytes (eh_hash x) := None) \<rparr>"

lemma rd_drop_fields [simp]:
  "rd_headers (rd_drop db x) = (rd_headers db)(height x := None)"
  "rd_heights (rd_drop db x) = (rd_heights db)(hash_as_bytes (eh_hash x) := None)"
  "rd_ranges (rd_drop db x) = rd_ranges db" "rd_sampling (rd_drop db x) = rd_sampling db"
  "rd_map c (rd_drop db x) = (rd_map c db)(height x := None)"
  by (auto simp: rd_drop_def rd_map_def fun_eq_iff)

lemma rd_drop_ok:
  assumes t: "rd_tables_ok c db" and x: "rd_map c db (height x) = Some x"
  shows "rd_tables_ok c (rd_drop db x)"
    and "rd_abs c (rd_drop db x) = (rd_abs c db)\<lparr> ms_height_to_hash := (ms_height_to_hash (rd_abs c db))(height x := None),
      ms_headers := (ms_headers (rd_abs c db))(eh_hash x := None) \<rparr>"
proof -
  have row: "eh_hash x \<noteq> Sha256 []" "rd_heights db (hash_as_bytes (eh_hash x)) = Some (height x)"
    using rd_map_row [OF t x] by auto
  have hts: "h \<noteq> height x" if "rd_heights db k = Some h" "k \<noteq> hash_as_bytes (eh_hash x)" for k h
    using rd_heights_row [OF t that(1)] x that(2) by auto
  show "rd_tables_ok c (rd_drop db x)"
    unfolding rd_tables_ok_def
  proof (intro conjI allI impI)
    fix h b assume b: "rd_headers (rd_drop db x) h = Some b"
    then have h: "h \<noteq> height x" "rd_headers db h = Some b" by (auto split: if_splits)
    from rd_headers_row [OF t h(2)]
    obtain y where y: "dec_header c b = Some y" "height y = h" "eh_hash y \<noteq> Sha256 []"
      "rd_heights db (hash_as_bytes (eh_hash y)) = Some h" by blast
    with row(2) h(1) have "hash_as_bytes (eh_hash y) \<noteq> hash_as_bytes (eh_hash x)" by auto
    with y show "\<exists>y. dec_header c b = Some y \<and> height y = h \<and> eh_hash y \<noteq> Sha256 [] \<and>
        rd_heights (rd_drop db x) (hash_as_bytes (eh_hash y)) = Some h"
      by auto
  next
    fix k h assume "rd_heights (rd_drop db x) k = Some h"
    then show "\<exists>y. rd_map c (rd_drop db x) h = Some y \<and> hash_as_bytes (eh_hash y) = k"
      using rd_heights_row [OF t, of k h] hts [of k h] by (auto split: if_splits)
  qed
  have hdr: "ms_headers (rd_abs c (rd_drop db x)) k = ((ms_headers (rd_abs c db))(eh_hash x := None)) k" for k
  proof (cases "k = Sha256 [] \<or> hash_as_bytes k = hash_as_bytes (eh_hash x)")
    case True
    then show ?thesis using row(1) hash_as_bytes_inj [of k "eh_hash x"] by (auto simp: rd_abs_def)
  next
    case False
    then have "k \<noteq> eh_hash x" by auto
    with False show ?thesis
      using hts [of "hash_as_bytes k"] by (cases "rd_heights db (hash_as_bytes k)") (auto simp: rd_abs_def)
  qed
  have "stored_ranges (rd_drop db x) name = stored_ranges db name" for name by (simp add: stored_ranges_def)
  then show "rd_abs c (rd_drop db x) = (rd_abs c db)\<lparr> ms_height_to_hash := (ms_height_to_hash (rd_abs c db))(height x := None),
      ms_headers := (ms_headers (rd_abs c db))(eh_hash x := None) \<rparr>"
    using hdr by (intro in_memory_store.equality ext) (simp_all, simp_all add: rd_abs_def)
qed

lemma ms_invar_u64:
  assumes "ms_invar m"
  shows "u64_ranges (ms_header_ranges m)"
  using assms u64_ranges_heights [OF canonical_wf] by (fastforce simp: ms_invar_def i64_max_def u64_max_def)

lemma rd_remove_refines:
  assumes inv: "rd_invar c db" and res: "rd_remove_last c db = (r, db')"
  shows "\<exists>m'. ms_remove_last (rd_abs c db) = (r, m') \<and>
    (case r of Inl _ \<Rightarrow> db' = db | Inr _ \<Rightarrow> m' = rd_abs c db' \<and> rd_invar c db')"
proof -
  let ?m = "rd_abs c db"
  have t: "rd_tables_ok c db" and im: "ms_invar ?m" using inv by (auto simp: rd_invar_def)
  note mp = rd_abs_map [OF t]
  have wf: "wf_ranges (ms_header_ranges ?m)" using im canonical_wf by (simp add: ms_invar_def)
  obtain o' rs where pop: "pop_tail (ms_header_ranges ?m) = (o', rs)" by fastforce
  have o': "o' = tail (ms_header_ranges ?m)" using pop_tail_correct(1) [OF wf ms_invar_u64 [OF im] pop] .
  show ?thesis
  proof (cases o')
    case None
    then have "ms_remove_last ?m = (Inl NotFound, ?m)" using o' by (simp add: ms_remove_last_def)
    moreover have "rd_remove_body c db = (Inl NotFound, db)"
      using None pop rd_invar_ranges(1) [OF inv] by (simp add: rd_remove_body_def)
    ultimately show ?thesis using res by (auto simp: rd_remove_last_def write_tx_def)
  next
    case (Some h)
    have "ms_header_ranges ?m \<noteq> []" using Some o' by (auto simp: tail_def)
    then have "dom (ms_map ?m) \<noteq> {}" using ms_invar_dom [OF im] wf_heights_empty [OF wf] by simp
    then obtain m' where m': "ms_remove_last ?m = (Inr (Min (dom (ms_map ?m))), m')" "ms_invar m'"
      and "Min (dom (ms_map ?m)) \<in> dom (ms_map ?m)"
      using ms_remove_last_ok [OF im] Min_in [OF mem.finite_dom [OF im]] by blast
    moreover have "h = Min (dom (ms_map ?m))"
      using Some o' tail_correct [OF wf] \<open>ms_header_ranges ?m \<noteq> []\<close> ms_invar_dom [OF im] by simp
    ultimately obtain x where x: "rd_map c db h = Some x" and m': "ms_remove_last ?m = (Inr h, m')" "ms_invar m'"
      using mp by auto
    note row = rd_map_row [OF t x]
    then obtain bs where bs: "rd_headers db h = Some bs" "dec_header c bs = Some x"
      using x by (auto simp: rd_map_def bind_eq_Some_conv)
    let ?d = "rd_set_ranges (rd_drop db x) HEADER_RANGES_KEY rs"
    have "rd_remove_body c db = (Inr h, ?d)"
      using Some pop rd_invar_ranges(1) [OF inv] bs row
      by (simp add: rd_remove_body_def Let_def) (simp add: rd_set_ranges_def rd_drop_def)
    then have r: "r = Inr h" "db' = ?d" using res by (auto simp: rd_remove_last_def write_tx_def)
    have x': "rd_map c db (height x) = Some x" using x row by simp
    have hx: "ms_height_to_hash ?m h = Some (eh_hash x)" "ms_headers ?m (eh_hash x) = Some x"
      using x row by (simp_all add: rd_abs_def)
    have "tail (ms_header_ranges ?m) = Some h" "ms_sampling_data ?m = Map.empty"
      using o' Some by (simp_all add: rd_abs_def)
    then have "m' = rd_abs c ?d"
      using m'(1) pop hx row unfolding rd_abs_set_header_ranges rd_drop_ok(2) [OF t x']
      by (intro in_memory_store.equality) (auto simp: ms_remove_last_def)
    then show ?thesis
      using m' r inv rd_drop_ok(1) [OF t x'] by (auto simp: rd_invar_def)
  qed
qed

lemma rd_get_metadata_ok:
  "rd_invar c db \<Longrightarrow> rd_get_metadata c db h = Inr (Option.bind (rd_sampling db h) (dec_metadata c))"
  by (cases "rd_sampling db h")
    (fastforce simp: rd_invar_def rd_get_metadata_def deserialize_sampling_metadata_def)+

lemma rd_update_body_eq:
  assumes "rd_invar c db"
  shows "rd_update_body c h st cids db =
    (if \<not> contains (ms_header_ranges (rd_abs c db)) h then (Inl NotFound, db)
     else let db' = db\<lparr> rd_sampling := (rd_sampling db)(h \<mapsto> enc_metadata c
           (case Option.bind (rd_sampling db h) (dec_metadata c) of
              None \<Rightarrow> \<lparr> sm_status = st, sm_cids = cids \<rparr>
            | Some m \<Rightarrow> m\<lparr> sm_status := st, sm_cids := push_cids (sm_cids m) cids \<rparr>)) \<rparr> in
       case update_accepted (ms_accepted_sampling_ranges (rd_abs c db)) h st of
         Inl e \<Rightarrow> (Inl e, db')
       | Inr rs \<Rightarrow> (Inr (), rd_set_ranges db' ACCEPTED_SAMPING_RANGES_KEY rs))"
  by (simp add: rd_update_body_def rd_invar_ranges [OF assms] rd_get_metadata_ok [OF assms] Let_def)

lemma rd_map_sampling [simp]: "rd_map c (db\<lparr> rd_sampling := t \<rparr>) = rd_map c db"
  by (simp add: rd_map_def fun_eq_iff)

lemma rd_abs_sampling [simp]:
  "rd_abs c (db\<lparr> rd_sampling := t \<rparr>) = rd_abs c db" "rd_tables_ok c (db\<lparr> rd_sampling := t \<rparr>) = rd_tables_ok c db"
  by (simp_all add: rd_abs_def rd_tables_ok_def stored_ranges_def cong: if_cong)

lemma ms_invar_accepted: "ms_invar m \<Longrightarrow> canonical rs \<Longrightarrow> ms_invar (m\<lparr> ms_accepted_sampling_ranges := rs \<rparr>)"
  by (simp add: ms_invar_def tables_ok_def ms_map_def linked_def)

lemma rd_update_refines:
  assumes inv: "rd_invar c db" and res: "rd_update_sampling_metadata c db h st cids = (r, db')"
  shows "\<exists>m'. ms_update_sampling_metadata (rd_abs c db) h st cids = (r, m') \<and>
    (case r of Inl _ \<Rightarrow> db' = db | Inr _ \<Rightarrow> ms_forget m' = rd_abs c db' \<and> rd_invar c db')"
proof (cases "contains (ms_header_ranges (rd_abs c db)) h")
  case False
  then show ?thesis using res inv
    by (auto simp: rd_update_sampling_metadata_def write_tx_def rd_update_body_eq ms_update_sampling_metadata_def
        ms_contains_height_def)
next
  case True
  let ?m = "rd_abs c db"
  have im: "ms_invar ?m" using inv by (simp add: rd_invar_def)
  then have "0 < h" using True heights_pos canonical_wf by (auto simp: ms_invar_def contains_iff)
  then obtain rs where rs: "update_accepted (ms_accepted_sampling_ranges ?m) h st = Inr rs" "canonical rs"
    using update_accepted_ok [of "ms_accepted_sampling_ranges ?m" h st] im by (auto simp: ms_invar_def)
  have r: "r = Inr ()" and db': "rd_abs c db' = ?m\<lparr> ms_accepted_sampling_ranges := rs \<rparr>"
    "rd_tables_ok c db' = rd_tables_ok c db" "\<forall>k b. rd_sampling db' k = Some b \<longrightarrow> dec_metadata c b \<noteq> None"
    using res rs(1) inv True
    by (auto simp: rd_update_sampling_metadata_def write_tx_def rd_update_body_eq Let_def
        rd_abs_set_accepted_ranges rd_invar_def metadata_codec_def split: if_splits)
  moreover have "ms_sampling_data ?m = Map.empty" by (simp add: rd_abs_def)
  ultimately show ?thesis
    using rs inv True ms_invar_accepted [OF im rs(2)]
    by (auto simp: rd_invar_def ms_update_sampling_metadata_def ms_contains_height_def Let_def ms_forget_def
        intro!: in_memory_store.equality)
qed

section \<open>The persistent store is a header store\<close>

lemma rd_head_height_eq: "rd_invar c db \<Longrightarrow> rd_head_height db = ms_get_head_height (rd_abs c db)"
  by (simp add: rd_head_height_def rd_invar_ranges ms_get_head_height_def)

lemma rd_get_by_height_eq: "rd_invar c db \<Longrightarrow> rd_get_by_height c db h = ms_get_by_height (rd_abs c db) h"
  by (simp add: rd_get_by_height_def rd_get_header_eq ms_get_by_height_eq rd_invar_def ms_invar_def rd_abs_map)

lemma rd_get_stored_ranges_eq: "rd_invar c db \<Longrightarrow> rd_get_stored_ranges db = ms_get_stored_ranges (rd_abs c db)"
  by (simp add: rd_get_stored_ranges_def rd_invar_ranges ms_get_stored_ranges_def)

lemma rd_get_sampling_ranges_eq:
  "rd_invar c db \<Longrightarrow> rd_get_sampling_ranges db = ms_get_accepted_sampling_ranges (rd_abs c db)"
  by (simp add: rd_get_sampling_ranges_def rd_invar_ranges ms_get_accepted_sampling_ranges_def)

lemma rd_get_by_hash_eq:
  assumes "rd_invar c db" "k \<noteq> Sha256 []"
  shows "rd_get_by_hash c db k = ms_get_by_hash (rd_abs c db) k"
  using assms rd_heights_row [of c db "hash_as_bytes k"]
  by (cases "rd_heights db (hash_as_bytes k)")
    (auto simp: rd_get_by_hash_def rd_get_height_def rd_get_header_eq ms_get_by_hash_def rd_invar_def rd_abs_def)

lemma rd_map_abs: "rd_invar c db \<Longrightarrow> rd_map c db = ms_map (rd_abs c db)"
  by (simp add: rd_invar_def rd_abs_map)

interpretation persistent: header_store "storable c" "rd_invar c" "rd_map c" rd_head_height "rd_get_by_height c"
  rd_get_stored_ranges "rd_insert c" "rd_remove_last c" for c
proof (unfold_locales, goal_cases)
  case (1 s)
  then show ?case unfolding rd_map_abs [OF 1] by (intro mem.st_keyed) (simp add: rd_invar_def)
next
  case (2 s)
  then show ?case unfolding rd_map_abs [OF 2] by (intro mem.st_linked) (simp add: rd_invar_def)
next
  case (3 s)
  then show ?case unfolding rd_map_abs [OF 3] rd_get_stored_ranges_eq [OF 3]
    by (intro mem.st_ranges) (simp add: rd_invar_def)
next
  case (4 s)
  then show ?case unfolding rd_map_abs [OF 4] rd_head_height_eq [OF 4]
    by (intro mem.st_head_height) (simp add: rd_invar_def)
next
  case (5 s h)
  then show ?case unfolding rd_map_abs [OF 5] rd_get_by_height_eq [OF 5]
    by (intro mem.st_get_by_height) (simp add: rd_invar_def)
next
  case (6 s hs env s')
  have "ms_invar (rd_abs c s)" "\<forall>h \<in> set hs. height h \<le> i64_max" using 6 by (auto simp: rd_invar_def storable_def)
  moreover have "ms_insert env (rd_abs c s) hs = (Inr (), rd_abs c s')" and i: "rd_invar c s'"
    using rd_insert_refines [OF 6] by auto
  ultimately show ?case using mem.st_insert unfolding rd_map_abs [OF 6(1)] rd_map_abs [OF i] by (metis i)
next
  case (7 s)
  obtain r s' where rs: "rd_remove_last c s = (r, s')" by fastforce
  have im: "ms_invar (rd_abs c s)" using 7 by (simp add: rd_invar_def)
  from mem.st_remove_last [OF im] 7(2)
  obtain m' where "ms_remove_last (rd_abs c s) = (Inr (Min (dom (ms_map (rd_abs c s)))), m')"
    "ms_map m' = (ms_map (rd_abs c s))(Min (dom (ms_map (rd_abs c s))) := None)"
    unfolding rd_map_abs [OF 7(1)] by blast
  with rd_remove_refines [OF 7(1) rs] have "r = Inr (Min (dom (ms_map (rd_abs c s))))" "rd_invar c s'"
    "ms_map (rd_abs c s') = (ms_map (rd_abs c s))(Min (dom (ms_map (rd_abs c s))) := None)"
    by auto
  with rs show ?case unfolding rd_map_abs [OF 7(1)] using rd_map_abs by auto
next
  case (8 s)
  obtain r s' where rs: "rd_remove_last c s = (r, s')" by fastforce
  have im: "ms_invar (rd_abs c s)" using 8 by (simp add: rd_invar_def)
  with mem.st_remove_last_empty [OF im] 8(2) rd_remove_refines [OF 8(1) rs] rs
  show ?case unfolding rd_map_abs [OF 8(1)] by auto
next
  case (9 s h)
  have "ms_invar (rd_abs c s)" using 9 by (simp add: rd_invar_def)
  from mem.st_bounded [OF this] 9(2) show ?case unfolding rd_map_abs [OF 9(1)] by blast
next
  case (10 x)
  then show ?case by (simp add: storable_def)
qed

definition redb_ops :: "codec \<Rightarrow> redb store_ops" where
  "redb_ops c = \<lparr> so_get_head = rd_get_head c, so_get_by_hash = rd_get_by_hash c, so_get_by_height = rd_get_by_height c,
     so_head_height = rd_head_height, so_has = rd_contains_hash, so_has_at = rd_contains_height,
     so_update_sampling_metadata = rd_update_sampling_metadata c, so_get_sampling_metadata = rd_get_sampling_metadata c,
     so_insert = rd_insert c, so_get_stored_header_ranges = rd_get_stored_ranges,
     so_get_accepted_sampling_ranges = rd_get_sampling_ranges, so_remove_last = rd_remove_last c \<rparr>"

definition rd_accepted :: "redb \<Rightarrow> nat set" where
  "rd_accepted db = heights (stored_ranges db ACCEPTED_SAMPING_RANGES_KEY)"

definition rd_cids :: "codec \<Rightarrow> redb \<Rightarrow> nat \<Rightarrow> cid set" where
  "rd_cids c db h = metadata_cids (Option.bind (rd_sampling db h) (dec_metadata c))"

lemma rd_accepted_abs: "rd_accepted db = ms_accepted (rd_abs c db)"
  by (simp add: rd_accepted_def ms_accepted_def rd_abs_def)

lemma ms_accepted_forget [simp]: "ms_accepted (ms_forget m) = ms_accepted m"
  by (simp add: ms_accepted_def ms_forget_def)

lemma rd_invar_abs: "rd_invar c db \<Longrightarrow> ms_invar (rd_abs c db)"
  by (simp add: rd_invar_def)

lemma rd_contains_iff: "rd_invar c db \<Longrightarrow> rd_headers db h = None \<longleftrightarrow> h \<notin> dom (rd_map c db)"
  using rd_map_None [of c db h] by (auto simp: rd_invar_def domIff)

lemma rd_update_cids:
  assumes inv: "rd_invar c db" and res: "rd_update_sampling_metadata c db h st cids = (Inr (), db')"
  shows "rd_cids c db' = (rd_cids c db)(h := rd_cids c db h \<union> set cids)" "rd_map c db' = rd_map c db"
proof -
  have b: "rd_update_body c h st cids db = (Inr (), db')"
    using res by (simp add: rd_update_sampling_metadata_def write_tx_Inr)
  then obtain rs where rs: "update_accepted (ms_accepted_sampling_ranges (rd_abs c db)) h st = Inr rs"
    by (cases "update_accepted (ms_accepted_sampling_ranges (rd_abs c db)) h st")
      (auto simp: rd_update_body_eq [OF inv] Let_def split: if_splits)
  have mc: "dec_metadata c (enc_metadata c m) = Some m" for m using inv by (simp add: rd_invar_def metadata_codec_def)
  from b rs have "rd_sampling db' = (rd_sampling db)(h \<mapsto> enc_metadata c
       (case Option.bind (rd_sampling db h) (dec_metadata c) of
          None \<Rightarrow> \<lparr> sm_status = st, sm_cids = cids \<rparr>
        | Some m \<Rightarrow> m\<lparr> sm_status := st, sm_cids := push_cids (sm_cids m) cids \<rparr>))" and mp: "rd_map c db' = rd_map c db"
    by (auto simp: rd_update_body_eq [OF inv] Let_def split: if_splits)
  then show "rd_cids c db' = (rd_cids c db)(h := rd_cids c db h \<union> set cids)" "rd_map c db' = rd_map c db"
    by (auto simp: rd_cids_def metadata_cids_def mc fun_eq_iff push_cids_set split: option.splits)
qed

lemma rd_update_ok:
  assumes inv: "rd_invar c db" and h: "h \<in> dom (rd_map c db)"
  shows "\<exists>db'. rd_update_sampling_metadata c db h st cids = (Inr (), db') \<and> rd_invar c db' \<and> rd_map c db' = rd_map c db \<and>
    rd_accepted db' = (if st = Accepted then insert h (rd_accepted db) else rd_accepted db - {h}) \<and>
    rd_cids c db' = (rd_cids c db)(h := rd_cids c db h \<union> set cids)"
proof -
  have h': "h \<in> dom (ms_map (rd_abs c db))" using h rd_map_abs [OF inv] by simp
  obtain m' where m': "ms_update_sampling_metadata (rd_abs c db) h st cids = (Inr (), m')"
    "ms_accepted m' = (if st = Accepted then insert h (ms_accepted (rd_abs c db)) else ms_accepted (rd_abs c db) - {h})"
    using ms_update_sampling_ok [OF rd_invar_abs [OF inv] h', of st cids] unfolding ms_accepted_def by metis
  obtain r db' where rd: "rd_update_sampling_metadata c db h st cids = (r, db')" by fastforce
  from rd_update_refines [OF inv rd] m'(1) have r: "r = Inr ()" "ms_forget m' = rd_abs c db'" "rd_invar c db'" by auto
  have "ms_accepted (rd_abs c db') = ms_accepted m'" unfolding r(2) [symmetric] by simp
  then show ?thesis
    using rd r m'(2) rd_update_cids [OF inv, of h st cids db'] rd_accepted_abs by auto
qed

lemma rd_remove_sampling: "rd_remove_last c db = (Inr h, db') \<Longrightarrow> rd_sampling db' = rd_sampling db"
  by (auto simp: rd_remove_last_def write_tx_Inr rd_remove_body_def Let_def
      split: sum.splits prod.splits option.splits if_splits)

interpretation redb_store: atomic_store "storable c" "rd_invar c" "rd_map c" "redb_ops c" rd_accepted "rd_cids c" for c
proof -
  have hs: "header_store (storable c) (rd_invar c) (rd_map c) (so_head_height (redb_ops c)) (so_get_by_height (redb_ops c))
      (so_get_stored_header_ranges (redb_ops c)) (so_insert (redb_ops c)) (so_remove_last (redb_ops c))"
    using persistent.header_store_axioms by (simp add: redb_ops_def)
  show "atomic_store (storable c) (rd_invar c) (rd_map c) (redb_ops c) rd_accepted (rd_cids c)"
  proof (intro atomic_store.intro sampled_store.intro sampled_store_axioms.intro atomic_store_axioms.intro hs, goal_cases)
    case (1 s)
    then show ?case
      by (simp add: redb_ops_def rd_get_head_def rd_head_height_def rd_get_by_height_def [abs_def] rd_invar_ranges)
  next
    case (2 s)
    then show ?case using rd_invar_abs [OF 2]
      by (simp add: redb_ops_def rd_get_sampling_ranges_eq ms_get_accepted_sampling_ranges_def rd_accepted_abs [of s c]
          ms_accepted_def ms_invar_def)
  next
    case (3 s h)
    then show ?case
      by (simp add: redb_ops_def rd_get_sampling_metadata_def rd_contains_iff rd_get_metadata_ok rd_cids_def)
  next
    case (4 s h)
    then show ?case by (simp add: redb_ops_def rd_get_sampling_metadata_def rd_contains_iff)
  next
    case (5 s h st cids)
    then show ?case using rd_update_ok by (simp add: redb_ops_def)
  next
    case (6 s h st cids)
    then have "\<not> contains (ms_header_ranges (rd_abs c s)) h"
      using ms_invar_dom [OF rd_invar_abs [OF 6(1)]] rd_map_abs [OF 6(1)] by (simp add: contains_iff)
    then show ?case
      by (simp add: redb_ops_def rd_update_sampling_metadata_def write_tx_def rd_update_body_eq [OF 6(1)])
  next
    case (7 s hs env s')
    have "ms_insert env (rd_abs c s) hs = (Inr (), rd_abs c s')"
      using rd_insert_refines [OF 7(1,2), of env "Inr ()" s'] 7(3) by (auto simp: redb_ops_def)
    then show ?case using ms_insert_accepted by (auto simp: rd_accepted_abs [of _ c] ms_accepted_def)
  next
    case (8 s h s')
    have "ms_remove_last (rd_abs c s) = (Inr h, rd_abs c s')"
      using rd_remove_refines [OF 8(1), of "Inr h" s'] 8(2) by (auto simp: redb_ops_def)
    moreover have "rd_sampling s' = rd_sampling s" using 8(2) rd_remove_sampling by (simp add: redb_ops_def)
    ultimately show ?case using memory.sa_remove_keeps [OF rd_invar_abs [OF 8(1)]]
      by (simp add: rd_accepted_abs [of _ c] mem_ops_def rd_cids_def)
  next
    case (9 s x xs env)
    obtain r s' where rd: "rd_insert c env s (x # xs) = (r, s')" by fastforce
    obtain m where "ms_insert env (rd_abs c s) (x # xs) = (Inr (), m)"
      using ms_insert_succeeds [OF rd_invar_abs [OF 9(1)]] 9(3) unfolding rd_map_abs [OF 9(1)] by blast
    with rd_insert_refines [OF 9(1,2) rd] have "r = Inr ()" by auto
    with rd show ?case by (simp add: redb_ops_def)
  next
    case (10 s hs env e s')
    then have "rd_insert c env s hs = (Inl e, s')" by (simp add: redb_ops_def)
    from rd_insert_refines [OF 10(1,2) this] ms_insert_error [OF rd_invar_abs [OF 10(1)]]
    show ?case by fastforce
  qed
qed

section \<open>Sequences of calls\<close>

datatype store_op =
    OpInsert "extended_header list"
  | OpUpdate nat sampling_status "cid list"
  | OpRemoveLast

definition unit_result :: "(unit, 'e) result \<times> 's \<Rightarrow> (nat, 'e) result \<times> 's" where
  "unit_result rs = (try_bind (fst rs) (\<lambda>_. Inr 0), snd rs)"

fun ms_exec :: "tm_env \<Rightarrow> in_memory_store \<Rightarrow> store_op \<Rightarrow> (nat, store_error) result \<times> in_memory_store" where
  "ms_exec env m (OpInsert hs) = unit_result (ms_insert env m hs)" |
  "ms_exec env m (OpUpdate h st cids) = unit_result (ms_update_sampling_metadata m h st cids)" |
  "ms_exec env m OpRemoveLast = ms_remove_last m"

fun rd_exec :: "codec \<Rightarrow> tm_env \<Rightarrow> redb \<Rightarrow> store_op \<Rightarrow> (nat, store_error) result \<times> redb" where
  "rd_exec c env db (OpInsert hs) = unit_result (rd_insert c env db hs)" |
  "rd_exec c env db (OpUpdate h st cids) = unit_result (rd_update_sampling_metadata c db h st cids)" |
  "rd_exec c env db OpRemoveLast = rd_remove_last c db"

fun run :: "('s \<Rightarrow> 'o \<Rightarrow> 'r \<times> 's) \<Rightarrow> 's \<Rightarrow> 'o list \<Rightarrow> 'r list \<times> 's" where
  "run f s [] = ([], s)" |
  "run f s (op # ops) = (let (r, s1) = f s op; (rs, s2) = run f s1 ops in (r # rs, s2))"

fun op_storable :: "codec \<Rightarrow> store_op \<Rightarrow> bool" where
  "op_storable c (OpInsert hs) = list_all (storable c) hs" |
  "op_storable c _ = True"

definition duplicate_hash :: "('a, store_error) result \<Rightarrow> bool" where
  "duplicate_hash r \<longleftrightarrow> (\<exists>k. r = Inl (InsertionFailed (HashExists k)))"

text \<open>The in-memory operations do not look at the sampling metadata, which the abstraction forgets.\<close>

lemma ms_forget_fields [simp]:
  "ms_headers (ms_forget m) = ms_headers m" "ms_height_to_hash (ms_forget m) = ms_height_to_hash m"
  "ms_header_ranges (ms_forget m) = ms_header_ranges m" "ms_sampling_data (ms_forget m) = Map.empty"
  "ms_accepted_sampling_ranges (ms_forget m) = ms_accepted_sampling_ranges m"
  by (simp_all add: ms_forget_def)

lemma ms_forget_eqI:
  "ms_headers a = ms_headers b \<Longrightarrow> ms_height_to_hash a = ms_height_to_hash b \<Longrightarrow>
   ms_header_ranges a = ms_header_ranges b \<Longrightarrow> ms_accepted_sampling_ranges a = ms_accepted_sampling_ranges b \<Longrightarrow>
   ms_forget a = ms_forget b"
  by (intro in_memory_store.equality) simp_all

lemma ms_insert_loop_forget:
  "ms_insert_loop (ms_forget m) hs = map_prod (\<lambda>r. r) ms_forget (ms_insert_loop m hs)"
proof (induction hs arbitrary: m)
  case (Cons x xs)
  have "ms_put (ms_forget m) x = ms_forget (ms_put m x)" by (simp add: ms_put_def ms_forget_def)
  then show ?case using Cons.IH [of "ms_put m x"] by (simp add: ms_insert_loop_Cons del: ms_insert_loop.simps)
qed simp

lemma ms_neighbours_forget:
  "ms_verify_against_neighbours env (ms_forget m) lo hi = ms_verify_against_neighbours env m lo hi"
proof -
  have "ms_neighbour (ms_forget m) h = ms_neighbour m h" for h
    by (cases "ms_height_to_hash m h") (simp_all add: ms_neighbour_def ms_get_by_height_def)
  then show ?thesis by (cases lo; cases hi) (simp_all add: ms_verify_against_neighbours_def)
qed

lemma ms_insert_verified_forget:
  "ms_insert_verified env (ms_forget m) hs = map_prod (\<lambda>r. r) ms_forget (ms_insert_verified env m hs)"
proof (cases "check_insertion_constraints (ms_header_ranges m) (height (hd hs), height (last hs))")
  case (Inl e)
  then show ?thesis by (simp add: ms_insert_verified_def Let_def)
next
  case (Inr pn)
  then obtain p n where pn: "check_insertion_constraints (ms_header_ranges m) (height (hd hs), height (last hs)) = Inr (p, n)"
    by (cases pn) simp
  obtain lr m1 where "ms_insert_loop m hs = (lr, m1)" by fastforce
  moreover have "(ms_forget m1)\<lparr> ms_header_ranges := rs \<rparr> = ms_forget (m1\<lparr> ms_header_ranges := rs \<rparr>)" for rs
    by (simp add: ms_forget_def)
  ultimately show ?thesis
    using pn
    by (cases "ms_verify_against_neighbours env m (if p then Some (hd hs) else None) (if n then Some (last hs) else None)";
        cases lr; cases "insert_relaxed (ms_header_ranges m1) (height (hd hs), height (last hs))"; cases "hs = []")
      (simp_all add: ms_insert_verified_def Let_def ms_neighbours_forget ms_insert_loop_forget split del: if_split)
qed

lemma ms_insert_forget: "ms_insert env (ms_forget m) hs = map_prod (\<lambda>r. r) ms_forget (ms_insert env m hs)"
  by (cases "verified_from_vec env hs") (simp_all add: ms_insert_def ms_insert_verified_forget)

lemma ms_remove_forget: "ms_remove_last (ms_forget m) = map_prod (\<lambda>r. r) ms_forget (ms_remove_last m)"
  by (auto simp: ms_remove_last_def intro!: in_memory_store.equality split: option.splits)

lemma ms_update_forget:
  assumes "ms_update_sampling_metadata (ms_forget m) h st cids = (r, m1)"
  shows "\<exists>m2. ms_update_sampling_metadata m h st cids = (r, m2) \<and> ms_forget m2 = ms_forget m1"
proof (cases "contains (ms_header_ranges m) h")
  case True
  then show ?thesis
    using assms
    by (cases "update_accepted (ms_accepted_sampling_ranges m) h st")
      (auto simp: ms_update_sampling_metadata_def ms_contains_height_def Let_def intro!: ms_forget_eqI)
qed (use assms in \<open>auto simp: ms_update_sampling_metadata_def ms_contains_height_def intro!: ms_forget_eqI\<close>)

lemma ms_invar_forget: "ms_invar m \<Longrightarrow> ms_invar (ms_forget m)"
  by (simp add: ms_invar_def tables_ok_def ms_map_def linked_def)

definition rd_rel :: "codec \<Rightarrow> in_memory_store \<Rightarrow> redb \<Rightarrow> bool" where
  "rd_rel c m db \<longleftrightarrow> ms_invar m \<and> rd_invar c db \<and> rd_abs c db = ms_forget m"

lemma insert_simulates:
  assumes rel: "rd_rel c m db" and st: "list_all (storable c) hs"
    and res: "ms_insert env m hs = (r, m')" and nd: "\<not> duplicate_hash r"
  shows "\<exists>db'. rd_insert c env db hs = (r, db') \<and> rd_rel c m' db'"
proof -
  have inv: "ms_invar m" "rd_invar c db" "rd_abs c db = ms_forget m" using rel by (auto simp: rd_rel_def)
  have st': "\<forall>h \<in> set hs. storable c h" "\<forall>h \<in> set hs. height h \<le> i64_max"
    using st by (auto simp: list_all_iff storable_def)
  obtain r' db' where rd: "rd_insert c env db hs = (r', db')" by fastforce
  from rd_insert_refines [OF inv(2) st'(1) rd] res
  have r: "r' = r" "case r of Inl _ \<Rightarrow> db' = db | Inr _ \<Rightarrow> ms_forget m' = rd_abs c db' \<and> rd_invar c db'"
    by (auto simp: inv(3) ms_insert_forget split: sum.splits)
  show ?thesis
  proof (rule ms_insert_cases [OF res inv(1) st'(2)])
    fix e assume "r = Inl e" "m' = m"
    then show ?thesis using rd r rel by auto
  qed (use rd r nd in \<open>auto simp: rd_rel_def duplicate_hash_def\<close>)
qed

lemma update_simulates:
  assumes rel: "rd_rel c m db" and res: "ms_update_sampling_metadata m h st cids = (r, m')"
  shows "\<exists>db'. rd_update_sampling_metadata c db h st cids = (r, db') \<and> rd_rel c m' db'"
proof -
  have inv: "ms_invar m" "rd_invar c db" "rd_abs c db = ms_forget m" using rel by (auto simp: rd_rel_def)
  obtain r' db' where rd: "rd_update_sampling_metadata c db h st cids = (r', db')" by fastforce
  from rd_update_refines [OF inv(2) rd]
  obtain m1 where m1: "ms_update_sampling_metadata (ms_forget m) h st cids = (r', m1)"
    "case r' of Inl _ \<Rightarrow> db' = db | Inr _ \<Rightarrow> ms_forget m1 = rd_abs c db' \<and> rd_invar c db'"
    unfolding inv(3) by blast
  from ms_update_forget [OF m1(1)] res have r: "r' = r" "ms_forget m' = ms_forget m1" by auto
  have im: "ms_invar m'" using ms_step_invar [OF step_update [OF res] inv(1)] .
  show ?thesis
  proof (cases "h \<in> dom (ms_map m)")
    case True
    then have "r = Inr ()" using ms_update_sampling_ok [OF inv(1) True, of st cids] res by auto
    then show ?thesis using rd r m1(2) im by (auto simp: rd_rel_def)
  next
    case False
    then have "r = Inl NotFound \<and> m' = m" using res ms_invar_dom [OF inv(1)]
      by (auto simp: ms_update_sampling_metadata_def ms_contains_height_def contains_iff)
    then show ?thesis using rd r m1(2) rel by auto
  qed
qed

lemma remove_simulates:
  assumes rel: "rd_rel c m db" and res: "ms_remove_last m = (r, m')"
  shows "\<exists>db'. rd_remove_last c db = (r, db') \<and> rd_rel c m' db'"
proof -
  have inv: "ms_invar m" "rd_invar c db" "rd_abs c db = ms_forget m" using rel by (auto simp: rd_rel_def)
  obtain r' db' where rd: "rd_remove_last c db = (r', db')" by fastforce
  from rd_remove_refines [OF inv(2) rd] res
  have r: "r' = r" "case r of Inl _ \<Rightarrow> db' = db | Inr _ \<Rightarrow> ms_forget m' = rd_abs c db' \<and> rd_invar c db'"
    by (auto simp: inv(3) ms_remove_forget split: sum.splits)
  have im: "ms_invar m'" using ms_step_invar [OF step_remove [OF res] inv(1)] .
  show ?thesis
  proof (cases "dom (ms_map m) = {}")
    case True
    then show ?thesis using ms_remove_last_empty [OF inv(1)] res rd r rel by auto
  next
    case False
    then show ?thesis using ms_remove_last_ok [OF inv(1)] res rd r im by (auto simp: rd_rel_def)
  qed
qed

lemma exec_simulates:
  assumes "rd_rel c m db" "op_storable c op" "ms_exec env m op = (r, m')" "\<not> duplicate_hash r"
  shows "\<exists>db'. rd_exec c env db op = (r, db') \<and> rd_rel c m' db'"
proof (cases op)
  case (OpInsert hs)
  obtain r0 where ins: "ms_insert env m hs = (r0, m')" "r = try_bind r0 (\<lambda>_. Inr 0)"
    using assms(3) OpInsert by (cases "ms_insert env m hs") (simp add: unit_result_def)
  then have "\<not> duplicate_hash r0" using assms(4) by (auto simp: duplicate_hash_def)
  then show ?thesis
    using insert_simulates [OF assms(1) _ ins(1)] assms(2) OpInsert ins(2) by (auto simp: unit_result_def)
next
  case (OpUpdate h st cids)
  obtain r0 where upd: "ms_update_sampling_metadata m h st cids = (r0, m')" "r = try_bind r0 (\<lambda>_. Inr 0)"
    using assms(3) OpUpdate by (cases "ms_update_sampling_metadata m h st cids") (simp add: unit_result_def)
  then show ?thesis
    using update_simulates [OF assms(1) upd(1)] OpUpdate by (auto simp: unit_result_def)
next
  case OpRemoveLast
  then show ?thesis using remove_simulates [OF assms(1)] assms(3) by simp
qed

lemma run_simulates:
  assumes "rd_rel c m db" "list_all (op_storable c) ops"
    and "run (ms_exec env) m ops = (rs, m')" "\<not> list_ex duplicate_hash rs"
  shows "\<exists>db'. run (rd_exec c env) db ops = (rs, db') \<and> rd_rel c m' db'"
  using assms
proof (induction ops arbitrary: m db rs)
  case (Cons op ops)
  obtain r m1 where e: "ms_exec env m op = (r, m1)" by fastforce
  obtain rs1 m2 where t: "run (ms_exec env) m1 ops = (rs1, m2)" by fastforce
  have rs: "rs = r # rs1" "m2 = m'" using Cons.prems(3) e t by auto
  obtain db1 where d: "rd_exec c env db op = (r, db1)" "rd_rel c m1 db1"
    using exec_simulates [OF Cons.prems(1) _ e] Cons.prems(2,4) rs by auto
  obtain db2 where "run (rd_exec c env) db1 ops = (rs1, db2)" "rd_rel c m' db2"
    using Cons.IH [OF d(2) _ t [unfolded rs(2)]] Cons.prems(2,4) rs by auto
  with d(1) rs show ?case by simp
qed simp

section \<open>A codec and a fresh database\<close>

definition empty_db :: redb where
  "empty_db = \<lparr> rd_schema_version = None, rd_heights = Map.empty, rd_headers = Map.empty,
     rd_sampling = Map.empty, rd_ranges = Map.empty, rd_height_ranges = [] \<rparr>"

lemma rd_new_empty: "rd_new empty_db = (Inr (), empty_db\<lparr> rd_schema_version := Some 2 \<rparr>)"
  by (simp add: rd_new_def write_tx_def rd_init_def empty_db_def SCHEMA_VERSION_def)

lemma rd_new_rel: "metadata_codec c \<Longrightarrow> rd_rel c ms_new (snd (rd_new empty_db))"
proof -
  have "rd_abs c (empty_db\<lparr> rd_schema_version := Some 2 \<rparr>) = ms_new"
    by (simp add: rd_abs_def empty_db_def ms_new_def stored_ranges_def rd_map_def new_ranges_def fun_eq_iff)
  moreover have "ms_forget ms_new = ms_new" by (simp add: ms_forget_def ms_new_def)
  moreover have "rd_tables_ok c (empty_db\<lparr> rd_schema_version := Some 2 \<rparr>)"
    by (simp add: rd_tables_ok_def empty_db_def)
  ultimately show "metadata_codec c \<Longrightarrow> rd_rel c ms_new (snd (rd_new empty_db))"
    using ms_new_invar by (simp add: rd_rel_def rd_invar_def rd_new_empty) (simp add: empty_db_def)
qed

fun sample_enc_cid :: "cid \<Rightarrow> bytes" where
  "sample_enc_cid [] = [0]" |
  "sample_enc_cid (b # bs) = 1 # b # sample_enc_cid bs"

fun sample_dec_cids :: "bytes \<Rightarrow> cid \<Rightarrow> cid list" where
  "sample_dec_cids [] acc = []" |
  "sample_dec_cids [t] acc = (if t = 0 then [acc] else [])" |
  "sample_dec_cids (t # b # bs) acc =
     (if t = 0 then acc # sample_dec_cids (b # bs) [] else sample_dec_cids bs (acc @ [b]))"

fun sample_status :: "byte \<Rightarrow> sampling_status" where
  "sample_status b = (if b = 0 then Unknown else if b = 1 then Accepted else Rejected)"

fun sample_status_byte :: "sampling_status \<Rightarrow> byte" where
  "sample_status_byte Unknown = 0" |
  "sample_status_byte Accepted = 1" |
  "sample_status_byte Rejected = 2"

definition sample_codec :: codec where
  "sample_codec = \<lparr> enc_header = (\<lambda>x. replicate (height x) 0), dec_header = (\<lambda>bs. Some (sample_header (length bs))),
     enc_metadata = (\<lambda>m. sample_status_byte (sm_status m) # concat (map sample_enc_cid (sm_cids m))),
     dec_metadata = (\<lambda>bs. if bs = [] then None
       else Some \<lparr> sm_status = sample_status (hd bs), sm_cids = sample_dec_cids (tl bs) [] \<rparr>) \<rparr>"

lemma sample_dec_cid: "sample_dec_cids (sample_enc_cid c @ rest) acc = (acc @ c) # sample_dec_cids rest []"
proof (induction c arbitrary: acc)
  case Nil
  then show ?case by (cases rest) simp_all
qed simp

lemma sample_metadata_codec: "metadata_codec sample_codec"
proof -
  have "sample_dec_cids (concat (map sample_enc_cid cs)) [] = cs" for cs
    by (induction cs) (simp_all add: sample_dec_cid)
  moreover have "sample_status (sample_status_byte st) = st" for st by (cases st) simp_all
  ultimately show ?thesis by (simp add: metadata_codec_def sample_codec_def)
qed

lemma sample_storable: "0 < h \<Longrightarrow> h \<le> i64_max \<Longrightarrow> storable sample_codec (sample_header h)"
  by (simp add: storable_def sample_codec_def)

text \<open>A database that holds two headers.\<close>

definition sample_db :: redb where
  "sample_db = snd (rd_insert sample_codec sample_env (snd (rd_new empty_db)) [sample_header 1, sample_header 2])"

lemma sample_db_invar: "rd_invar sample_codec sample_db"
  and sample_db_map: "rd_map sample_codec sample_db = [1 \<mapsto> sample_header 1, 2 \<mapsto> sample_header 2]"
  and sample_db_accepted: "rd_accepted sample_db = {}"
proof -
  let ?hs = "[sample_header 1, sample_header 2]"
  have i: "rd_invar sample_codec (snd (rd_new empty_db))" using rd_new_rel [OF sample_metadata_codec] by (simp add: rd_rel_def)
  have st: "\<forall>h \<in> set ?hs. storable sample_codec h"
    using sample_storable [of 1] sample_storable [of 2] by (simp add: i64_max_def)
  have e: "rd_map sample_codec (snd (rd_new empty_db)) = Map.empty"
    unfolding rd_new_empty by (simp add: rd_map_def fun_eq_iff) (simp add: empty_db_def)
  have ne: "eh_hash (sample_header 1) \<noteq> eh_hash (sample_header 2)" by (simp add: eh_hash_def sample_header_def sample_commit_def numeral_2_eq_2)
  have "insertable sample_env Map.empty (sample_header 1) [sample_header 2]"
    using sample_acceptable [of 1 1] ne by (simp add: insertable_def numeral_2_eq_2)
  then obtain db where db: "rd_insert sample_codec sample_env (snd (rd_new empty_db)) ?hs = (Inr (), db)"
    using redb_store.st_insert_succeeds [OF i, of "sample_header 1" "[sample_header 2]" sample_env] st e by (auto simp: redb_ops_def)
  then have eq: "sample_db = db" by (simp add: sample_db_def)
  from persistent.st_insert [OF i st db] e show "rd_invar sample_codec sample_db"
    "rd_map sample_codec sample_db = [1 \<mapsto> sample_header 1, 2 \<mapsto> sample_header 2]"
    unfolding eq by (auto simp: headers_map_def)
  have "rd_accepted (snd (rd_new empty_db)) = {}"
    unfolding rd_new_empty by (simp add: rd_accepted_def stored_ranges_def) (simp add: empty_db_def)
  with redb_store.sa_insert_keeps [OF i st] db show "rd_accepted sample_db = {}" unfolding eq by (simp add: redb_ops_def)
qed

section \<open>Correctness of the persistent store\<close>

lemma ms_get_by_height_forget: "ms_get_by_height (ms_forget m) h = ms_get_by_height m h"
  by (cases "ms_height_to_hash m h") (simp_all add: ms_get_by_height_def)



text \<open>
  (C4) Insertion into the persistent store is all or nothing: either every header is added, found by its
  height and by its hash, with everything stored before still there, or an error is returned and the
  database is as it was. Both keep the store consistent.
\<close>

theorem rd_insert_all_or_nothing:
  assumes "rd_invar c db" "\<forall>h \<in> set hs. storable c h" "rd_insert c env db hs = (r, db')"
  shows "rd_invar c db' \<and>
    (r = Inr () \<and> (\<forall>h \<in> set hs. rd_get_by_height c db' (height h) = Inr h \<and> rd_get_by_hash c db' (eh_hash h) = Inr h) \<and>
       (\<forall>k x. rd_get_by_height c db k = Inr x \<longrightarrow> rd_get_by_height c db' k = Inr x)
     \<or> (\<exists>e. r = Inl e \<and> db' = db))"
proof (cases r)
  case (Inl e)
  then show ?thesis using rd_insert_refines [OF assms] assms(1) by auto
next
  case (Inr u)
  then have ok: "rd_insert c env db hs = (Inr (), db')" and i: "rd_invar c db'"
    using assms(3) rd_insert_refines [OF assms] by auto
  have g: "rd_get_by_height c db' (height h) = Inr h" if "h \<in> set hs" for h
    by (rule persistent.get_after_insert [OF assms(1,2) ok that])
  have "rd_get_by_hash c db' (eh_hash h) = Inr h" if "h \<in> set hs" for h
  proof -
    have t: "rd_tables_ok c db'" using i by (simp add: rd_invar_def)
    have "rd_map c db' (height h) = Some h" using g [OF that] t by (simp add: rd_get_by_height_def rd_get_header_eq)
    with rd_map_row [OF t this] t show ?thesis
      by (simp add: rd_get_by_hash_def rd_get_height_def rd_get_header_eq)
  qed
  with g Inr i show ?thesis using persistent.get_kept_by_insert [OF assms(1,2) ok] by auto
qed

theorem rd_insert_all_or_nothing_witness:
  "rd_invar sample_codec (snd (rd_insert sample_codec sample_env (snd (rd_new empty_db)) [sample_header 1, sample_header 2]))"
proof -
  have "rd_invar sample_codec (snd (rd_new empty_db))" using rd_new_rel [OF sample_metadata_codec] by (auto simp: rd_rel_def)
  moreover have "\<forall>h \<in> set [sample_header 1, sample_header 2]. storable sample_codec h"
    using sample_storable [of 1] sample_storable [of 2] by (simp add: i64_max_def)
  ultimately show ?thesis
    using rd_insert_all_or_nothing [of sample_codec "snd (rd_new empty_db)" "[sample_header 1, sample_header 2]" sample_env]
    by (metis prod.collapse)
qed

text \<open>
  (C40) Opening a database of schema version 1 moves its list of ranges to the new table and leaves headers
  and metadata alone, and opening it again changes nothing. A database of a newer schema is refused and
  left as it is.
\<close>

theorem rd_new_migrates:
  assumes "rd_schema_version db = Some v"
  shows "(v = 1 \<longrightarrow> wf_ranges (map snd (rd_height_ranges db)) \<longrightarrow>
      (\<exists>db'. rd_new db = (Inr (), db') \<and> rd_schema_version db' = Some SCHEMA_VERSION \<and>
        rd_get_stored_ranges db' = Inr (map snd (rd_height_ranges db)) \<and>
        rd_headers db' = rd_headers db \<and> rd_heights db' = rd_heights db \<and> rd_sampling db' = rd_sampling db \<and>
        rd_new db' = (Inr (), db'))) \<and>
    (SCHEMA_VERSION < v \<longrightarrow> (\<exists>msg. rd_new db = (Inl (OpenFailed msg), db)))"
proof (intro conjI impI)
  let ?rs = "map snd (rd_height_ranges db)"
  let ?db = "db\<lparr> rd_height_ranges := [], rd_ranges := (rd_ranges db)(HEADER_RANGES_KEY \<mapsto> ?rs), rd_schema_version := Some 2 \<rparr>"
  assume v: "v = 1" "wf_ranges ?rs"
  have "rd_get_ranges ?db HEADER_RANGES_KEY = Inr ?rs"
    using rd_get_ranges_eq [of ?db HEADER_RANGES_KEY] v(2) by (simp add: stored_ranges_def)
  moreover have "rd_new db = (Inr (), ?db)" "rd_new ?db = (Inr (), ?db)"
    using assms v(1) by (simp_all add: rd_new_def write_tx_def rd_init_def SCHEMA_VERSION_def migrate_v1_to_v2_def Let_def)
  ultimately show "\<exists>db'. rd_new db = (Inr (), db') \<and> rd_schema_version db' = Some SCHEMA_VERSION \<and>
        rd_get_stored_ranges db' = Inr ?rs \<and> rd_headers db' = rd_headers db \<and> rd_heights db' = rd_heights db \<and>
        rd_sampling db' = rd_sampling db \<and> rd_new db' = (Inr (), db')"
    by (intro exI [of _ ?db]) (simp add: rd_get_stored_ranges_def SCHEMA_VERSION_def)
next
  assume "SCHEMA_VERSION < v"
  with assms show "\<exists>msg. rd_new db = (Inl (OpenFailed msg), db)"
    by (simp add: rd_new_def write_tx_def rd_init_def)
qed

definition v1_db :: redb where
  "v1_db = empty_db\<lparr> rd_schema_version := Some 1, rd_height_ranges := [(0, 1, 5), (1, 8, 9)] \<rparr>"

theorem rd_new_migrates_witness:
  "\<exists>db'. rd_new v1_db = (Inr (), db') \<and> rd_get_stored_ranges db' = Inr [(1, 5), (8, 9)]"
proof -
  have "rd_schema_version v1_db = Some 1" "map snd (rd_height_ranges v1_db) = [(1, 5), (8, 9)]"
    "wf_ranges [(1, 5), (8, 9)]"
    by (simp_all add: v1_db_def wf_ranges_Cons valid_range_def left_of_def)
  with rd_new_migrates [of v1_db 1] show ?thesis by auto
qed

text \<open>
  The persistent store forgets the header but keeps its sampling metadata on removal, where the in-memory
  store drops both.
\<close>

theorem remove_last_metadata:
  "rd_remove_last c db = (Inr h, db') \<Longrightarrow> rd_sampling db' = rd_sampling db"
  "ms_remove_last m = (Inr h, m') \<Longrightarrow> ms_sampling_data m' h = None"
  by (auto simp: rd_remove_sampling ms_remove_last_def split: option.splits)

end
