(* ===== verification/Either_Store.thy ===== *)
theory Either_Store
  imports Redb_Store
begin

text \<open>
  The sum of two stores, from \<^verbatim>\<open>node/src/store/either_store.rs\<close>: every method is forwarded to the store
  that is present. The sum of two stores that keep the contract keeps it; the combination of the
  in-memory and the persistent store is an instance.
\<close>

section \<open>Definitions\<close>

datatype ('l, 'r) either_store = Left 'l | Right 'r

fun is_left :: "('l, 'r) either_store \<Rightarrow> bool" where
  "is_left (Left _) = True" |
  "is_left (Right _) = False"

fun is_right :: "('l, 'r) either_store \<Rightarrow> bool" where
  "is_right (Left _) = False" |
  "is_right (Right _) = True"

fun left :: "('l, 'r) either_store \<Rightarrow> 'l option" where
  "left (Left store) = Some store" |
  "left (Right _) = None"

fun right :: "('l, 'r) either_store \<Rightarrow> 'r option" where
  "right (Left _) = None" |
  "right (Right store) = Some store"

text \<open>The macro \<open>call!\<close>, for a method that reads the store and for one that changes it.\<close>

fun call :: "('l \<Rightarrow> 'x) \<Rightarrow> ('r \<Rightarrow> 'x) \<Rightarrow> ('l, 'r) either_store \<Rightarrow> 'x" where
  "call f g (Left store) = f store" |
  "call f g (Right store) = g store"

definition call_mut ::
  "('l \<Rightarrow> 'x \<times> 'l) \<Rightarrow> ('r \<Rightarrow> 'x \<times> 'r) \<Rightarrow> ('l, 'r) either_store \<Rightarrow> 'x \<times> ('l, 'r) either_store" where
  "call_mut f g = call (\<lambda>s. apsnd Left (f s)) (\<lambda>s. apsnd Right (g s))"

definition either_ops :: "'l store_ops \<Rightarrow> 'r store_ops \<Rightarrow> ('l, 'r) either_store store_ops" where
  "either_ops L R = \<lparr>
     so_get_head = call (so_get_head L) (so_get_head R),
     so_get_by_hash = (\<lambda>s hash. call (\<lambda>s. so_get_by_hash L s hash) (\<lambda>s. so_get_by_hash R s hash) s),
     so_get_by_height = (\<lambda>s height. call (\<lambda>s. so_get_by_height L s height) (\<lambda>s. so_get_by_height R s height) s),
     so_head_height = call (so_head_height L) (so_head_height R),
     so_has = (\<lambda>s hash. call (\<lambda>s. so_has L s hash) (\<lambda>s. so_has R s hash) s),
     so_has_at = (\<lambda>s height. call (\<lambda>s. so_has_at L s height) (\<lambda>s. so_has_at R s height) s),
     so_update_sampling_metadata = (\<lambda>s height status cids.
       call_mut (\<lambda>s. so_update_sampling_metadata L s height status cids)
         (\<lambda>s. so_update_sampling_metadata R s height status cids) s),
     so_get_sampling_metadata = (\<lambda>s height.
       call (\<lambda>s. so_get_sampling_metadata L s height) (\<lambda>s. so_get_sampling_metadata R s height) s),
     so_insert = (\<lambda>env s headers. call_mut (\<lambda>s. so_insert L env s headers) (\<lambda>s. so_insert R env s headers) s),
     so_get_stored_header_ranges = call (so_get_stored_header_ranges L) (so_get_stored_header_ranges R),
     so_get_accepted_sampling_ranges = call (so_get_accepted_sampling_ranges L) (so_get_accepted_sampling_ranges R),
     so_remove_last = call_mut (so_remove_last L) (so_remove_last R) \<rparr>"

section \<open>The contract is kept\<close>

lemma call_mut_simps [simp]:
  "call_mut f g (Left s) = apsnd Left (f s)" "call_mut f g (Right t) = apsnd Right (g t)"
  by (simp_all add: call_mut_def)

lemma call_mut_eq_iff:
  "apsnd Left p = (r, s) \<longleftrightarrow> (\<exists>t. s = Left t \<and> p = (r, t))" "apsnd Right q = (r, s) \<longleftrightarrow> (\<exists>t. s = Right t \<and> q = (r, t))"
  by (cases p; auto) (cases q; auto)

lemma either_ops_simps [simp]:
  "so_get_head (either_ops L R) = call (so_get_head L) (so_get_head R)"
  "so_get_by_height (either_ops L R) s h = call (\<lambda>s. so_get_by_height L s h) (\<lambda>s. so_get_by_height R s h) s"
  "so_head_height (either_ops L R) = call (so_head_height L) (so_head_height R)"
  "so_update_sampling_metadata (either_ops L R) s h st cids =
     call_mut (\<lambda>s. so_update_sampling_metadata L s h st cids) (\<lambda>s. so_update_sampling_metadata R s h st cids) s"
  "so_get_sampling_metadata (either_ops L R) s h =
     call (\<lambda>s. so_get_sampling_metadata L s h) (\<lambda>s. so_get_sampling_metadata R s h) s"
  "so_insert (either_ops L R) env s hs = call_mut (\<lambda>s. so_insert L env s hs) (\<lambda>s. so_insert R env s hs) s"
  "so_get_stored_header_ranges (either_ops L R) = call (so_get_stored_header_ranges L) (so_get_stored_header_ranges R)"
  "so_get_accepted_sampling_ranges (either_ops L R) =
     call (so_get_accepted_sampling_ranges L) (so_get_accepted_sampling_ranges R)"
  "so_remove_last (either_ops L R) = call_mut (so_remove_last L) (so_remove_last R)"
  by (simp_all add: either_ops_def)

lemma either_header_store:
  assumes L: "header_store okL invL hdrL (so_head_height L) (so_get_by_height L) (so_get_stored_header_ranges L) (so_insert L) (so_remove_last L)"
    and R: "header_store okR invR hdrR (so_head_height R) (so_get_by_height R) (so_get_stored_header_ranges R) (so_insert R) (so_remove_last R)"
  shows "header_store (\<lambda>h. okL h \<and> okR h) (call invL invR) (call hdrL hdrR) (so_head_height (either_ops L R))
    (so_get_by_height (either_ops L R)) (so_get_stored_header_ranges (either_ops L R)) (so_insert (either_ops L R))
    (so_remove_last (either_ops L R))"
proof (unfold_locales, goal_cases)
  case (1 s)
  then show ?case using header_store.st_keyed [OF L] header_store.st_keyed [OF R] by (cases s) auto
next
  case (2 s)
  then show ?case using header_store.st_linked [OF L] header_store.st_linked [OF R] by (cases s) auto
next
  case (3 s)
  then show ?case using header_store.st_ranges [OF L] header_store.st_ranges [OF R] by (cases s) auto
next
  case (4 s)
  then show ?case using header_store.st_head_height [OF L] header_store.st_head_height [OF R] by (cases s) auto
next
  case (5 s h)
  then show ?case using header_store.st_get_by_height [OF L] header_store.st_get_by_height [OF R] by (cases s) auto
next
  case (6 s hs env s')
  show ?case
  proof (cases s)
    case (Left t)
    then obtain t' where "s' = Left t'" "so_insert L env t hs = (Inr (), t')"
      using 6(3) by (auto simp: call_mut_eq_iff)
    then show ?thesis using 6(1,2) Left header_store.st_insert [OF L, of t hs env t'] by simp
  next
    case (Right t)
    then obtain t' where "s' = Right t'" "so_insert R env t hs = (Inr (), t')"
      using 6(3) by (auto simp: call_mut_eq_iff)
    then show ?thesis using 6(1,2) Right header_store.st_insert [OF R, of t hs env t'] by simp
  qed
next
  case (7 s)
  show ?case
  proof (cases s)
    case (Left t)
    then obtain t' where "so_remove_last L t = (Inr (Min (dom (hdrL t))), t')" "invL t'"
      "hdrL t' = (hdrL t)(Min (dom (hdrL t)) := None)"
      using 7 header_store.st_remove_last [OF L, of t] by auto
    then show ?thesis using Left by (intro exI [of _ "either_store.Left t'"]) simp
  next
    case (Right t)
    then obtain t' where "so_remove_last R t = (Inr (Min (dom (hdrR t))), t')" "invR t'"
      "hdrR t' = (hdrR t)(Min (dom (hdrR t)) := None)"
      using 7 header_store.st_remove_last [OF R, of t] by auto
    then show ?thesis using Right by (intro exI [of _ "either_store.Right t'"]) simp
  qed
next
  case (8 s)
  then show ?case
    using header_store.st_remove_last_empty [OF L] header_store.st_remove_last_empty [OF R] by (cases s) auto
next
  case (9 s h)
  then show ?case using header_store.st_bounded [OF L] header_store.st_bounded [OF R] by (cases s) auto
next
  case (10 x)
  then show ?case using header_store.st_ok_height [OF L] by blast
qed

lemma either_sampled_store:
  assumes L: "sampled_store okL invL hdrL L accL cidL" and R: "sampled_store okR invR hdrR R accR cidR"
  shows "sampled_store (\<lambda>h. okL h \<and> okR h) (call invL invR) (call hdrL hdrR) (either_ops L R) (call accL accR)
    (call cidL cidR)"
proof (intro sampled_store.intro sampled_store_axioms.intro
    either_header_store [OF sampled_store.axioms(1) [OF L] sampled_store.axioms(1) [OF R]], goal_cases)
  case (1 s)
  then show ?case using sampled_store.sa_head [OF L] sampled_store.sa_head [OF R]
    by (cases s) (simp_all add: either_ops_def)
next
  case (2 s)
  then show ?case using sampled_store.sa_accepted [OF L] sampled_store.sa_accepted [OF R] by (cases s) auto
next
  case (3 s h)
  then show ?case using sampled_store.sa_metadata [OF L] sampled_store.sa_metadata [OF R] by (cases s) auto
next
  case (4 s h)
  then show ?case using sampled_store.sa_metadata_missing [OF L] sampled_store.sa_metadata_missing [OF R] by (cases s) auto
next
  case (5 s h st cids)
  show ?case
  proof (cases s)
    case (Left t)
    with sampled_store.sa_update [OF L, of t h st cids] 5 obtain t' where "so_update_sampling_metadata L t h st cids = (Inr (), t')"
      "invL t'" "hdrL t' = hdrL t" "accL t' = (if st = Accepted then insert h (accL t) else accL t - {h})"
      "cidL t' = (cidL t)(h := cidL t h \<union> set cids)" by auto
    then show ?thesis using Left by (intro exI [of _ "either_store.Left t'"]) simp
  next
    case (Right t)
    with sampled_store.sa_update [OF R, of t h st cids] 5 obtain t' where "so_update_sampling_metadata R t h st cids = (Inr (), t')"
      "invR t'" "hdrR t' = hdrR t" "accR t' = (if st = Accepted then insert h (accR t) else accR t - {h})"
      "cidR t' = (cidR t)(h := cidR t h \<union> set cids)" by auto
    then show ?thesis using Right by (intro exI [of _ "either_store.Right t'"]) simp
  qed
next
  case (6 s h st cids)
  then show ?case
    using sampled_store.sa_update_missing [OF L] sampled_store.sa_update_missing [OF R] by (cases s) auto
next
  case (7 s hs env s')
  show ?case
  proof (cases s)
    case (Left t)
    then obtain t' where "s' = either_store.Left t'" "so_insert L env t hs = (Inr (), t')"
      using 7(3) by (auto simp: call_mut_eq_iff)
    then show ?thesis using 7(1,2) Left sampled_store.sa_insert_keeps [OF L, of t hs env t'] by simp
  next
    case (Right t)
    then obtain t' where "s' = either_store.Right t'" "so_insert R env t hs = (Inr (), t')"
      using 7(3) by (auto simp: call_mut_eq_iff)
    then show ?thesis using 7(1,2) Right sampled_store.sa_insert_keeps [OF R, of t hs env t'] by simp
  qed
next
  case (8 s h s')
  show ?case
  proof (cases s)
    case (Left t)
    then obtain t' where "s' = either_store.Left t'" "so_remove_last L t = (Inr h, t')"
      using 8(2) by (auto simp: call_mut_eq_iff)
    then show ?thesis using 8(1) Left sampled_store.sa_remove_keeps [OF L, of t h t'] by simp
  next
    case (Right t)
    then obtain t' where "s' = either_store.Right t'" "so_remove_last R t = (Inr h, t')"
      using 8(2) by (auto simp: call_mut_eq_iff)
    then show ?thesis using 8(1) Right sampled_store.sa_remove_keeps [OF R, of t h t'] by simp
  qed
qed

interpretation either_node: sampled_store "\<lambda>h. height h \<le> i64_max \<and> storable c h" "call ms_invar (rd_invar c)"
  "call ms_map (rd_map c)" "either_ops mem_ops (redb_ops c)" "call ms_accepted rd_accepted" "call ms_cids (rd_cids c)" for c
  by (rule either_sampled_store [OF memory.sampled_store_axioms redb_store.sampled_store_axioms])

end
