(* ===== verification/Node_Common.thy ===== *)
theory Node_Common
  imports Store
begin

text \<open>
  What the workers of the node share: the errors of the networking component
  (\<^verbatim>\<open>node/src/p2p.rs\<close>, \<^verbatim>\<open>node/src/p2p/header_ex.rs\<close>), and the events the node publishes
  (\<^verbatim>\<open>node/src/events.rs\<close>). An error of another crate is a constructor without argument. A peer is the
  byte string of its \<open>PeerId\<close>; a \<open>Duration\<close> is a number of nanoseconds.
\<close>

type_synonym peer_id = bytes
type_synonym duration = nat

section \<open>Errors of the networking component\<close>

datatype header_ex_error =
    HeaderNotFound
  | InvalidResponse
  | InvalidRequest
  | InboundFailure
  | OutboundFailure
  | RequestCancelled

datatype p2p_error =
    GossipsubInit string
  | TlsInit string
  | NoiseInit string
  | WorkerDied
  | ChannelClosedUnexpectedly
  | NoConnectedPeers
  | HeaderEx header_ex_error
  | BootnodeAddrsWithoutPeerId
  | Bitswap
  | ProtoDecodeFailed
  | CidErr types_error
  | BitswapQueryTimeout
  | Shwap string
  | CelestiaTypes types_error

fun p2p_is_fatal :: "p2p_error \<Rightarrow> bool" where
  "p2p_is_fatal (GossipsubInit _) = True" |
  "p2p_is_fatal (NoiseInit _) = True" |
  "p2p_is_fatal (TlsInit _) = True" |
  "p2p_is_fatal WorkerDied = True" |
  "p2p_is_fatal ChannelClosedUnexpectedly = True" |
  "p2p_is_fatal BootnodeAddrsWithoutPeerId = True" |
  "p2p_is_fatal NoConnectedPeers = False" |
  "p2p_is_fatal (HeaderEx _) = False" |
  "p2p_is_fatal Bitswap = False" |
  "p2p_is_fatal ProtoDecodeFailed = False" |
  "p2p_is_fatal (CidErr _) = False" |
  "p2p_is_fatal BitswapQueryTimeout = False" |
  "p2p_is_fatal (Shwap _) = False" |
  "p2p_is_fatal (CelestiaTypes _) = False"

section \<open>Events of the node\<close>

datatype node_event =
    ConnectingToBootnodes
  | PeerConnected peer_id bool
  | PeerDisconnected peer_id bool
  | SamplingStarted nat nat "(nat \<times> nat) list"
  | ShareSamplingResult nat nat nat nat bool
  | SamplingFinished nat bool duration
  | FatalDaserError string
  | AddedHeaderFromHeaderSub nat
  | FetchingHeadHeaderStarted
  | FetchingHeadHeaderFinished nat duration
  | FetchingHeadersStarted nat nat
  | FetchingHeadersFinished nat nat duration
  | FetchingHeadersFailed nat nat string duration
  | FatalSyncerError string
  | PrunedHeaders nat
  | FatalPrunerError string
  | NetworkCompromised
  | NodeStopped

fun is_error :: "node_event \<Rightarrow> bool" where
  "is_error (FatalDaserError _) = True" |
  "is_error (FatalSyncerError _) = True" |
  "is_error (FatalPrunerError _) = True" |
  "is_error (FetchingHeadersFailed _ _ _ _) = True" |
  "is_error NetworkCompromised = True" |
  "is_error _ = False"

section \<open>Points in time\<close>

text \<open>
  \<open>Time::now().checked_sub(window)\<close>, with the epoch where the subtraction leaves the range of the type.
  The subtraction belongs to tendermint and is an argument.
\<close>

definition window_start :: "tm_env \<Rightarrow> (time \<Rightarrow> duration \<Rightarrow> time option) \<Rightarrow> duration \<Rightarrow> time" where
  "window_start env time_checked_sub window =
     (case time_checked_sub (env_now env) window of None \<Rightarrow> 0 | Some t \<Rightarrow> t)"

end
