(* ===== verification/Syncer.thy ===== *)
theory Syncer
  imports Node_Common Redb_Store
begin

text \<open>
  The component that fetches headers, from \<^verbatim>\<open>node/src/syncer.rs\<close>. The state of its worker is a record with
  the store in it; each handler of the two event loops is a function that returns its result with the
  new state, and the loops are a step relation. The answers of the network are arguments of the events.
  The events a worker publishes are a list, the latest last.
\<close>

section \<open>The range to fetch\<close>

definition calculate_range_to_fetch :: "nat \<Rightarrow> block_range list \<Rightarrow> nat \<Rightarrow> block_range" where
  "calculate_range_to_fetch subjective_head_height store_headers limit =
     (case rev store_headers of
        [] \<Rightarrow> truncate_right (1, subjective_head_height) limit
      | store_head_range # rest \<Rightarrow>
          if range_end store_head_range < subjective_head_height then
            truncate_right (range_end store_head_range + 1, subjective_head_height) limit
          else
            let penultimate_range_end = (case rest of [] \<Rightarrow> 0 | r # _ \<Rightarrow> range_end r) in
            truncate_left (penultimate_range_end + 1, saturating_sub (range_start store_head_range) 1) limit)"

section \<open>The worker\<close>

datatype syncer_error =
    SyncerP2p p2p_error
  | SyncerStore store_error
  | SyncerWorkerDied
  | SyncerChannelClosedUnexpectedly
  | SyncerPanic string

text \<open>\<open>SyncerPanic\<close> is no value of \<open>SyncerError\<close>: it stands for an \<open>expect\<close> that is reached.\<close>

fun syncer_is_fatal :: "syncer_error \<Rightarrow> bool" where
  "syncer_is_fatal (SyncerP2p e) = p2p_is_fatal e" |
  "syncer_is_fatal (SyncerStore e) = is_fatal e" |
  "syncer_is_fatal SyncerWorkerDied = True" |
  "syncer_is_fatal SyncerChannelClosedUnexpectedly = True" |
  "syncer_is_fatal (SyncerPanic _) = True"

text \<open>
  The future that waits for the ongoing batch is alive exactly when the range is there, which the
  source asserts; the field \<open>sy_ongoing\<close> stands for both.
\<close>

record 's syncer =
  sy_store :: 's
  sy_header_sub :: bool
  sy_subjective_head_height :: "nat option"
  sy_batch_size :: nat
  sy_ongoing :: "block_range option"
  sy_syncing_window :: duration
  sy_events :: "node_event list"

record syncing_info =
  stored_headers :: block_ranges
  subjective_head :: nat

definition syncer_new :: "'s \<Rightarrow> nat \<Rightarrow> duration \<Rightarrow> 's syncer" where
  "syncer_new store batch_size syncing_window =
     \<lparr> sy_store = store, sy_header_sub = False, sy_subjective_head_height = None, sy_batch_size = batch_size,
       sy_ongoing = None, sy_syncing_window = syncing_window, sy_events = [] \<rparr>"

definition sy_send :: "node_event \<Rightarrow> 's syncer \<Rightarrow> 's syncer" where
  "sy_send e w = w\<lparr> sy_events := sy_events w @ [e] \<rparr>"

definition sy_syncing_info :: "'s store_ops \<Rightarrow> 's syncer \<Rightarrow> (syncing_info, syncer_error) result" where
  "sy_syncing_info ops self =
     try_bind (map_err SyncerStore (so_get_stored_header_ranges ops (sy_store self))) (\<lambda>rs.
     Inr \<lparr> stored_headers = rs,
           subjective_head = (case sy_subjective_head_height self of None \<Rightarrow> 0 | Some h \<Rightarrow> h) \<rparr>)"

definition set_subjective_head_height :: "'s syncer \<Rightarrow> nat \<Rightarrow> 's syncer" where
  "set_subjective_head_height self h =
     (case sy_subjective_head_height self of
        Some old_height \<Rightarrow> if h \<le> old_height then self else self\<lparr> sy_subjective_head_height := Some h \<rparr>
      | None \<Rightarrow> self\<lparr> sy_subjective_head_height := Some h \<rparr>)"

definition sy_on_header_sub_message :: "'s store_ops \<Rightarrow> tm_env \<Rightarrow> 's syncer \<Rightarrow> extended_header \<Rightarrow> 's syncer" where
  "sy_on_header_sub_message ops env self new_head =
     (let new_head_height = height new_head;
          self = set_subjective_head_height self new_head_height in
      case so_head_height ops (sy_store self) of
        Inl _ \<Rightarrow> self
      | Inr store_head_height \<Rightarrow>
          if store_head_height + 1 = new_head_height then
            (let (r, s) = so_insert ops env (sy_store self) [new_head];
                 self = self\<lparr> sy_store := s \<rparr> in
             if is_ok r then sy_send (AddedHeaderFromHeaderSub new_head_height) self else self)
          else self)"

definition in_syncing_window ::
  "tm_env \<Rightarrow> (time \<Rightarrow> duration \<Rightarrow> time option) \<Rightarrow> 's syncer \<Rightarrow> extended_header \<Rightarrow> bool" where
  "in_syncing_window env time_checked_sub self header \<longleftrightarrow>
     window_start env time_checked_sub (sy_syncing_window self) < eh_time header"

definition fetch_next_batch ::
  "'s store_ops \<Rightarrow> tm_env \<Rightarrow> (time \<Rightarrow> duration \<Rightarrow> time option) \<Rightarrow> nat \<Rightarrow> 's syncer \<Rightarrow>
     (unit, syncer_error) result \<times> 's syncer" where
  "fetch_next_batch ops env time_checked_sub num_connected_peers self =
     (if sy_ongoing self \<noteq> None then (Inr (), self)
      else if num_connected_peers = 0 then (Inr (), self)
      else case sy_subjective_head_height self of
        None \<Rightarrow> (Inr (), self)
      | Some subjective_head_height \<Rightarrow>
        (case so_get_stored_header_ranges ops (sy_store self) of
           Inl e \<Rightarrow> (Inl (SyncerStore e), self)
         | Inr store_ranges \<Rightarrow>
           (let next_batch = calculate_range_to_fetch subjective_head_height store_ranges (sy_batch_size self);
                started = (sy_send (FetchingHeadersStarted (range_start next_batch) (range_end next_batch)) self)
                  \<lparr> sy_ongoing := Some next_batch \<rparr> in
            if range_is_empty next_batch then (Inr (), self)
            else case so_get_by_height ops (sy_store self) (range_end next_batch + 1) of
              Inr known_header \<Rightarrow>
                if \<not> in_syncing_window env time_checked_sub self known_header then (Inr (), self)
                else (Inr (), started)
            | Inl NotFound \<Rightarrow> (Inr (), started)
            | Inl e \<Rightarrow> (Inl (SyncerStore e), self))))"

definition on_fetch_next_batch_result ::
  "'s store_ops \<Rightarrow> tm_env \<Rightarrow> 's syncer \<Rightarrow> (extended_header list, p2p_error) result \<Rightarrow> duration \<Rightarrow>
     (unit, syncer_error) result \<times> 's syncer" where
  "on_fetch_next_batch_result ops env self res took =
     (case sy_ongoing self of
        None \<Rightarrow> (Inl (SyncerPanic ''ongoing_batch not initialized correctly''), self)
      | Some rng \<Rightarrow>
        (let self = self\<lparr> sy_ongoing := None \<rparr>; from_height = range_start rng; to_height = range_end rng in
         case res of
           Inl e \<Rightarrow>
             if p2p_is_fatal e then (Inl (SyncerP2p e), self)
             else (Inr (), sy_send (FetchingHeadersFailed from_height to_height ''{e}'' took) self)
         | Inr headers \<Rightarrow>
             (let (r, s) = so_insert ops env (sy_store self) headers; self = self\<lparr> sy_store := s \<rparr>;
                  finished = sy_send (FetchingHeadersFinished from_height to_height took) in
              case r of
                Inl e \<Rightarrow>
                  if is_fatal e then (Inl (SyncerStore e), self)
                  else (Inr (), finished (sy_send (FetchingHeadersFailed from_height to_height
                         ''Failed to store headers: {e}'' took) self))
              | Inr _ \<Rightarrow> (Inr (), finished self))))"

section \<open>Initialisation\<close>

text \<open>
  One attempt: a trusted peer is connected, and \<open>res\<close> is the answer to the request for the head. The
  attempt returns the network head and the worker, with the store and events it leaves.
\<close>

definition try_init ::
  "'s store_ops \<Rightarrow> tm_env \<Rightarrow> 's syncer \<Rightarrow> bool \<Rightarrow> (extended_header, p2p_error) result \<Rightarrow>
     (extended_header, syncer_error) result \<times> 's syncer" where
  "try_init ops env self event_reported res =
     (let self = (if event_reported then self else sy_send FetchingHeadHeaderStarted self) in
      case res of
        Inl e \<Rightarrow> (Inl (SyncerP2p e), self)
      | Inr network_head \<Rightarrow>
        (case (case so_get_head ops (sy_store self) of
                 Inr store_head \<Rightarrow> Inr (eh_hash store_head \<noteq> eh_hash network_head)
               | Inl NotFound \<Rightarrow> Inr True
               | Inl e \<Rightarrow> Inl e) of
           Inl e \<Rightarrow> (Inl (SyncerStore e), self)
         | Inr try_insert \<Rightarrow>
           if try_insert then
             (let (r, s) = so_insert ops env (sy_store self) [network_head]; self = self\<lparr> sy_store := s \<rparr> in
              case r of Inl e \<Rightarrow> (Inl (SyncerStore e), self) | Inr _ \<Rightarrow> (Inr network_head, self))
           else (Inr network_head, self)))"

section \<open>The event loops\<close>

text \<open>
  The worker alternates between the connecting and the connected loop. A step handles one event; an
  error that a handler returns ends the worker.
\<close>

datatype phase = Connecting bool | Connected | Stopped "syncer_error option"

definition connected :: "(unit, syncer_error) result \<times> 's syncer \<Rightarrow> phase \<times> 's syncer" where
  "connected rw = (case rw of (Inl e, w) \<Rightarrow> (Stopped (Some e), w) | (Inr _, w) \<Rightarrow> (Connected, w))"

definition init_finished :: "'s syncer \<Rightarrow> extended_header \<Rightarrow> duration \<Rightarrow> 's syncer" where
  "init_finished self network_head took =
     sy_send (FetchingHeadHeaderFinished (height network_head) took)
       ((set_subjective_head_height self (height network_head))\<lparr> sy_header_sub := True \<rparr>)"

text \<open>Leaving the connected loop cancels the ongoing batch and closes the subscription.\<close>

definition leave_connected :: "'s syncer \<Rightarrow> 's syncer" where
  "leave_connected self = self\<lparr> sy_ongoing := None, sy_header_sub := False \<rparr>"

inductive sy_step ::
  "(extended_header \<Rightarrow> bool) \<Rightarrow> 's store_ops \<Rightarrow> tm_env \<Rightarrow> (time \<Rightarrow> duration \<Rightarrow> time option) \<Rightarrow>
     phase \<times> 's syncer \<Rightarrow> phase \<times> 's syncer \<Rightarrow> bool"
  for ok ops env sub where
  init_failed: "(\<forall>h. res = Inr h \<longrightarrow> ok h) \<Longrightarrow> try_init ops env w reported res = (Inl e, w') \<Longrightarrow> \<not> syncer_is_fatal e \<Longrightarrow>
    sy_step ok ops env sub (Connecting reported, w) (Connecting True, w')"
| init_fatal: "(\<forall>h. res = Inr h \<longrightarrow> ok h) \<Longrightarrow> try_init ops env w reported res = (Inl e, w') \<Longrightarrow> syncer_is_fatal e \<Longrightarrow>
    sy_step ok ops env sub (Connecting reported, w) (Stopped (Some e), w')"
| init_done: "(\<forall>h. res = Inr h \<longrightarrow> ok h) \<Longrightarrow> try_init ops env w reported res = (Inr network_head, w') \<Longrightarrow>
    sy_step ok ops env sub (Connecting reported, w)
      (connected (fetch_next_batch ops env sub peers (init_finished w' network_head took)))"
| init_sub_failed: "(\<forall>h. res = Inr h \<longrightarrow> ok h) \<Longrightarrow> try_init ops env w reported res = (Inr network_head, w') \<Longrightarrow>
    sy_step ok ops env sub (Connecting reported, w)
      (Stopped (Some (SyncerP2p WorkerDied)), set_subjective_head_height w' (height network_head))"
| init_no_peers: "(\<forall>h. res = Inr h \<longrightarrow> ok h) \<Longrightarrow> try_init ops env w reported res = (Inr network_head, w') \<Longrightarrow>
    sy_step ok ops env sub (Connecting reported, w) (Connecting False, init_finished w' network_head took)"
| header_sub: "ok h \<Longrightarrow>
    sy_step ok ops env sub (Connected, w)
      (connected (fetch_next_batch ops env sub peers (sy_on_header_sub_message ops env w h)))"
| header_sub_closed: "sy_step ok ops env sub (Connected, w) (Stopped (Some (SyncerP2p WorkerDied)), w)"
| batch_done: "sy_ongoing w \<noteq> None \<Longrightarrow> (\<forall>hs. res = Inr hs \<longrightarrow> (\<forall>h \<in> set hs. ok h)) \<Longrightarrow>
    on_fetch_next_batch_result ops env w res took = (Inr (), w') \<Longrightarrow>
    sy_step ok ops env sub (Connected, w) (connected (fetch_next_batch ops env sub peers w'))"
| batch_fatal: "sy_ongoing w \<noteq> None \<Longrightarrow> (\<forall>hs. res = Inr hs \<longrightarrow> (\<forall>h \<in> set hs. ok h)) \<Longrightarrow>
    on_fetch_next_batch_result ops env w res took = (Inl e, w') \<Longrightarrow>
    sy_step ok ops env sub (Connected, w) (Stopped (Some e), w')"
| info_failed: "sy_syncing_info ops w = Inl e \<Longrightarrow> ph = Connecting reported \<or> ph = Connected \<Longrightarrow>
    sy_step ok ops env sub (ph, w) (Stopped (Some e), w)"
| disconnected: "sy_step ok ops env sub (Connected, w) (Connecting False, leave_connected w)"
| cancelled_connecting: "sy_step ok ops env sub (Connecting reported, w) (Stopped None, w)"
| cancelled_connected: "sy_step ok ops env sub (Connected, w) (Stopped None, leave_connected w)"

inductive_cases sy_step_cases: "sy_step ok ops env sub (ph, w) (ph', w')"

section \<open>The range to fetch: what it is\<close>

lemma truncate_right_eq:
  "0 < a \<Longrightarrow> b \<le> i64_max \<Longrightarrow> truncate_right (a, b) n = (if b < a then (1, 0) else (a, min b (a + n - 1)))"
  by (auto simp: truncate_right_def range_is_empty_def width_defs i64_max_def u64_max_def)

lemma truncate_left_eq:
  "0 < a \<Longrightarrow> b \<le> i64_max \<Longrightarrow> truncate_left (a, b) n = (if b < a then (1, 0) else (max a (b - n + 1), b))"
  by (auto simp: truncate_left_def range_is_empty_def width_defs i64_max_def u64_max_def)

lemma calc_Nil: "calculate_range_to_fetch subj [] limit = truncate_right (1, subj) limit"
  by (simp add: calculate_range_to_fetch_def)

lemma calc_snoc:
  "calculate_range_to_fetch subj (ys @ [r]) limit =
     (if snd r < subj then truncate_right (snd r + 1, subj) limit
      else truncate_left ((if ys = [] then 0 else snd (last ys)) + 1, fst r - 1) limit)"
  by (cases ys rule: rev_cases) (simp_all add: calculate_range_to_fetch_def saturating_sub_def)

lemma snoc_heights:
  assumes "canonical (ys @ [r])"
  shows "Max (heights (ys @ [r])) = snd r" "valid_range r"
    and "\<And>h. h \<in> heights ys \<Longrightarrow> h \<le> (if ys = [] then 0 else snd (last ys))"
    and "(if ys = [] then 0 else snd (last ys)) + 1 < fst r \<or> ys = []"
proof -
  have v: "valid_range r" and c: "canonical ys" and lt: "\<forall>q \<in> set ys. snd q + 1 < fst r"
    using assms by (auto simp: canonical_append)
  show "valid_range r" by (rule v)
  show below: "h \<le> (if ys = [] then 0 else snd (last ys))" if "h \<in> heights ys" for h
    using that wf_last_ge [OF canonical_wf [OF c]] by (force simp: heights_def)
  show gap: "(if ys = [] then 0 else snd (last ys)) + 1 < fst r \<or> ys = []" using lt by auto
  show "Max (heights (ys @ [r])) = snd r"
  proof (rule Max_eqI)
    fix h assume "h \<in> heights (ys @ [r])"
    then show "h \<le> snd r" using below [of h] gap v by (auto simp: valid_range_def split: if_splits)
  qed (use v in \<open>auto simp: valid_range_def\<close>)
qed

lemma calc_sound:
  assumes can: "canonical rs" and le: "\<forall>h \<in> heights rs. h \<le> i64_max" "subj \<le> i64_max"
    and ne: "\<not> range_is_empty (calculate_range_to_fetch subj rs limit)"
  shows "insertion_allowed rs (calculate_range_to_fetch subj rs limit)"
    and "snd (calculate_range_to_fetch subj rs limit) < fst (calculate_range_to_fetch subj rs limit) + limit"
    and "snd (calculate_range_to_fetch subj rs limit) \<le> max subj (Max (insert 0 (heights rs)))"
proof -
  let ?x = "calculate_range_to_fetch subj rs limit"
  have "insertion_allowed rs ?x \<and> snd ?x < fst ?x + limit \<and> snd ?x \<le> max subj (Max (insert 0 (heights rs)))"
  proof (cases rs rule: rev_cases)
    case Nil
    then show ?thesis using ne le
      by (auto simp: calc_Nil truncate_right_eq range_is_empty_def insertion_allowed_def valid_range_def split: if_splits)
  next
    case (snoc ys r)
    note sn = snoc_heights [OF can [unfolded snoc]]
    have rle: "snd r \<le> i64_max" using le(1) sn(2) snoc by (auto simp: valid_range_def)
    have r_in: "fst r \<in> heights rs" "snd r \<in> heights rs" using snoc sn(2) by (auto simp: valid_range_def)
    show ?thesis
    proof (cases "snd r < subj")
      case True
      then have x: "?x = (snd r + 1, min subj (snd r + limit))" using snoc le(2) by (simp add: calc_snoc truncate_right_eq)
      have "Max (heights rs) = snd r" using sn(1) snoc by simp
      moreover have "h \<le> snd r" if "h \<in> heights rs" for h using that Max_ge [of "heights rs" h] calculation by simp
      ultimately show ?thesis using x ne by (fastforce simp: insertion_allowed_def valid_range_def range_is_empty_def)
    next
      case False
      let ?p = "if ys = [] then 0 else snd (last ys)"
      have b: "fst r - 1 \<le> i64_max" using rle sn(2) by (auto simp: valid_range_def)
      have x: "?x = (max (?p + 1) (fst r - 1 - limit + 1), fst r - 1)" and pr: "?p + 1 \<le> fst r - 1"
        using snoc ne False truncate_left_eq [of "?p + 1" "fst r - 1" limit] b
        by (auto simp: calc_snoc range_is_empty_def split: if_splits)
      have "heights rs \<inter> {fst ?x..snd ?x} = {}"
      proof -
        have "h \<le> ?p \<or> fst r \<le> h" if "h \<in> heights rs" for h using that sn(3) [of h] snoc by auto
        then show ?thesis using pr unfolding x by fastforce
      qed
      moreover have "snd ?x + 1 \<in> heights rs" using r_in(1) pr unfolding x by simp
      moreover have "snd ?x \<le> Max (insert 0 (heights rs))"
      proof -
        have "fst r \<le> Max (insert 0 (heights rs))" by (rule Max_ge) (use r_in(1) in auto)
        then show ?thesis unfolding x by simp
      qed
      ultimately show ?thesis using x pr ne by (auto simp: insertion_allowed_def valid_range_def range_is_empty_def)
    qed
  qed
  then show "insertion_allowed rs ?x" "snd ?x < fst ?x + limit" "snd ?x \<le> max subj (Max (insert 0 (heights rs)))"
    by blast+
qed

lemma calc_empty_iff:
  assumes can: "canonical rs" and le: "\<forall>h \<in> heights rs. h \<le> i64_max" "subj \<le> i64_max" and lim: "0 < limit"
  shows "range_is_empty (calculate_range_to_fetch subj rs limit) \<longleftrightarrow> (\<exists>m \<ge> subj. heights rs = {1..m})"
proof (cases rs rule: rev_cases)
  case Nil
  have "{} = {1..m} \<longleftrightarrow> m = 0" for m :: nat by auto
  then show ?thesis using Nil lim le by (auto simp: calc_Nil truncate_right_eq range_is_empty_def)
next
  case (snoc ys r)
  note sn = snoc_heights [OF can [unfolded snoc]]
  have rle: "snd r \<le> i64_max" using le(1) sn(2) snoc by (auto simp: valid_range_def)
  show ?thesis
  proof
    assume e: "range_is_empty (calculate_range_to_fetch subj rs limit)"
    have nlt: "\<not> snd r < subj"
      using e lim le(2) snoc by (auto simp: calc_snoc truncate_right_eq range_is_empty_def split: if_splits)
    have b: "fst r - 1 \<le> i64_max" using rle sn(2) by (auto simp: valid_range_def)
    have "ys = [] \<and> fst r = 1"
      using e nlt lim b sn(2,4) snoc
        truncate_left_eq [of "(if ys = [] then 0 else snd (last ys)) + 1" "fst r - 1" limit]
      by (auto simp: calc_snoc range_is_empty_def valid_range_def split: if_splits)
    then show "\<exists>m \<ge> subj. heights rs = {1..m}" using snoc nlt by (intro exI [of _ "snd r"]) auto
  next
    assume "\<exists>m \<ge> subj. heights rs = {1..m}"
    then obtain m where m: "subj \<le> m" "heights rs = {1..m}" by blast
    then have "0 < m" using snoc sn(2) by (cases m) (auto simp: valid_range_def)
    then have "rs = [(1, m)]" using canonical_unique [OF can, of "[(1, m)]"] m(2) by (simp add: valid_range_def)
    then show "range_is_empty (calculate_range_to_fetch subj rs limit)"
      using m(1) calc_snoc [of subj "[]" "(1, m)" limit] by (simp add: truncate_left_eq range_is_empty_def)
  qed
qed

section \<open>The invariant of the worker\<close>

text \<open>
  The store stays consistent, the batch that is being fetched is a range of at most the batch size, no
  batch is pending while connecting, and the only errors that stop the worker are fatal errors of the
  networking component.
\<close>

definition wk_inv :: "('s \<Rightarrow> bool) \<Rightarrow> 's syncer \<Rightarrow> bool" where
  "wk_inv I w \<longleftrightarrow> I (sy_store w) \<and> (\<forall>h. sy_subjective_head_height w = Some h \<longrightarrow> h \<le> i64_max) \<and>
     (\<forall>r. sy_ongoing w = Some r \<longrightarrow> valid_range r \<and> snd r < fst r + sy_batch_size w)"

fun sy_inv :: "('s \<Rightarrow> bool) \<Rightarrow> phase \<times> 's syncer \<Rightarrow> bool" where
  "sy_inv I (Connecting _, w) \<longleftrightarrow> wk_inv I w \<and> sy_ongoing w = None" |
  "sy_inv I (Connected, w) \<longleftrightarrow> wk_inv I w" |
  "sy_inv I (Stopped e, w) \<longleftrightarrow> wk_inv I w \<and> (\<forall>x. e = Some x \<longrightarrow> (\<exists>p. x = SyncerP2p p \<and> p2p_is_fatal p))"

definition sy_reachable ::
  "(extended_header \<Rightarrow> bool) \<Rightarrow> 's store_ops \<Rightarrow> tm_env \<Rightarrow> (time \<Rightarrow> duration \<Rightarrow> time option) \<Rightarrow> 's syncer \<Rightarrow> phase \<times> 's syncer \<Rightarrow> bool" where
  "sy_reachable ok ops env sub w0 pw \<longleftrightarrow> (sy_step ok ops env sub)\<^sup>*\<^sup>* (Connecting False, w0) pw"

lemma sy_send_fields [simp]:
  "sy_store (sy_send e w) = sy_store w" "sy_ongoing (sy_send e w) = sy_ongoing w"
  "sy_subjective_head_height (sy_send e w) = sy_subjective_head_height w" "sy_batch_size (sy_send e w) = sy_batch_size w"
  "sy_syncing_window (sy_send e w) = sy_syncing_window w"
  by (simp_all add: sy_send_def)

lemma set_subjective_fields [simp]:
  "sy_store (set_subjective_head_height w h) = sy_store w" "sy_ongoing (set_subjective_head_height w h) = sy_ongoing w"
  "sy_batch_size (set_subjective_head_height w h) = sy_batch_size w"
  "sy_subjective_head_height (set_subjective_head_height w h) =
     Some (case sy_subjective_head_height w of None \<Rightarrow> h | Some old \<Rightarrow> max old h)"
  by (auto simp: set_subjective_head_height_def split: option.split)

lemma wk_inv_subjective: "wk_inv I w \<Longrightarrow> h \<le> i64_max \<Longrightarrow> wk_inv I (set_subjective_head_height w h)"
  by (auto simp: wk_inv_def split: option.splits)

lemma wk_inv_send [simp]: "wk_inv I (sy_send e w) = wk_inv I w"
  by (simp add: wk_inv_def)

context atomic_store
begin

lemma fetch_next_batch_inv:
  assumes inv: "wk_inv st_invar w"
  shows "\<exists>w'. fetch_next_batch ops env sub peers w = (Inr (), w') \<and> wk_inv st_invar w'"
proof (cases "sy_ongoing w \<noteq> None \<or> peers = 0 \<or> sy_subjective_head_height w = None")
  case True
  then show ?thesis using inv by (auto simp: fetch_next_batch_def)
next
  case False
  then obtain subj where subj: "sy_subjective_head_height w = Some subj" "sy_ongoing w = None" "0 < peers" by blast
  have i: "st_invar (sy_store w)" using inv by (simp add: wk_inv_def)
  obtain rs where rs: "so_get_stored_header_ranges ops (sy_store w) = Inr rs" "canonical rs" "heights rs = dom (st_headers (sy_store w))"
    using st_ranges [OF i] by blast
  let ?x = "calculate_range_to_fetch subj rs (sy_batch_size w)"
  have le: "\<forall>h \<in> heights rs. h \<le> i64_max" "subj \<le> i64_max"
    using st_bounded [OF i] rs(3) inv subj(1) by (auto simp: wk_inv_def)
  show ?thesis
  proof (cases "range_is_empty ?x")
    case True
    then show ?thesis using subj rs inv by (simp add: fetch_next_batch_def Let_def)
  next
    case ne: False
    note s = calc_sound [OF rs(2) le ne]
    have "wk_inv st_invar (sy_send e w\<lparr> sy_ongoing := Some ?x \<rparr>)" for e
      using inv s by (simp add: wk_inv_def insertion_allowed_def)
    then show ?thesis
      using subj rs(1) ne inv st_get_by_height [OF i, of "snd ?x + 1"]
      by (cases "st_headers (sy_store w) (snd ?x + 1)") (simp_all add: fetch_next_batch_def Let_def)
  qed
qed

lemma header_sub_message_inv:
  assumes "wk_inv st_invar w" "st_header_ok h"
  shows "wk_inv st_invar (sy_on_header_sub_message ops env w h)"
proof -
  let ?w = "set_subjective_head_height w (height h)"
  have i: "wk_inv st_invar ?w" using wk_inv_subjective [OF assms(1) st_ok_height [OF assms(2)]] .
  obtain r s where ins: "so_insert ops env (sy_store w) [h] = (r, s)" by fastforce
  have "st_invar s" using insert_invar [OF _ _ ins] assms by (simp add: wk_inv_def)
  then have "wk_inv st_invar (?w\<lparr> sy_store := s \<rparr>)" using i by (simp add: wk_inv_def)
  then show ?thesis using i ins by (auto simp: sy_on_header_sub_message_def Let_def split: sum.splits)
qed

lemma batch_result_inv:
  assumes inv: "wk_inv st_invar w" and on: "sy_ongoing w \<noteq> None"
    and ok: "\<forall>hs. res = Inr hs \<longrightarrow> (\<forall>h \<in> set hs. st_header_ok h)"
    and res: "on_fetch_next_batch_result ops env w res took = (r, w')"
  shows "wk_inv st_invar w' \<and> (\<forall>e. r = Inl e \<longrightarrow> (\<exists>p. e = SyncerP2p p \<and> p2p_is_fatal p))"
proof (cases res)
  case (Inl e)
  then show ?thesis
    using res on inv by (auto simp: on_fetch_next_batch_result_def Let_def wk_inv_def split: if_splits)
next
  case (Inr hs)
  obtain q s where ins: "so_insert ops env (sy_store w) hs = (q, s)" by fastforce
  have i: "st_invar (sy_store w)" "\<forall>h \<in> set hs. st_header_ok h" using inv ok Inr by (auto simp: wk_inv_def)
  have "st_invar s" by (rule insert_invar [OF i ins])
  moreover have "\<not> is_fatal e" if "q = Inl e" for e using st_insert_error [OF i] ins that by blast
  ultimately show ?thesis
    using res on inv Inr ins
    by (cases q) (auto simp: on_fetch_next_batch_result_def Let_def wk_inv_def)
qed

lemma try_init_inv:
  assumes inv: "wk_inv st_invar w" and ok: "\<forall>h. res = Inr h \<longrightarrow> st_header_ok h"
    and res: "try_init ops env w reported res = (r, w')"
  shows "wk_inv st_invar w' \<and> sy_ongoing w' = sy_ongoing w \<and> (\<forall>h. r = Inr h \<longrightarrow> height h \<le> i64_max) \<and>
    (\<forall>e. r = Inl e \<longrightarrow> syncer_is_fatal e \<longrightarrow> (\<exists>p. e = SyncerP2p p \<and> p2p_is_fatal p))"
proof (cases res)
  case (Inl e)
  then show ?thesis using res inv by (auto simp: try_init_def Let_def)
next
  case (Inr h)
  obtain q s where ins: "so_insert ops env (sy_store w) [h] = (q, s)" by fastforce
  have i: "st_invar (sy_store w)" "\<forall>x \<in> set [h]. st_header_ok x" using inv ok Inr by (auto simp: wk_inv_def)
  have hd: "so_get_head ops (sy_store w) = Inl NotFound \<or> (\<exists>x. so_get_head ops (sy_store w) = Inr x)"
    using sa_head [OF i(1)] st_head_height [OF i(1)] st_get_by_height [OF i(1)] by (simp add: ok_or_def split: option.split)
  have "st_invar s" by (rule insert_invar [OF i ins])
  moreover have "\<not> is_fatal e" if "q = Inl e" for e using st_insert_error [OF i] ins that by blast
  moreover have "height h \<le> i64_max" using st_ok_height i(2) by simp
  ultimately show ?thesis
    using res inv Inr ins hd
    by (cases q) (auto simp: try_init_def Let_def wk_inv_def split: if_splits)
qed

lemma connected_inv: "wk_inv st_invar w \<Longrightarrow> sy_inv st_invar (connected (fetch_next_batch ops env sub peers w))"
  using fetch_next_batch_inv [of w env sub peers] by (auto simp: connected_def)

lemma sy_step_inv:
  "sy_step st_header_ok ops env sub pw pw' \<Longrightarrow> sy_inv st_invar pw \<Longrightarrow> sy_inv st_invar pw'"
proof (induction rule: sy_step.induct)
  case (init_failed res w reported e w')
  then show ?case using try_init_inv [of w res env reported "Inl e" w'] by auto
next
  case (init_fatal res w reported e w')
  then show ?case using try_init_inv [of w res env reported "Inl e" w'] by auto
next
  case (init_done res w reported network_head w' peers took)
  then have i: "wk_inv st_invar w'" "height network_head \<le> i64_max"
    using try_init_inv [of w res env reported "Inr network_head" w'] by auto
  have "wk_inv st_invar (init_finished w' network_head took)"
    using wk_inv_subjective [OF i] by (simp add: init_finished_def wk_inv_def)
  then show ?case by (rule connected_inv)
next
  case (init_sub_failed res w reported network_head w')
  then have i: "wk_inv st_invar w'" "height network_head \<le> i64_max"
    using try_init_inv [of w res env reported "Inr network_head" w'] by auto
  then show ?case using wk_inv_subjective [OF i] by simp
next
  case (init_no_peers res w reported network_head w' took)
  then have i: "wk_inv st_invar w'" "height network_head \<le> i64_max" "sy_ongoing w' = None"
    using try_init_inv [of w res env reported "Inr network_head" w'] by auto
  then show ?case using wk_inv_subjective [OF i(1,2)] by (simp add: init_finished_def wk_inv_def)
next
  case (header_sub h w peers)
  then show ?case using connected_inv [OF header_sub_message_inv] by simp
next
  case (batch_done w res took w' peers)
  then have "wk_inv st_invar w'" using batch_result_inv [of w res env took "Inr ()" w'] by auto
  then show ?case by (rule connected_inv)
next
  case (batch_fatal w res took e w')
  then show ?case using batch_result_inv [of w res env took "Inl e" w'] by auto
next
  case (info_failed w e ph reported)
  have "st_invar (sy_store w)" using info_failed(2,3) by (auto simp: wk_inv_def)
  from st_ranges [OF this] have "\<exists>i. sy_syncing_info ops w = Inr i" by (auto simp: sy_syncing_info_def)
  then show ?case using info_failed(1) by auto
qed (auto simp: leave_connected_def wk_inv_def)

lemma sy_reachable_inv:
  assumes "sy_reachable st_header_ok ops env sub (syncer_new s batch window) pw" "st_invar s"
  shows "sy_inv st_invar pw"
  using assms(1) unfolding sy_reachable_def
proof (induction rule: rtranclp_induct)
  case base
  then show ?case using assms(2) by (simp add: syncer_new_def wk_inv_def)
qed (rule sy_step_inv)

end
section \<open>Syncing completes\<close>

text \<open>
  A round of the connected loop: schedule the next batch and handle the answer of a peer that sends the
  requested headers of the chain.
\<close>

definition sync_round ::
  "'s store_ops \<Rightarrow> tm_env \<Rightarrow> (time \<Rightarrow> duration \<Rightarrow> time option) \<Rightarrow> nat \<Rightarrow> (nat \<Rightarrow> extended_header) \<Rightarrow> duration \<Rightarrow>
     's syncer \<Rightarrow> 's syncer" where
  "sync_round ops env sub peers chain took w =
     (let w = snd (fetch_next_batch ops env sub peers w) in
      case sy_ongoing w of
        None \<Rightarrow> w
      | Some r \<Rightarrow> snd (on_fetch_next_batch_result ops env w (Inr (map chain [range_start r..<range_end r + 1])) took))"

text \<open>The headers of a chain up to a height, as an honest network serves them.\<close>

definition honest_chain :: "(extended_header \<Rightarrow> bool) \<Rightarrow> tm_env \<Rightarrow> (nat \<Rightarrow> extended_header) \<Rightarrow> nat \<Rightarrow> bool" where
  "honest_chain ok env chain H \<longleftrightarrow> H \<le> i64_max \<and>
     (\<forall>h \<in> {1..H}. height (chain h) = h \<and> ok (chain h) \<and> not_from_future env (chain h)) \<and>
     (\<forall>h \<in> {1..<H}. extends (chain h) (chain (Suc h))) \<and> inj_on (eh_hash \<circ> chain) {1..H}"

definition part_of :: "(nat \<Rightarrow> extended_header) \<Rightarrow> nat \<Rightarrow> (nat \<rightharpoonup> extended_header) \<Rightarrow> bool" where
  "part_of chain H m \<longleftrightarrow> (\<forall>h x. m h = Some x \<longrightarrow> 0 < h \<and> h \<le> H \<and> x = chain h)"

lemma honest_chain_part:
  assumes ch: "honest_chain ok env chain H" and ab: "0 < a" "a \<le> b" "b \<le> H"
  shows "acceptable env (chain a) (map chain [Suc a..<Suc b])"
    and "last (chain a # map chain [Suc a..<Suc b]) = chain b"
    and "set (chain a # map chain [Suc a..<Suc b]) = chain ` {a..b}"
proof -
  let ?m = "\<lambda>h. if h \<in> {1..H} then Some (chain h) else None"
  have "linked ?m" using ch by (auto simp: linked_def honest_chain_def split: if_splits)
  then have "chained (the (?m a)) (map (the \<circ> ?m) [Suc a..<Suc b])"
    by (rule linked_chained) (use ab in auto)
  moreover have "map (the \<circ> ?m) [Suc a..<Suc b] = map chain [Suc a..<Suc b]"
    by (rule map_cong) (use ab in auto)
  moreover have "the (?m a) = chain a" using ab by simp
  ultimately have "chained (chain a) (map chain [Suc a..<Suc b])" by (simp only:)
  moreover have "list_all (not_from_future env) (map chain [Suc a..<Suc b])"
    using ch ab by (auto simp: list_all_iff honest_chain_def)
  moreover have "height (chain a) = a" "H \<le> i64_max" using ch ab by (auto simp: honest_chain_def)
  ultimately show "acceptable env (chain a) (map chain [Suc a..<Suc b])"
    using ab by (simp add: acceptable_def del: upt_Suc)
  show "last (chain a # map chain [Suc a..<Suc b]) = chain b"
    using ab by (cases "a = b") (simp_all add: last_map)
  show "set (chain a # map chain [Suc a..<Suc b]) = chain ` {a..b}"
    using ab atLeastAtMost_insertL [of a b] by (simp del: upt_Suc) (metis image_insert atLeastLessThanSuc_atLeastAtMost)
qed

lemma honest_chain_insertable:
  assumes ch: "honest_chain ok env chain H" and m: "part_of chain H m" and ab: "0 < a" "a \<le> b" "b \<le> H"
    and dj: "dom m \<inter> {a..b} = {}"
    and nx: "dom m = {} \<or> Max (dom m) < a \<or> a - 1 \<in> dom m \<or> b + 1 \<in> dom m"
  shows "insertable env m (chain a) (map chain [Suc a..<Suc b])"
proof -
  note cp = honest_chain_part [OF ch ab]
  have hc: "height (chain h) = h" "not_from_future env (chain h)" if "0 < h" "h \<le> H" for h
    using ch that by (auto simp: honest_chain_def)
  have ver: "verify env (chain h) (chain (Suc h)) = Inr ()" if "0 < h" "Suc h \<le> H" for h
    using verify_adjacent_iff [of "chain (Suc h)" "chain h" env] hc [of h] hc [of "Suc h"] that ch
    by (auto simp: honest_chain_def)
  have inj: "i = j" if "eh_hash (chain i) = eh_hash (chain j)" "i \<in> {1..H}" "j \<in> {1..H}" for i j
    using inj_onD [of "eh_hash \<circ> chain" "{1..H}" i j] ch that by (simp add: honest_chain_def)
  have "distinct (map eh_hash (chain a # map chain [Suc a..<Suc b]))"
  proof -
    have "chain a # map chain [Suc a..<Suc b] = map chain [a..<Suc b]" using ab by (simp add: upt_conv_Cons del: upt_Suc)
    then show ?thesis using inj ab by (auto simp: distinct_map inj_on_def simp del: upt_Suc)
  qed
  moreover have "\<forall>h \<in> set (chain a # map chain [Suc a..<Suc b]). \<forall>y \<in> ran m. eh_hash y \<noteq> eh_hash h"
    unfolding cp(3)
  proof (intro ballI notI)
    fix x y assume "x \<in> chain ` {a..b}" "y \<in> ran m" and e: "eh_hash y = eh_hash x"
    then obtain i j where i: "x = chain i" "i \<in> {a..b}" and j: "m j = Some y" by (auto simp: ran_def)
    have y: "y = chain j" "0 < j" "j \<le> H" using m j by (auto simp: part_of_def)
    with i e inj [of j i] ab have "j = i" by auto
    with dj i j show False by blast
  qed
  moreover have "verify env p (chain a) = Inr ()" if "m (a - 1) = Some p" for p
  proof -
    have "0 < a - 1 \<and> p = chain (a - 1)" using m that unfolding part_of_def by blast
    then show ?thesis using ver [of "a - 1"] ab by simp
  qed
  moreover have "verify env (chain b) q = Inr ()" if "m (b + 1) = Some q" for q
    using m that ver [of b] ab by (auto simp: part_of_def)
  ultimately show ?thesis
    unfolding insertable_def cp(2) using cp(1) hc [of a] hc [of b] ab dj nx by simp
qed

definition syncing ::
  "('s \<Rightarrow> bool) \<Rightarrow> ('s \<Rightarrow> nat \<rightharpoonup> extended_header) \<Rightarrow> tm_env \<Rightarrow> (time \<Rightarrow> duration \<Rightarrow> time option) \<Rightarrow>
     (nat \<Rightarrow> extended_header) \<Rightarrow> nat \<Rightarrow> 's syncer \<Rightarrow> bool" where
  "syncing I hdrs env sub chain H w \<longleftrightarrow> I (sy_store w) \<and> sy_ongoing w = None \<and>
     sy_subjective_head_height w = Some H \<and> 0 < sy_batch_size w \<and> part_of chain H (hdrs (sy_store w)) \<and>
     (\<forall>h \<in> {1..H}. in_syncing_window env sub w (chain h))"

context atomic_store
begin

lemma fetch_starts:
  assumes sy: "syncing st_invar st_headers env sub chain H w" and H: "H \<le> i64_max" and p: "0 < peers"
    and ne: "dom (st_headers (sy_store w)) \<noteq> {1..H}"
  shows "\<exists>r w'. fetch_next_batch ops env sub peers w = (Inr (), w') \<and> sy_ongoing w' = Some r \<and>
    sy_store w' = sy_store w \<and> sy_subjective_head_height w' = Some H \<and> sy_batch_size w' = sy_batch_size w \<and>
    sy_syncing_window w' = sy_syncing_window w \<and>
    0 < fst r \<and> fst r \<le> snd r \<and> snd r \<le> H \<and> dom (st_headers (sy_store w)) \<inter> {fst r..snd r} = {} \<and>
    (dom (st_headers (sy_store w)) = {} \<or> Max (dom (st_headers (sy_store w))) < fst r \<or>
     fst r - 1 \<in> dom (st_headers (sy_store w)) \<or> snd r + 1 \<in> dom (st_headers (sy_store w)))"
proof -
  let ?m = "st_headers (sy_store w)"
  have i: "st_invar (sy_store w)" and on: "sy_ongoing w = None" and subj: "sy_subjective_head_height w = Some H"
    and b: "0 < sy_batch_size w" and part: "part_of chain H ?m"
    and win: "\<forall>h \<in> {1..H}. in_syncing_window env sub w (chain h)"
    using sy by (auto simp: syncing_def)
  obtain rs where rs: "so_get_stored_header_ranges ops (sy_store w) = Inr rs" "canonical rs" "heights rs = dom ?m"
    using st_ranges [OF i] by blast
  have le: "\<forall>h \<in> heights rs. h \<le> i64_max" using st_bounded [OF i] rs(3) by auto
  have sub': "dom ?m \<subseteq> {1..H}" using part by (force simp: part_of_def)
  let ?x = "calculate_range_to_fetch H rs (sy_batch_size w)"
  have x: "\<not> range_is_empty ?x"
  proof
    assume "range_is_empty ?x"
    then obtain m where "H \<le> m" "dom ?m = {1..m}" using calc_empty_iff [OF rs(2) le H b] rs(3) by auto
    moreover from this sub' have "m \<le> H" by (cases m) auto
    ultimately show False using ne by simp
  qed
  note s = calc_sound [OF rs(2) le H x]
  have "Max (insert 0 (heights rs)) \<le> H" using sub' rs(3) finite_heights [of rs] by (intro Max.boundedI) auto
  then have up: "snd ?x \<le> H" using s(3) by simp
  have al: "0 < fst ?x" "fst ?x \<le> snd ?x" "dom ?m \<inter> {fst ?x..snd ?x} = {}"
    "dom ?m = {} \<or> Max (dom ?m) < fst ?x \<or> fst ?x - 1 \<in> dom ?m \<or> snd ?x + 1 \<in> dom ?m"
    using s(1) rs(3) by (auto simp: insertion_allowed_def valid_range_def)
  have "fetch_next_batch ops env sub peers w =
      (Inr (), (sy_send (FetchingHeadersStarted (fst ?x) (snd ?x)) w)\<lparr> sy_ongoing := Some ?x \<rparr>)"
  proof (cases "?m (snd ?x + 1)")
    case None
    then show ?thesis using on subj p rs(1) x st_get_by_height [OF i, of "snd ?x + 1"]
      by (simp add: fetch_next_batch_def Let_def)
  next
    case (Some k)
    then have "snd ?x + 1 \<in> {1..H}" "k = chain (snd ?x + 1)" using part unfolding part_of_def by auto
    then have "in_syncing_window env sub w k" using win by blast
    then show ?thesis using Some on subj p rs(1) x st_get_by_height [OF i, of "snd ?x + 1"]
      by (simp add: fetch_next_batch_def Let_def)
  qed
  then show ?thesis using al up subj by (intro exI [of _ ?x]) (simp del: Max_less_iff)
qed

lemma sync_round_progress:
  assumes ch: "honest_chain st_header_ok env chain H" and sy: "syncing st_invar st_headers env sub chain H w"
    and p: "0 < peers" and ne: "dom (st_headers (sy_store w)) \<noteq> {1..H}"
  shows "syncing st_invar st_headers env sub chain H (sync_round ops env sub peers chain took w) \<and>
    dom (st_headers (sy_store w)) \<subset> dom (st_headers (sy_store (sync_round ops env sub peers chain took w)))"
proof -
  let ?m = "st_headers (sy_store w)"
  have H: "H \<le> i64_max" using ch by (simp add: honest_chain_def)
  from fetch_starts [OF sy H p ne] obtain r w' where f: "fetch_next_batch ops env sub peers w = (Inr (), w')"
    "sy_ongoing w' = Some r" "sy_store w' = sy_store w" "sy_subjective_head_height w' = Some H"
    "sy_batch_size w' = sy_batch_size w" "sy_syncing_window w' = sy_syncing_window w"
    and r: "0 < fst r" "fst r \<le> snd r" "snd r \<le> H" "dom ?m \<inter> {fst r..snd r} = {}"
      "dom ?m = {} \<or> Max (dom ?m) < fst r \<or> fst r - 1 \<in> dom ?m \<or> snd r + 1 \<in> dom ?m" by blast
  have i: "st_invar (sy_store w)" and part: "part_of chain H ?m" using sy by (auto simp: syncing_def)
  let ?hs = "chain (fst r) # map chain [Suc (fst r)..<Suc (snd r)]"
  have hs: "map chain [fst r..<snd r + 1] = ?hs" using r(2) by (simp add: upt_conv_Cons del: upt_Suc)
  note cp = honest_chain_part [OF ch r(1-3)]
  have hc: "height (chain h) = h" "st_header_ok (chain h)" if "h \<in> {fst r..snd r}" for h
    using ch that r(1,3) by (auto simp: honest_chain_def)
  then have ok: "\<forall>h \<in> set ?hs. st_header_ok h" unfolding cp(3) by blast
  obtain s' where s': "so_insert ops env (sy_store w) ?hs = (Inr (), s')"
    using st_insert_succeeds [OF i ok honest_chain_insertable [OF ch part r]] by blast
  note ins = st_insert [OF i ok s']
  have eq: "sync_round ops env sub peers chain took w =
      sy_send (FetchingHeadersFinished (fst r) (snd r) took) (w'\<lparr> sy_ongoing := None, sy_store := s' \<rparr>)"
    using f s' hs unfolding sync_round_def
    by (simp add: Let_def on_fetch_next_batch_result_def del: upt_Suc)
  have hm: "headers_map ?hs k = Some x \<longleftrightarrow> k \<in> {fst r..snd r} \<and> x = chain k" for k x
    using headers_map_Some [of ?hs k x] ins hc unfolding cp(3) by auto
  have part': "part_of chain H (st_headers s')"
    using part ins hm r(1,3) by (auto simp: part_of_def map_add_Some_iff)
  have "dom (headers_map ?hs) = {fst r..snd r}" using hm by (auto simp: dom_def)
  then have "dom (st_headers s') = dom ?m \<union> {fst r..snd r}" using ins by auto
  then have "dom ?m \<subset> dom (st_headers s')" using r(2,4) by (metis Un_upper1 atLeastAtMost_iff disjoint_iff le_refl order_less_le psubsetI subsetD sup.orderE UnI2)
  moreover have "in_syncing_window env sub (w'\<lparr> sy_ongoing := None, sy_store := s' \<rparr>) h = in_syncing_window env sub w h" for h
    using f(6) by (simp add: in_syncing_window_def)
  ultimately show ?thesis
    unfolding eq using f sy part' ins by (simp add: syncing_def in_syncing_window_def)
qed

lemma sync_completes:
  assumes ch: "honest_chain st_header_ok env chain H" and p: "0 < peers"
    and sy: "syncing st_invar st_headers env sub chain H w"
  shows "\<exists>n \<le> H. syncing st_invar st_headers env sub chain H ((sync_round ops env sub peers chain took ^^ n) w) \<and>
    dom (st_headers (sy_store ((sync_round ops env sub peers chain took ^^ n) w))) = {1..H}"
proof -
  let ?f = "sync_round ops env sub peers chain took"
  let ?done = "\<lambda>w. syncing st_invar st_headers env sub chain H w \<and> dom (st_headers (sy_store w)) = {1..H}"
  have "\<exists>n \<le> k. ?done ((?f ^^ n) w)"
    if "syncing st_invar st_headers env sub chain H w" "card ({1..H} - dom (st_headers (sy_store w))) \<le> k" for k w
    using that
  proof (induction k arbitrary: w)
    case 0
    then have "dom (st_headers (sy_store w)) = {1..H}" by (force simp: syncing_def part_of_def)
    then show ?case using 0 by simp
  next
    case (Suc k)
    show ?case
    proof (cases "dom (st_headers (sy_store w)) = {1..H}")
      case True
      then show ?thesis using Suc.prems(1) by (intro exI [of _ 0]) simp
    next
      case False
      note pr = sync_round_progress [OF ch Suc.prems(1) p False, of took]
      have "dom (st_headers (sy_store (?f w))) \<subseteq> {1..H}" using pr by (force simp: syncing_def part_of_def)
      then have "{1..H} - dom (st_headers (sy_store (?f w))) \<subset> {1..H} - dom (st_headers (sy_store w))" using pr by blast
      then have "card ({1..H} - dom (st_headers (sy_store (?f w)))) < card ({1..H} - dom (st_headers (sy_store w)))"
        by (intro psubset_card_mono) auto
      then have "card ({1..H} - dom (st_headers (sy_store (?f w)))) \<le> k" using Suc.prems(2) by simp
      then obtain n where "n \<le> k" "?done ((?f ^^ n) (?f w))"
        using Suc.IH [of "?f w"] pr by blast
      then show ?thesis by (intro exI [of _ "Suc n"]) (simp add: funpow_swap1)
    qed
  qed
  moreover have "card ({1..H} - dom (st_headers (sy_store w))) \<le> H"
    using card_mono [of "{1..H}" "{1..H} - dom (st_headers (sy_store w))"] by simp
  ultimately show ?thesis using sy by blast
qed

end

section \<open>Correctness of the syncer\<close>

text \<open>
  (C30) The range the syncer asks for next is empty exactly when the store holds every height from 1 up to
  at least the subjective head. Otherwise it passes the insertion constraints of the store, has at most
  the batch size many heights, and ends at the subjective head or below the highest stored height.
\<close>

theorem calculate_range_to_fetch_correct:
  assumes "canonical rs" "\<forall>h \<in> heights rs. h \<le> i64_max" "subj \<le> i64_max" "0 < limit"
  shows "case calculate_range_to_fetch subj rs limit of r \<Rightarrow>
    if range_is_empty r then \<exists>m \<ge> subj. heights rs = {1..m}
    else \<not> (\<exists>m \<ge> subj. heights rs = {1..m}) \<and> range_len r \<le> limit \<and>
      snd r \<le> max subj (Max (insert 0 (heights rs))) \<and>
      (\<exists>flags. check_insertion_constraints rs r = Inr flags)"
proof (cases "range_is_empty (calculate_range_to_fetch subj rs limit)")
  case True
  then show ?thesis using calc_empty_iff [OF assms] by simp
next
  case False
  let ?r = "calculate_range_to_fetch subj rs limit"
  note s = calc_sound [OF assms(1-3) False]
  have "Max (insert 0 (heights rs)) \<le> i64_max" by (rule Max.boundedI) (use assms(2) in auto)
  with s(3) assms(3) have "snd ?r \<le> i64_max" by (meson max.boundedI order_trans)
  then have "snd ?r \<le> u64_max" by (simp add: i64_max_def u64_max_def)
  moreover have v: "valid_range ?r" using s(1) by (simp add: insertion_allowed_def)
  ultimately have "range_len ?r \<le> limit" using s(2) range_len_eq [OF v] by (auto simp: valid_range_def)
  moreover have "\<exists>flags. check_insertion_constraints rs ?r = Inr flags"
    using check_insertion_iff [OF canonical_wf [OF assms(1)], of ?r] s(1) by blast
  ultimately show ?thesis using False calc_empty_iff [OF assms] s(3) by simp
qed

theorem calculate_range_to_fetch_correct_witness:
  "case calculate_range_to_fetch 9 [(2, 3), (6, 9)] 5 of r \<Rightarrow> r = (4, 5) \<and> range_len r \<le> 5 \<and>
     (\<exists>flags. check_insertion_constraints [(2, 3), (6, 9)] r = Inr flags)"
proof -
  have "calculate_range_to_fetch 9 [(2, 3), (6, 9)] 5 = (4, 5)"
    using calc_snoc [of 9 "[(2, 3)]" "(6, 9)" 5] by (simp add: truncate_left_eq i64_max_def)
  moreover have "canonical [(2, 3), (6, 9)]" "\<forall>h \<in> heights [(2, 3), (6, 9)]. h \<le> i64_max"
    by (auto simp: canonical_Cons valid_range_def i64_max_def)
  ultimately show ?thesis
    using calculate_range_to_fetch_correct [of "[(2, 3), (6, 9)]" 9 5]
    by (simp add: range_is_empty_def i64_max_def del: heights_simps)
qed


lemma sample_honest_chain: "H < 1000 \<Longrightarrow> honest_chain (storable sample_codec) sample_env sample_header H"
  unfolding honest_chain_def
proof (intro conjI ballI)
  assume H: "H < 1000"
  then show "H \<le> i64_max" by (simp add: i64_max_def)
  show "inj_on (eh_hash \<circ> sample_header) {1..H}" by (auto simp: inj_on_def)
  fix h assume "h \<in> {1..H}"
  with H show "storable sample_codec (sample_header h)" "not_from_future sample_env (sample_header h)"
    by (auto simp: i64_max_def intro: sample_storable sample_not_from_future)
next
  fix h assume "h \<in> {1..<H}"
  then show "extends (sample_header h) (sample_header (Suc h))" by (simp add: sample_extends)
qed simp




end
