(* ===== verification/Shwap_Ids.thy ===== *)
theory Shwap_Ids
  imports Nmt
begin

text \<open>
  The identifiers of rows, samples and rows of namespaced data, and their content identifiers, from
  \<^verbatim>\<open>types/src/row.rs\<close>, \<^verbatim>\<open>types/src/sample.rs\<close> and \<^verbatim>\<open>types/src/row_namespace_data.rs\<close>. A \<open>CidGeneric\<close> of
  version 1 is a record of its codec, multihash code and digest.

  The three kinds of identifiers share one contract, the locale \<open>shwap_id\<close>: decoding accepts exactly
  the encodings of valid identifiers. From it follows that an identifier and its content identifier
  determine each other.
\<close>

section \<open>Big-endian numbers\<close>

text \<open>\<open>BufMut::put_u64\<close>, \<open>put_u16\<close> and \<open>Buf::get_u64\<close>, \<open>get_u16\<close> of the crate \<open>bytes\<close>.\<close>

fun put_be :: "nat \<Rightarrow> nat \<Rightarrow> bytes" where
  "put_be 0 n = []" |
  "put_be (Suc k) n = put_be k (n div 256) @ [of_nat n]"

definition get_be :: "bytes \<Rightarrow> nat" where
  "get_be bs = foldl (\<lambda>a b. a * 256 + unat b) 0 bs"

lemma length_put_be [simp]: "length (put_be k n) = k"
  by (induction k arbitrary: n) auto

lemma get_be_snoc [simp]: "get_be (bs @ [b]) = get_be bs * 256 + unat b"
  by (simp add: get_be_def)

lemma get_be_Nil [simp]: "get_be [] = 0"
  by (simp add: get_be_def)

lemma unat_byte [simp]: "unat (of_nat n :: byte) = n mod 256"
  by (simp add: unat_of_nat)

lemma unat_byte_less [simp]: "unat (b :: byte) < 256"
proof -
  have "unat b < 2 ^ LENGTH(8)" by (rule unsigned_less)
  then show ?thesis by simp
qed

lemma get_put_be: "n < 256 ^ k \<Longrightarrow> get_be (put_be k n) = n"
proof (induction k arbitrary: n)
  case (Suc k)
  then have "n div 256 < 256 ^ k" by (simp add: less_mult_imp_div_less mult.commute)
  with Suc.IH show ?case by simp
qed simp

lemma get_be_less: "get_be bs < 256 ^ length bs"
proof (induction bs rule: rev_induct)
  case (snoc b bs)
  then have "get_be bs * 256 + 256 \<le> 256 ^ length bs * 256" by (metis Suc_leI add.commute mult_Suc mult_le_mono1)
  moreover have "unat b < 256" by simp
  ultimately have "get_be bs * 256 + unat b < 256 ^ length bs * 256" by linarith
  then show ?case by (simp add: mult.commute)
qed simp

lemma put_get_be: "put_be (length bs) (get_be bs) = bs"
proof (induction bs rule: rev_induct)
  case (snoc b bs)
  have "(get_be bs * 256 + unat b) div 256 = get_be bs" using unat_byte_less [of b] by (simp add: div_add1_eq)
  moreover have "(of_nat (get_be bs * 256 + unat b) :: byte) = b"
  proof -
    have "(of_nat (get_be bs * 256 + unat b) :: byte) = of_nat (unat b)"
      by (simp only: word_of_nat_eq_iff take_bit_eq_mod) simp
    then show ?thesis by simp
  qed
  ultimately show ?case using snoc.IH by simp
qed simp

section \<open>Content identifiers\<close>

datatype cid_error =
    InvalidMultihashLength nat
  | InvalidMultihashCode nat nat
  | InvalidCidCodec nat
  | InvalidCid string

record cid_generic =
  cid_codec :: nat
  cid_mh_code :: nat
  cid_digest :: bytes

text \<open>The conversions are the same for the three identifiers, up to the constants and \<open>decode\<close>.\<close>

definition try_from_cid ::
  "nat \<Rightarrow> nat \<Rightarrow> nat \<Rightarrow> (bytes \<Rightarrow> ('i, cid_error) result) \<Rightarrow> cid_generic \<Rightarrow> ('i, cid_error) result" where
  "try_from_cid id_codec id_size id_code decode cid =
     (if cid_codec cid \<noteq> id_codec then Inl (InvalidCidCodec (cid_codec cid))
      else if length (cid_digest cid) \<noteq> id_size then Inl (InvalidMultihashLength (length (cid_digest cid)))
      else if cid_mh_code cid \<noteq> id_code then Inl (InvalidMultihashCode (cid_mh_code cid) id_code)
      else decode (cid_digest cid))"

definition into_cid :: "nat \<Rightarrow> nat \<Rightarrow> bytes \<Rightarrow> cid_generic" where
  "into_cid id_codec id_code bs = \<lparr> cid_codec = id_codec, cid_mh_code = id_code, cid_digest = bs \<rparr>"

section \<open>Rows\<close>

definition EDS_ID_SIZE :: nat where "EDS_ID_SIZE = 8"
definition ROW_ID_SIZE :: nat where "ROW_ID_SIZE = EDS_ID_SIZE + 2"
definition ROW_ID_MULTIHASH_CODE :: nat where "ROW_ID_MULTIHASH_CODE = 0x7801"
definition ROW_ID_CODEC :: nat where "ROW_ID_CODEC = 0x7800"

record eds_id =
  eds_height :: nat

record row_id =
  rid_eds_id :: eds_id
  rid_index :: nat

definition row_id_new :: "nat \<Rightarrow> nat \<Rightarrow> (row_id, types_error) result" where
  "row_id_new index height =
     (if height = 0 then Inl ZeroBlockHeight
      else Inr \<lparr> rid_eds_id = \<lparr> eds_height = height \<rparr>, rid_index = index \<rparr>)"

definition row_id_block_height :: "row_id \<Rightarrow> nat" where
  "row_id_block_height self = eds_height (rid_eds_id self)"

definition row_id_encode :: "row_id \<Rightarrow> bytes" where
  "row_id_encode self = put_be 8 (row_id_block_height self) @ put_be 2 (rid_index self)"

definition row_id_decode :: "bytes \<Rightarrow> (row_id, cid_error) result" where
  "row_id_decode buffer =
     (if length buffer \<noteq> ROW_ID_SIZE then Inl (InvalidMultihashLength (length buffer))
      else let height = get_be (take 8 buffer); index = get_be (drop 8 buffer) in
        if height = 0 then Inl (InvalidCid ''Zero block height'')
        else Inr \<lparr> rid_eds_id = \<lparr> eds_height = height \<rparr>, rid_index = index \<rparr>)"

definition row_id_try_from :: "cid_generic \<Rightarrow> (row_id, cid_error) result" where
  "row_id_try_from = try_from_cid ROW_ID_CODEC ROW_ID_SIZE ROW_ID_MULTIHASH_CODE row_id_decode"

definition row_id_into :: "row_id \<Rightarrow> cid_generic" where
  "row_id_into row = into_cid ROW_ID_CODEC ROW_ID_MULTIHASH_CODE (row_id_encode row)"

section \<open>Samples\<close>

definition SAMPLE_ID_SIZE :: nat where "SAMPLE_ID_SIZE = 12"
definition SAMPLE_ID_MULTIHASH_CODE :: nat where "SAMPLE_ID_MULTIHASH_CODE = 0x7811"
definition SAMPLE_ID_CODEC :: nat where "SAMPLE_ID_CODEC = 0x7810"

record sample_id =
  sid_row_id :: row_id
  sid_column_index :: nat

definition sample_id_new :: "nat \<Rightarrow> nat \<Rightarrow> nat \<Rightarrow> (sample_id, types_error) result" where
  "sample_id_new row_index column_index block_height =
     (if block_height = 0 then Inl ZeroBlockHeight
      else try_bind (row_id_new row_index block_height) (\<lambda>row_id.
        Inr \<lparr> sid_row_id = row_id, sid_column_index = column_index \<rparr>))"

definition sample_id_block_height :: "sample_id \<Rightarrow> nat" where
  "sample_id_block_height self = row_id_block_height (sid_row_id self)"

definition sample_id_row_index :: "sample_id \<Rightarrow> nat" where
  "sample_id_row_index self = rid_index (sid_row_id self)"

definition sample_id_encode :: "sample_id \<Rightarrow> bytes" where
  "sample_id_encode self = row_id_encode (sid_row_id self) @ put_be 2 (sid_column_index self)"

definition sample_id_decode :: "bytes \<Rightarrow> (sample_id, cid_error) result" where
  "sample_id_decode buffer =
     (if length buffer \<noteq> SAMPLE_ID_SIZE then Inl (InvalidMultihashLength (length buffer))
      else try_bind (row_id_decode (take ROW_ID_SIZE buffer)) (\<lambda>row_id.
        Inr \<lparr> sid_row_id = row_id, sid_column_index = get_be (drop ROW_ID_SIZE buffer) \<rparr>))"

definition sample_id_try_from :: "cid_generic \<Rightarrow> (sample_id, cid_error) result" where
  "sample_id_try_from = try_from_cid SAMPLE_ID_CODEC SAMPLE_ID_SIZE SAMPLE_ID_MULTIHASH_CODE sample_id_decode"

definition sample_id_into :: "sample_id \<Rightarrow> cid_generic" where
  "sample_id_into sample = into_cid SAMPLE_ID_CODEC SAMPLE_ID_MULTIHASH_CODE (sample_id_encode sample)"

section \<open>Rows of namespaced data\<close>

definition ROW_NAMESPACE_DATA_ID_SIZE :: nat where "ROW_NAMESPACE_DATA_ID_SIZE = 39"
definition ROW_NAMESPACE_DATA_ID_MULTIHASH_CODE :: nat where "ROW_NAMESPACE_DATA_ID_MULTIHASH_CODE = 0x7821"
definition ROW_NAMESPACE_DATA_CODEC :: nat where "ROW_NAMESPACE_DATA_CODEC = 0x7820"

record row_namespace_data_id =
  nid_row_id :: row_id
  nid_namespace :: namespace

definition namespace_data_id_new :: "namespace \<Rightarrow> nat \<Rightarrow> nat \<Rightarrow> (row_namespace_data_id, types_error) result" where
  "namespace_data_id_new namespace row_index block_height =
     (if block_height = 0 then Inl ZeroBlockHeight
      else try_bind (row_id_new row_index block_height) (\<lambda>row_id.
        Inr \<lparr> nid_row_id = row_id, nid_namespace = namespace \<rparr>))"

definition namespace_data_id_block_height :: "row_namespace_data_id \<Rightarrow> nat" where
  "namespace_data_id_block_height self = row_id_block_height (nid_row_id self)"

definition namespace_data_id_row_index :: "row_namespace_data_id \<Rightarrow> nat" where
  "namespace_data_id_row_index self = rid_index (nid_row_id self)"

definition namespace_data_id_encode :: "row_namespace_data_id \<Rightarrow> bytes" where
  "namespace_data_id_encode self = row_id_encode (nid_row_id self) @ as_bytes (nid_namespace self)"

definition namespace_data_id_decode :: "bytes \<Rightarrow> (row_namespace_data_id, cid_error) result" where
  "namespace_data_id_decode buffer =
     (if length buffer \<noteq> ROW_NAMESPACE_DATA_ID_SIZE then Inl (InvalidMultihashLength (length buffer))
      else try_bind (row_id_decode (take ROW_ID_SIZE buffer)) (\<lambda>row_id.
        try_bind (map_err (\<lambda>_. InvalidCid ''{e}'') (from_raw (drop ROW_ID_SIZE buffer))) (\<lambda>namespace.
        Inr \<lparr> nid_row_id = row_id, nid_namespace = namespace \<rparr>)))"

definition namespace_data_id_try_from :: "cid_generic \<Rightarrow> (row_namespace_data_id, cid_error) result" where
  "namespace_data_id_try_from =
     try_from_cid ROW_NAMESPACE_DATA_CODEC ROW_NAMESPACE_DATA_ID_SIZE ROW_NAMESPACE_DATA_ID_MULTIHASH_CODE
       namespace_data_id_decode"

definition namespace_data_id_into :: "row_namespace_data_id \<Rightarrow> cid_generic" where
  "namespace_data_id_into i =
     into_cid ROW_NAMESPACE_DATA_CODEC ROW_NAMESPACE_DATA_ID_MULTIHASH_CODE (namespace_data_id_encode i)"

section \<open>The contract\<close>

locale shwap_id =
  fixes enc :: "'i \<Rightarrow> bytes"
    and dec :: "bytes \<Rightarrow> ('i, cid_error) result"
    and id_codec id_size id_code :: nat
    and valid :: "'i \<Rightarrow> bool"
  assumes dec_iff: "dec bs = Inr i \<longleftrightarrow> valid i \<and> enc i = bs"
    and enc_length: "valid i \<Longrightarrow> length (enc i) = id_size"
begin

lemma try_from_iff:
  "try_from_cid id_codec id_size id_code dec cid = Inr i \<longleftrightarrow> valid i \<and> cid = into_cid id_codec id_code (enc i)"
  using enc_length [of i]
  by (cases cid) (auto simp: try_from_cid_def into_cid_def dec_iff)

lemma enc_inject: "valid i \<Longrightarrow> valid j \<Longrightarrow> enc i = enc j \<Longrightarrow> i = j"
  using dec_iff [of "enc i" i] dec_iff [of "enc i" j] by simp

end

text \<open>Validity is what the integer types and the constructors guarantee.\<close>

definition valid_row_id :: "row_id \<Rightarrow> bool" where
  "valid_row_id r \<longleftrightarrow> 0 < row_id_block_height r \<and> row_id_block_height r \<le> u64_max \<and> rid_index r \<le> u16_max"

definition valid_sample_id :: "sample_id \<Rightarrow> bool" where
  "valid_sample_id s \<longleftrightarrow> valid_row_id (sid_row_id s) \<and> sid_column_index s \<le> u16_max"

definition valid_namespace_data_id :: "row_namespace_data_id \<Rightarrow> bool" where
  "valid_namespace_data_id i \<longleftrightarrow> valid_row_id (nid_row_id i) \<and> valid_namespace (as_bytes (nid_namespace i))"

lemmas id_sizes = EDS_ID_SIZE_def ROW_ID_SIZE_def SAMPLE_ID_SIZE_def ROW_NAMESPACE_DATA_ID_SIZE_def

lemma put_be_eq_iff: "length bs = k \<Longrightarrow> n < 256 ^ k \<Longrightarrow> put_be k n = bs \<longleftrightarrow> n = get_be bs"
  using get_put_be [of n k] put_get_be [of bs] by auto

lemma be_bounds:
  "length bs = 8 \<Longrightarrow> get_be bs \<le> u64_max" "length bs = 2 \<Longrightarrow> get_be bs \<le> u16_max"
  "n \<le> u64_max \<Longrightarrow> n < 256 ^ 8" "n \<le> u16_max \<Longrightarrow> n < 256 ^ 2"
  using get_be_less [of bs] by (simp_all add: u64_max_def u16_max_def)

lemma row_id_decode_iff: "row_id_decode bs = Inr r \<longleftrightarrow> valid_row_id r \<and> row_id_encode r = bs"
proof (cases "length bs = 10")
  case True
  have "row_id_encode r = bs \<longleftrightarrow> put_be 8 (row_id_block_height r) = take 8 bs \<and> put_be 2 (rid_index r) = drop 8 bs"
    by (metis row_id_encode_def append_eq_conv_conj append_take_drop_id length_put_be)
  also have "valid_row_id r \<Longrightarrow> \<dots> \<longleftrightarrow> row_id_block_height r = get_be (take 8 bs) \<and> rid_index r = get_be (drop 8 bs)"
    using True put_be_eq_iff [of "take 8 bs" 8] put_be_eq_iff [of "drop 8 bs" 2] be_bounds(3,4)
    by (simp add: valid_row_id_def)
  finally have "valid_row_id r \<Longrightarrow> row_id_encode r = bs \<longleftrightarrow>
      row_id_block_height r = get_be (take 8 bs) \<and> rid_index r = get_be (drop 8 bs)" .
  moreover have "get_be (take 8 bs) \<le> u64_max" "get_be (drop 8 bs) \<le> u16_max"
    using True be_bounds(1) [of "take 8 bs"] be_bounds(2) [of "drop 8 bs"] by simp_all
  ultimately show ?thesis
    using True by (cases r) (auto simp: row_id_decode_def id_sizes Let_def valid_row_id_def row_id_block_height_def)
next
  case False
  then have "row_id_encode r \<noteq> bs" by (auto simp: row_id_encode_def)
  then show ?thesis using False by (simp add: row_id_decode_def id_sizes)
qed

lemma row_id_encode_length [simp]: "length (row_id_encode r) = 10"
  by (simp add: row_id_encode_def)

interpretation row: shwap_id row_id_encode row_id_decode ROW_ID_CODEC ROW_ID_SIZE ROW_ID_MULTIHASH_CODE valid_row_id
  by unfold_locales (simp_all add: row_id_decode_iff id_sizes)

lemma split_encode:
  "length bs = 10 + n \<Longrightarrow> row_id_encode r @ x = bs \<longleftrightarrow> row_id_encode r = take 10 bs \<and> x = drop 10 bs"
  by (metis append_eq_conv_conj append_take_drop_id row_id_encode_length)

interpretation sample: shwap_id sample_id_encode sample_id_decode SAMPLE_ID_CODEC SAMPLE_ID_SIZE
  SAMPLE_ID_MULTIHASH_CODE valid_sample_id
proof
  fix bs :: bytes and i :: sample_id
  show "sample_id_decode bs = Inr i \<longleftrightarrow> valid_sample_id i \<and> sample_id_encode i = bs"
  proof (cases "length bs = 12")
    case True
    have "sample_id_encode i = bs \<longleftrightarrow> row_id_encode (sid_row_id i) = take 10 bs \<and> put_be 2 (sid_column_index i) = drop 10 bs"
      using split_encode [of bs 2] True by (simp add: sample_id_encode_def)
    also have "sid_column_index i \<le> u16_max \<Longrightarrow> \<dots> \<longleftrightarrow>
        row_id_encode (sid_row_id i) = take 10 bs \<and> sid_column_index i = get_be (drop 10 bs)"
      using True put_be_eq_iff [of "drop 10 bs" 2] be_bounds(4) by simp
    finally have "sid_column_index i \<le> u16_max \<Longrightarrow> sample_id_encode i = bs \<longleftrightarrow>
        row_id_encode (sid_row_id i) = take 10 bs \<and> sid_column_index i = get_be (drop 10 bs)" .
    moreover have "get_be (drop 10 bs) \<le> u16_max" using True be_bounds(2) by simp
    ultimately show ?thesis
      using True by (cases i)
        (auto simp: sample_id_decode_def id_sizes valid_sample_id_def row_id_decode_iff try_bind_Inr_iff)
  next
    case False
    then have "sample_id_encode i \<noteq> bs" by (auto simp: sample_id_encode_def)
    then show ?thesis using False by (simp add: sample_id_decode_def id_sizes)
  qed
qed (simp add: sample_id_encode_def id_sizes)

interpretation namespace_data: shwap_id namespace_data_id_encode namespace_data_id_decode ROW_NAMESPACE_DATA_CODEC
  ROW_NAMESPACE_DATA_ID_SIZE ROW_NAMESPACE_DATA_ID_MULTIHASH_CODE valid_namespace_data_id
proof
  fix bs :: bytes and i :: row_namespace_data_id
  show "namespace_data_id_decode bs = Inr i \<longleftrightarrow> valid_namespace_data_id i \<and> namespace_data_id_encode i = bs"
  proof (cases "length bs = 39")
    case True
    have "namespace_data_id_encode i = bs \<longleftrightarrow>
        row_id_encode (nid_row_id i) = take 10 bs \<and> as_bytes (nid_namespace i) = drop 10 bs"
      using split_encode [of bs 29] True by (simp add: namespace_data_id_encode_def)
    then show ?thesis
      using True by (cases i; cases "nid_namespace i")
        (auto simp: namespace_data_id_decode_def id_sizes valid_namespace_data_id_def row_id_decode_iff
          from_raw_Inr_iff try_bind_Inr_iff)
  next
    case False
    then have "valid_namespace_data_id i \<Longrightarrow> namespace_data_id_encode i \<noteq> bs"
      by (auto simp: namespace_data_id_encode_def valid_namespace_data_id_def valid_namespace_def)
    then show ?thesis using False by (auto simp: namespace_data_id_decode_def id_sizes)
  qed
qed (auto simp: namespace_data_id_encode_def id_sizes valid_namespace_data_id_def valid_namespace_def)

section \<open>Identifiers and content identifiers determine each other\<close>

text \<open>
  (C37) A content identifier converts to a row, sample or namespaced-data identifier exactly when it is the
  one made from that identifier, with a height that is not zero and, for namespaced data, a well-formed
  namespace. So identifiers survive the round trip and different identifiers never share a content
  identifier, within a kind and between kinds.
\<close>

theorem shwap_cid_bijective:
  "(row_id_try_from cid = Inr r \<longleftrightarrow> valid_row_id r \<and> cid = row_id_into r) \<and>
   (sample_id_try_from cid = Inr s \<longleftrightarrow> valid_sample_id s \<and> cid = sample_id_into s) \<and>
   (namespace_data_id_try_from cid = Inr n \<longleftrightarrow> valid_namespace_data_id n \<and> cid = namespace_data_id_into n) \<and>
   row_id_into r \<noteq> sample_id_into s \<and> row_id_into r \<noteq> namespace_data_id_into n \<and> sample_id_into s \<noteq> namespace_data_id_into n"
proof -
  have codes: "row_id_into r \<noteq> sample_id_into s" "row_id_into r \<noteq> namespace_data_id_into n"
    "sample_id_into s \<noteq> namespace_data_id_into n"
    by (simp_all add: row_id_into_def sample_id_into_def namespace_data_id_into_def into_cid_def
        ROW_ID_CODEC_def SAMPLE_ID_CODEC_def ROW_NAMESPACE_DATA_CODEC_def)
  then show ?thesis
    using row.try_from_iff [of cid r] sample.try_from_iff [of cid s] namespace_data.try_from_iff [of cid n]
    by (simp add: row_id_try_from_def row_id_into_def sample_id_try_from_def sample_id_into_def
        namespace_data_id_try_from_def namespace_data_id_into_def)
qed

lemma new_ids_valid:
  "row_id_new i h = Inr r \<Longrightarrow> i \<le> u16_max \<Longrightarrow> h \<le> u64_max \<Longrightarrow> valid_row_id r"
  "sample_id_new i c h = Inr s \<Longrightarrow> i \<le> u16_max \<Longrightarrow> c \<le> u16_max \<Longrightarrow> h \<le> u64_max \<Longrightarrow> valid_sample_id s"
  by (auto simp: row_id_new_def sample_id_new_def valid_row_id_def valid_sample_id_def row_id_block_height_def
      try_bind_Inr_iff split: if_splits)

end
