(* ===== verification/Shwap_Cid.thy ===== *)
theory Shwap_Cid
  imports Node_Common Shwap_Ids
begin

text \<open>
  The content identifiers of the node, from \<^verbatim>\<open>node/src/p2p/shwap.rs\<close>. The conversion of a \<open>CidGeneric\<close> to
  the size the node uses belongs to \<open>beetswap\<close>, decoding a block to \<open>prost\<close>; both are arguments.
\<close>

definition convert_cid :: "(cid_generic \<Rightarrow> cid option) \<Rightarrow> cid_generic \<Rightarrow> (cid, p2p_error) result" where
  "convert_cid beetswap_convert_cid cid = ok_or (CidErr CidError) (beetswap_convert_cid cid)"

definition sample_cid ::
  "(cid_generic \<Rightarrow> cid option) \<Rightarrow> nat \<Rightarrow> nat \<Rightarrow> nat \<Rightarrow> (cid, p2p_error) result" where
  "sample_cid beetswap_convert_cid row_index column_index block_height =
     try_bind (map_err CidErr (sample_id_new row_index column_index block_height)) (\<lambda>sample_id.
     convert_cid beetswap_convert_cid (sample_id_into sample_id))"

record block =
  block_cid :: bytes
  block_container :: bytes

definition get_block_container ::
  "(bytes \<Rightarrow> block option) \<Rightarrow> (bytes \<Rightarrow> cid option) \<Rightarrow> cid \<Rightarrow> bytes \<Rightarrow> (bytes, p2p_error) result" where
  "get_block_container block_decode read_cid expected_cid blk =
     try_bind (ok_or ProtoDecodeFailed (block_decode blk)) (\<lambda>blk.
     try_bind (ok_or (CidErr CidError) (read_cid (block_cid blk))) (\<lambda>block_cid.
     if block_cid \<noteq> expected_cid then Inl (Shwap ''cid in block ({}) different than expected ({})'')
     else Inr (block_container blk)))"

lemma sample_cid_Inr:
  "sample_cid conv r c h = Inr cid \<longleftrightarrow> h \<noteq> 0 \<and>
     conv (sample_id_into \<lparr> sid_row_id = \<lparr> rid_eds_id = \<lparr> eds_height = h \<rparr>, rid_index = r \<rparr>, sid_column_index = c \<rparr>) = Some cid"
  by (auto simp: sample_cid_def sample_id_new_def row_id_new_def convert_cid_def)

text \<open>Samples of different coordinates or blocks have different content identifiers.\<close>

lemma sample_cid_inject:
  assumes "sample_cid conv r c h = Inr cid" "sample_cid conv r' c' h' = Inr cid" "inj conv"
    and "r \<le> u16_max" "c \<le> u16_max" "h \<le> u64_max" "r' \<le> u16_max" "c' \<le> u16_max" "h' \<le> u64_max"
  shows "r = r' \<and> c = c' \<and> h = h'"
proof -
  let ?i = "\<lambda>r c h. \<lparr> sid_row_id = \<lparr> rid_eds_id = \<lparr> eds_height = h \<rparr>, rid_index = r \<rparr>, sid_column_index = c \<rparr>"
  have "conv (sample_id_into (?i r c h)) = conv (sample_id_into (?i r' c' h'))" and pos: "h \<noteq> 0" "h' \<noteq> 0"
    using assms(1,2) by (auto simp: sample_cid_Inr)
  then have "sample_id_into (?i r c h) = sample_id_into (?i r' c' h')" using assms(3) by (auto dest: injD)
  then have "sample_id_encode (?i r c h) = sample_id_encode (?i r' c' h')" by (simp add: sample_id_into_def into_cid_def)
  then have "?i r c h = ?i r' c' h'"
    using assms(4-) pos by (intro sample.enc_inject) (simp_all add: valid_sample_id_def valid_row_id_def row_id_block_height_def)
  then show ?thesis by simp
qed

end
