(* ===== verification/Daser.thy ===== *)
theory Daser
  imports Shwap_Cid Redb_Store "HOL-Library.Multiset"
begin

text \<open>
  Data availability sampling, from \<^verbatim>\<open>node/src/daser.rs\<close>. The worker keeps the heights it still has to
  sample, those being sampled and those it is done with as block ranges; the futures that sample blocks
  are the list of the heights they sample. Random numbers are a list of draws, the answers of the
  network an argument of the event that delivers them. \<open>DaserPanic\<close> stands for an \<open>expect\<close> that is reached.
\<close>

section \<open>Definitions\<close>

datatype daser_error =
    DaserP2p p2p_error
  | DaserStore store_error
  | DaserPanic string

definition MAX_SAMPLES_NEEDED :: nat where
  "MAX_SAMPLES_NEEDED = 16"

text \<open>A future of \<open>sampling_futs\<close> is what it captured: the block and the shares it samples.\<close>

record sampling_fut =
  sf_height :: nat
  sf_square_width :: nat
  sf_share_indexes :: "(nat \<times> nat) list"

record 's daser =
  ds_store :: 's
  ds_max_samples_needed :: nat
  ds_futs :: "sampling_fut list"
  ds_queue :: block_ranges
  ds_done :: block_ranges
  ds_ongoing :: block_ranges
  ds_prev_head :: "nat option"
  ds_sampling_window :: duration

definition daser_new :: "'s \<Rightarrow> duration \<Rightarrow> 's daser" where
  "daser_new store sampling_window =
     \<lparr> ds_store = store, ds_max_samples_needed = MAX_SAMPLES_NEEDED, ds_futs = [], ds_queue = new_ranges,
       ds_done = new_ranges, ds_ongoing = new_ranges, ds_prev_head = None, ds_sampling_window = sampling_window \<rparr>"

text \<open>
  The indexes to sample. The set of the source is a list without duplicates; \<open>draws\<close> are the random
  pairs, and \<open>None\<close> that they are used up before enough distinct indexes are found.
\<close>

fun random_indexes_loop :: "nat \<Rightarrow> nat \<Rightarrow> (nat \<times> nat) list \<Rightarrow> (nat \<times> nat) list \<Rightarrow> (nat \<times> nat) list option" where
  "random_indexes_loop square_width max_samples_needed indexes draws =
     (if length indexes < max_samples_needed then
        (case draws of
           [] \<Rightarrow> None
         | (r, c) # rest \<Rightarrow>
             let i = (r mod square_width, c mod square_width) in
             random_indexes_loop square_width max_samples_needed (if i \<in> set indexes then indexes else indexes @ [i]) rest)
      else Some indexes)"

definition random_indexes :: "nat \<Rightarrow> nat \<Rightarrow> (nat \<times> nat) list \<Rightarrow> (nat \<times> nat) list option" where
  "random_indexes square_width max_samples_needed draws =
     (if square_width ^ 2 \<le> max_samples_needed then
        Some (concat (map (\<lambda>row. map (\<lambda>col. (row, col)) [0..<square_width]) [0..<square_width]))
      else random_indexes_loop square_width max_samples_needed [] draws)"

text \<open>\<open>Time::duration_since\<close> belongs to tendermint: the argument \<open>duration_since\<close>.\<close>

definition in_sampling_window ::
  "tm_env \<Rightarrow> (time \<Rightarrow> time \<Rightarrow> duration option) \<Rightarrow> 's daser \<Rightarrow> time \<Rightarrow> bool" where
  "in_sampling_window env duration_since self t =
     (if env_now env < t then True
      else case duration_since (env_now env) t of None \<Rightarrow> False | Some age \<Rightarrow> age \<le> ds_sampling_window self)"

definition populate_queue :: "'s store_ops \<Rightarrow> 's daser \<Rightarrow> ('s daser, daser_error) result" where
  "populate_queue ops self =
     try_bind (map_err DaserStore (so_get_stored_header_ranges ops (ds_store self))) (\<lambda>stored.
     try_bind (map_err DaserStore (so_get_accepted_sampling_ranges ops (ds_store self))) (\<lambda>accepted.
     ok_or (DaserPanic ''invalid range'')
       (Option.bind (ranges_sub stored accepted) (\<lambda>a.
        Option.bind (ranges_sub a (ds_done self)) (\<lambda>b.
        Option.bind (ranges_sub b (ds_ongoing self)) (\<lambda>queue.
        Some (self\<lparr> ds_queue := queue \<rparr>)))))))"

text \<open>
  The loop that looks for the header to sample. It repopulates the queue when the height is not in the
  store any more and may in principle not end, so it is a partial function.
\<close>

partial_function (option) next_header ::
  "'s store_ops \<Rightarrow> 's daser \<Rightarrow> ((extended_header option, daser_error) result \<times> 's daser) option" where
  "next_header ops self =
     (case pop_head (ds_queue self) of
        (None, _) \<Rightarrow> Some (Inr None, self)
      | (Some h, queue) \<Rightarrow>
        (let self = self\<lparr> ds_queue := queue \<rparr> in
         case so_get_by_height ops (ds_store self) h of
           Inr header \<Rightarrow> Some (Inr (Some header), self)
         | Inl e \<Rightarrow>
             (if e = NotFound then
                (case populate_queue ops self of
                   Inl e \<Rightarrow> Some (Inl e, self)
                 | Inr self \<Rightarrow> next_header ops self)
              else Some (Inl (DaserStore e), self))))"

definition relaxed_or_panic :: "(block_ranges, block_ranges_error) result \<Rightarrow> (block_ranges, daser_error) result" where
  "relaxed_or_panic r = map_err (\<lambda>_. DaserPanic ''invalid height'') r"

text \<open>The part after the header is found: the window, the CIDs, the store and the future.\<close>

definition schedule_header ::
  "'s store_ops \<Rightarrow> tm_env \<Rightarrow> (time \<Rightarrow> time \<Rightarrow> duration option) \<Rightarrow> (cid_generic \<Rightarrow> cid option) \<Rightarrow> (nat \<times> nat) list \<Rightarrow>
     extended_header \<Rightarrow> 's daser \<Rightarrow> (unit, daser_error) result \<times> 's daser" where
  "schedule_header ops env duration_since conv draws header self =
     (let h = height header in
      case dah_square_width (eh_dah header) of
        Inl _ \<Rightarrow> (Inl (DaserPanic ''len is bigger than u16::MAX''), self)
      | Inr square_width \<Rightarrow>
        if \<not> in_sampling_window env duration_since self (eh_time header) then
          (case relaxed_or_panic (remove_relaxed (ds_queue self) (1, h)) of
             Inl e \<Rightarrow> (Inl e, self)
           | Inr queue \<Rightarrow>
             (let self = self\<lparr> ds_queue := queue \<rparr> in
              case relaxed_or_panic (insert_relaxed (ds_done self) (1, h)) of
                Inl e \<Rightarrow> (Inl e, self)
              | Inr dn \<Rightarrow> (Inr (), self\<lparr> ds_done := dn \<rparr>)))
        else case random_indexes square_width (ds_max_samples_needed self) draws of
          None \<Rightarrow> (Inl (DaserPanic ''no random numbers''), self)
        | Some share_indexes \<Rightarrow>
          (case map_err DaserP2p (try_map (\<lambda>(row, col). sample_cid conv row col h) share_indexes) of
             Inl e \<Rightarrow> (Inl e, self)
           | Inr cids \<Rightarrow>
             (let (r, s) = so_update_sampling_metadata ops (ds_store self) h Unknown cids;
                  self = self\<lparr> ds_store := s \<rparr> in
              case r of
                Inl e \<Rightarrow> (Inl (DaserStore e), self)
              | Inr _ \<Rightarrow>
                (let self = self\<lparr> ds_futs := ds_futs self @
                     [\<lparr> sf_height = h, sf_square_width = square_width, sf_share_indexes = share_indexes \<rparr>] \<rparr> in
                 case relaxed_or_panic (insert_relaxed (ds_ongoing self) (h, h)) of
                   Inl e \<Rightarrow> (Inl e, self)
                 | Inr ongoing \<Rightarrow> (Inr (), self\<lparr> ds_ongoing := ongoing \<rparr>)))))"

definition schedule_next_sample_block ::
  "'s store_ops \<Rightarrow> tm_env \<Rightarrow> (time \<Rightarrow> time \<Rightarrow> duration option) \<Rightarrow> (cid_generic \<Rightarrow> cid option) \<Rightarrow> (nat \<times> nat) list \<Rightarrow>
     's daser \<Rightarrow> ((unit, daser_error) result \<times> 's daser) option" where
  "schedule_next_sample_block ops env duration_since conv draws self =
     map_option (\<lambda>(r, self). case r of
         Inl e \<Rightarrow> (Inl e, self)
       | Inr None \<Rightarrow> (Inr (), self)
       | Inr (Some header) \<Rightarrow> schedule_header ops env duration_since conv draws header self)
       (next_header ops self)"

text \<open>
  The future of one block: \<open>results\<close> are the answers for its shares, in the order they arrive. A share
  that times out rejects the block; any other error is returned. \<open>took\<close> is the time it ran for.
\<close>

fun sampling_loop ::
  "sampling_fut \<Rightarrow> ((nat \<times> nat) \<times> (unit, p2p_error) result) list \<Rightarrow> bool \<Rightarrow> (bool, daser_error) result \<times> node_event list" where
  "sampling_loop f [] block_accepted = (Inr block_accepted, [])" |
  "sampling_loop f (((row, column), res) # rest) block_accepted =
     (case (case res of
              Inr _ \<Rightarrow> Inr True
            | Inl e \<Rightarrow> if e = BitswapQueryTimeout then Inr False else Inl (DaserP2p e)) of
        Inl e \<Rightarrow> (Inl e, [])
      | Inr share_accepted \<Rightarrow>
          (let (r, evs) = sampling_loop f rest (block_accepted \<and> share_accepted) in
           (r, ShareSamplingResult (sf_height f) (sf_square_width f) row column share_accepted # evs)))"

definition sampling_future ::
  "sampling_fut \<Rightarrow> ((nat \<times> nat) \<times> (unit, p2p_error) result) list \<Rightarrow> duration \<Rightarrow>
     (nat \<times> bool, daser_error) result \<times> node_event list" where
  "sampling_future f results took =
     (let started = SamplingStarted (sf_height f) (sf_square_width f) (sf_share_indexes f) in
      case sampling_loop f results True of
        (Inl e, evs) \<Rightarrow> (Inl e, started # evs)
      | (Inr block_accepted, evs) \<Rightarrow>
          (Inr (sf_height f, block_accepted), started # evs @ [SamplingFinished (sf_height f) block_accepted took]))"

text \<open>The branch of the event loop that handles the result of a future, which leaves \<open>sampling_futs\<close>.\<close>

definition on_sampling_result ::
  "'s store_ops \<Rightarrow> 's daser \<Rightarrow> (nat \<times> bool, daser_error) result \<Rightarrow> (unit, daser_error) result \<times> 's daser" where
  "on_sampling_result ops self res =
     (case res of
        Inl e \<Rightarrow> (Inl e, self)
      | Inr (h, accepted) \<Rightarrow>
        (let status = (if accepted then Accepted else Rejected);
             (r, s) = so_update_sampling_metadata ops (ds_store self) h status [];
             self = self\<lparr> ds_store := s \<rparr> in
         case r of
           Inl e \<Rightarrow> (Inl (DaserStore e), self)
         | Inr _ \<Rightarrow>
           (case relaxed_or_panic (remove_relaxed (ds_ongoing self) (h, h)) of
              Inl e \<Rightarrow> (Inl e, self)
            | Inr ongoing \<Rightarrow>
              (let self = self\<lparr> ds_ongoing := ongoing \<rparr> in
               case relaxed_or_panic (insert_relaxed (ds_done self) (h, h)) of
                 Inl e \<Rightarrow> (Inl e, self)
               | Inr dn \<Rightarrow> (Inr (), self\<lparr> ds_done := dn \<rparr>)))))"

definition sampling_futs_next ::
  "'s store_ops \<Rightarrow> 's daser \<Rightarrow> sampling_fut \<Rightarrow> ((nat \<times> nat) \<times> (unit, p2p_error) result) list \<Rightarrow> duration \<Rightarrow>
     (unit, daser_error) result \<times> 's daser" where
  "sampling_futs_next ops self f results took =
     on_sampling_result ops (self\<lparr> ds_futs := remove1 f (ds_futs self) \<rparr>) (fst (sampling_future f results took))"

definition ds_disconnected :: "'s daser \<Rightarrow> 's daser" where
  "ds_disconnected self =
     self\<lparr> ds_futs := [], ds_queue := new_ranges, ds_ongoing := new_ranges, ds_done := new_ranges, ds_prev_head := None \<rparr>"

text \<open>
  A step of the connected loop: one of the two places where it schedules a block, or an event. Other
  components may change the store at any time.
\<close>

inductive ds_step ::
  "('s \<Rightarrow> bool) \<Rightarrow> 's store_ops \<Rightarrow> tm_env \<Rightarrow> (time \<Rightarrow> time \<Rightarrow> duration option) \<Rightarrow> (cid_generic \<Rightarrow> cid option) \<Rightarrow>
     's daser \<Rightarrow> 's daser \<Rightarrow> bool"
  for I ops env since conv where
  start: "populate_queue ops w = Inr w' \<Longrightarrow> ds_step I ops env since conv w w'"
| schedule_head: "head (ds_queue w) = Some h \<Longrightarrow> (case ds_prev_head w of None \<Rightarrow> 0 | Some p \<Rightarrow> p) < h \<Longrightarrow>
    schedule_next_sample_block ops env since conv draws w = Some (Inr (), w') \<Longrightarrow>
    ds_step I ops env since conv w (w'\<lparr> ds_prev_head := Some h \<rparr>)"
| schedule_next: "ds_futs w = [] \<Longrightarrow> schedule_next_sample_block ops env since conv draws w = Some (Inr (), w') \<Longrightarrow>
    ds_step I ops env since conv w w'"
| sampled: "f \<in> set (ds_futs w) \<Longrightarrow> mset (map fst results) = mset (sf_share_indexes f) \<Longrightarrow>
    sampling_futs_next ops w f results took = (Inr (), w') \<Longrightarrow>
    ds_step I ops env since conv w w'"
| disconnected: "ds_step I ops env since conv w (ds_disconnected w)"
| store_changed: "I s \<Longrightarrow> ds_step I ops env since conv w (w\<lparr> ds_store := s \<rparr>)"

text \<open>
  What the worker keeps: the books of the ranges agree with the futures, and each future samples distinct
  shares of its block, as many as wanted.
\<close>

definition sound_fut :: "nat \<Rightarrow> sampling_fut \<Rightarrow> bool" where
  "sound_fut n f \<longleftrightarrow> distinct (sf_share_indexes f) \<and>
     set (sf_share_indexes f) \<subseteq> {..<sf_square_width f} \<times> {..<sf_square_width f} \<and>
     length (sf_share_indexes f) = min n (sf_square_width f ^ 2)"

definition queue_ok :: "'s daser \<Rightarrow> block_ranges \<Rightarrow> bool" where
  "queue_ok w q \<longleftrightarrow> canonical q \<and> (\<forall>h \<in> heights q. h \<le> u64_max) \<and>
     heights q \<inter> heights (ds_ongoing w) = {} \<and> heights q \<inter> heights (ds_done w) = {}"

definition ds_inv :: "('s \<Rightarrow> bool) \<Rightarrow> 's daser \<Rightarrow> bool" where
  "ds_inv I w \<longleftrightarrow> I (ds_store w) \<and> queue_ok w (ds_queue w) \<and> canonical (ds_done w) \<and> canonical (ds_ongoing w) \<and>
     distinct (map sf_height (ds_futs w)) \<and> sf_height ` set (ds_futs w) = heights (ds_ongoing w) \<and>
     (\<forall>f \<in> set (ds_futs w). sound_fut (ds_max_samples_needed w) f)"

section \<open>The random indexes\<close>

declare random_indexes_loop.simps [simp del]

lemma random_indexes_loop_simps:
  "n \<le> length ixs \<Longrightarrow> random_indexes_loop w n ixs draws = Some ixs"
  "length ixs < n \<Longrightarrow> random_indexes_loop w n ixs [] = None"
  by (simp_all add: random_indexes_loop.simps [of w n ixs])


lemma random_indexes_loop_Some:
  assumes "random_indexes_loop w n ixs draws = Some out" "distinct ixs" "set ixs \<subseteq> {..<w} \<times> {..<w}" "length ixs \<le> n" "0 < w"
  shows "distinct out \<and> set out \<subseteq> {..<w} \<times> {..<w} \<and> length out = n"
  using assms(1-4)
proof (induction draws arbitrary: ixs)
  case Nil
  then show ?case by (cases "length ixs < n") (auto simp: random_indexes_loop_simps)
next
  case (Cons d draws)
  obtain r c where d: "d = (r, c)" by fastforce
  show ?case
  proof (cases "length ixs < n")
    case True
    let ?i = "(r mod w, c mod w)"
    have "random_indexes_loop w n (if ?i \<in> set ixs then ixs else ixs @ [?i]) draws = Some out"
      using Cons.prems(1) True by (simp add: random_indexes_loop.simps [of w n ixs] d Let_def)
    from Cons.IH [OF this] Cons.prems(2-) True assms(5) show ?thesis by auto
  next
    case False
    then show ?thesis using Cons.prems by (simp add: random_indexes_loop_simps(1))
  qed
qed

lemma random_indexes_loop_enough:
  assumes "n \<le> card (set ixs \<union> (\<lambda>(r, c). (r mod w, c mod w)) ` set draws)" "distinct ixs"
  shows "\<exists>out. random_indexes_loop w n ixs draws = Some out"
  using assms
proof (induction draws arbitrary: ixs)
  case Nil
  then show ?case by (simp add: random_indexes_loop_simps distinct_card)
next
  case (Cons d draws)
  obtain r c where d: "d = (r, c)" by fastforce
  show ?case
  proof (cases "length ixs < n")
    case True
    let ?i = "(r mod w, c mod w)"
    let ?ixs = "if ?i \<in> set ixs then ixs else ixs @ [?i]"
    have "set ?ixs \<union> (\<lambda>(r, c). (r mod w, c mod w)) ` set draws = set ixs \<union> (\<lambda>(r, c). (r mod w, c mod w)) ` set (d # draws)"
      using d by auto
    then have "\<exists>out. random_indexes_loop w n ?ixs draws = Some out" using Cons.prems by (intro Cons.IH) auto
    then show ?thesis using True by (simp add: random_indexes_loop.simps [of w n ixs] d Let_def)
  next
    case False
    then show ?thesis by (simp add: random_indexes_loop_simps(1))
  qed
qed

lemma square_indexes:
  "distinct (concat (map (\<lambda>row. map (\<lambda>col. (row, col)) [0..<n]) [0..<m]))"
  "set (concat (map (\<lambda>row. map (\<lambda>col. (row, col)) [0..<n]) [0..<m])) = {..<m} \<times> {..<n}"
  "length (concat (map (\<lambda>row. map (\<lambda>col. (row, col)) [0..<n]) [0..<m])) = m * n"
proof -
  show "distinct (concat (map (\<lambda>row. map (\<lambda>col. (row, col)) [0..<n]) [0..<m]))"
    by (induction m) (auto simp: distinct_map inj_on_def)
  show "set (concat (map (\<lambda>row. map (\<lambda>col. (row, col)) [0..<n]) [0..<m])) = {..<m} \<times> {..<n}" by auto
  show "length (concat (map (\<lambda>row. map (\<lambda>col. (row, col)) [0..<n]) [0..<m])) = m * n"
    by (induction m) auto
qed

lemma random_indexes_sound:
  assumes "random_indexes w n draws = Some ixs"
  shows "sound_fut n \<lparr> sf_height = h, sf_square_width = w, sf_share_indexes = ixs \<rparr>"
proof (cases "w ^ 2 \<le> n")
  case True
  then have "ixs = concat (map (\<lambda>row. map (\<lambda>col. (row, col)) [0..<w]) [0..<w])" using assms by (simp add: random_indexes_def)
  then show ?thesis using True by (simp only: sound_fut_def sampling_fut.simps square_indexes) (simp add: power2_eq_square)
next
  case False
  then have "0 < w" by (cases w) auto
  with random_indexes_loop_Some [of w n "[]" draws ixs] assms False show ?thesis
    by (simp add: random_indexes_def sound_fut_def)
qed

lemma random_indexes_enough:
  assumes "min n (w ^ 2) \<le> card ((\<lambda>(r, c). (r mod w, c mod w)) ` set draws)"
  shows "\<exists>ixs. random_indexes w n draws = Some ixs"
  using assms random_indexes_loop_enough [of n "[]" w draws] by (auto simp: random_indexes_def min_def split: if_splits)

section \<open>The verdict on a block\<close>

lemma sampling_loop_result:
  "(fst (sampling_loop f results b) = Inr acc) \<longleftrightarrow>
     (acc \<longleftrightarrow> b \<and> (\<forall>(i, r) \<in> set results. r = Inr ())) \<and>
     (\<forall>(i, r) \<in> set results. r = Inr () \<or> r = Inl BitswapQueryTimeout)"
proof (induction results arbitrary: b)
  case (Cons x results)
  obtain row col r where x: "x = ((row, col), r)" by (metis surj_pair)
  show ?case
  proof (cases r)
    case (Inl e)
    then show ?thesis using Cons [of False] x by (auto simp: Let_def split_beta)
  next
    case (Inr u)
    then show ?thesis using Cons [of b] x by (auto simp: Let_def split_beta)
  qed
qed auto

lemma sampling_future_result:
  "fst (sampling_future f results took) = Inr (h, acc) \<longleftrightarrow> h = sf_height f \<and>
     (acc \<longleftrightarrow> (\<forall>(i, r) \<in> set results. r = Inr ())) \<and>
     (\<forall>(i, r) \<in> set results. r = Inr () \<or> r = Inl BitswapQueryTimeout)"
  using sampling_loop_result [of f results True acc]
  by (auto simp: sampling_future_def Let_def split: prod.splits sum.splits)

section \<open>The queue\<close>

lemma queue_ok_queue [simp]: "queue_ok (w\<lparr> ds_queue := q \<rparr>) = queue_ok w"
  by (simp add: queue_ok_def fun_eq_iff)

lemma in_sampling_window_queue [simp]: "in_sampling_window env since (w\<lparr> ds_queue := q \<rparr>) = in_sampling_window env since w"
  by (simp add: in_sampling_window_def fun_eq_iff cong: option.case_cong)

lemma ds_inv_queue: "ds_inv I w \<Longrightarrow> queue_ok w q \<Longrightarrow> ds_inv I (w\<lparr> ds_queue := q \<rparr>)"
  by (simp add: ds_inv_def)

context sampled_store
begin

lemma populate_queue_spec:
  assumes "ds_inv st_invar w"
  shows "\<exists>q. populate_queue ops w = Inr (w\<lparr> ds_queue := q \<rparr>) \<and> queue_ok w q \<and>
    heights q = dom (st_headers (ds_store w)) - st_accepted (ds_store w) - heights (ds_done w) - heights (ds_ongoing w)"
proof -
  have i: "st_invar (ds_store w)" and d: "canonical (ds_done w)" and o: "canonical (ds_ongoing w)"
    using assms by (auto simp: ds_inv_def)
  obtain st where st: "so_get_stored_header_ranges ops (ds_store w) = Inr st" "canonical st" "heights st = dom (st_headers (ds_store w))"
    using st_ranges [OF i] by blast
  obtain ac where ac: "so_get_accepted_sampling_ranges ops (ds_store w) = Inr ac" "canonical ac" "heights ac = st_accepted (ds_store w)"
    using sa_accepted [OF i] by blast
  have valid: "\<forall>r \<in> set rs. valid_range r" if "canonical rs" for rs using that by (auto intro: wf_valid canonical_wf)
  obtain a where a: "ranges_sub st ac = Some a" "canonical a" "heights a = heights st - heights ac"
    using ranges_sub_correct [OF canonical_wf [OF st(2)] valid [OF ac(2)]] st(2) by metis
  obtain b where b: "ranges_sub a (ds_done w) = Some b" "canonical b" "heights b = heights a - heights (ds_done w)"
    using ranges_sub_correct [OF canonical_wf [OF a(2)] valid [OF d]] a(2) by metis
  obtain q where q: "ranges_sub b (ds_ongoing w) = Some q" "canonical q" "heights q = heights b - heights (ds_ongoing w)"
    using ranges_sub_correct [OF canonical_wf [OF b(2)] valid [OF o]] b(2) by metis
  have "h \<le> u64_max" if "h \<in> heights q" for h
    using st_bounded [OF i, of h] that q(3) b(3) a(3) st(3) by (simp add: i64_max_def u64_max_def)
  then show ?thesis
    using st ac a b q by (intro exI [of _ q]) (auto simp: populate_queue_def queue_ok_def)
qed

lemma next_header_stored:
  assumes inv: "ds_inv st_invar w" and sub: "heights (ds_queue w) \<subseteq> dom (st_headers (ds_store w))"
  shows "\<exists>q. queue_ok w q \<and> heights q \<subseteq> heights (ds_queue w) \<and>
    (if heights (ds_queue w) = {} then next_header ops w = Some (Inr None, w\<lparr> ds_queue := q \<rparr>)
     else \<exists>x. next_header ops w = Some (Inr (Some x), w\<lparr> ds_queue := q \<rparr>) \<and>
       st_headers (ds_store w) (Max (heights (ds_queue w))) = Some x \<and> heights q = heights (ds_queue w) - {Max (heights (ds_queue w))})"
proof (cases "ds_queue w = []")
  case True
  then have "next_header ops w = Some (Inr None, w)" by (simp add: next_header.simps [of ops w] pop_head_def)
  then show ?thesis using inv True by (intro exI [of _ "ds_queue w"]) (simp add: ds_inv_def)
next
  case False
  let ?Q = "heights (ds_queue w)"
  have i: "st_invar (ds_store w)" and q: "queue_ok w (ds_queue w)" using inv by (auto simp: ds_inv_def)
  then have wf: "wf_ranges (ds_queue w)" and can: "canonical (ds_queue w)" and u: "u64_ranges (ds_queue w)"
    by (auto simp: queue_ok_def canonical_wf u64_ranges_heights)
  have ne: "?Q \<noteq> {}" using wf_heights_empty [OF wf] False by simp
  obtain h q' where pop: "pop_head (ds_queue w) = (h, q')" by fastforce
  note pc = pop_head_correct [OF wf u pop]
  have h: "h = Some (Max ?Q)" using pc(1) head_correct [OF wf] False by simp
  have "Max ?Q \<in> dom (st_headers (ds_store w))" using sub Max_in [OF finite_heights ne] by blast
  then obtain x where x: "st_headers (ds_store w) (Max ?Q) = Some x" by blast
  have "next_header ops w = Some (Inr (Some x), w\<lparr> ds_queue := q' \<rparr>)"
    using x by (simp add: next_header.simps [of ops w] pop h st_get_by_height [OF i])
  moreover have "queue_ok w q'" "heights q' = ?Q - {Max ?Q}" using pc(3,4) can q h by (auto simp: queue_ok_def)
  ultimately show ?thesis using x ne by auto
qed

text \<open>The loop returns: a height that is gone repopulates the queue with heights that are there.\<close>

lemma next_header_total_stored:
  assumes inv: "ds_inv st_invar w" and sub: "heights (ds_queue w) \<subseteq> dom (st_headers (ds_store w))"
  shows "\<exists>q. queue_ok w q \<and> (heights q = {} \<and> next_header ops w = Some (Inr None, w\<lparr> ds_queue := q \<rparr>) \<or>
    (\<exists>x. next_header ops w = Some (Inr (Some x), w\<lparr> ds_queue := q \<rparr>) \<and> st_headers (ds_store w) (height x) = Some x \<and>
       queue_ok w [(height x, height x)] \<and> height x \<notin> heights q))"
proof (cases "heights (ds_queue w) = {}")
  case True
  then show ?thesis using next_header_stored [OF inv sub] by auto
next
  case False
  let ?m = "Max (heights (ds_queue w))"
  have q: "queue_ok w (ds_queue w)" using inv by (auto simp: ds_inv_def)
  have m: "?m \<in> heights (ds_queue w)" using Max_in [OF finite_heights False] .
  from next_header_stored [OF inv sub] False obtain q' x where x: "queue_ok w q'"
    "next_header ops w = Some (Inr (Some x), w\<lparr> ds_queue := q' \<rparr>)" "st_headers (ds_store w) ?m = Some x"
    "heights q' = heights (ds_queue w) - {?m}" by auto
  have hx: "height x = ?m" using st_keyed [of "ds_store w"] inv x(3) by (auto simp: keyed_by_height_def ds_inv_def)
  moreover have "queue_ok w [(?m, ?m)]"
    using q m heights_pos [OF canonical_wf, of "ds_queue w" ?m] by (auto simp: queue_ok_def valid_range_def)
  ultimately show ?thesis using x by (intro exI [of _ q'] conjI disjI2 exI [of _ x]) (simp_all add: hx)
qed

lemma next_header_total:
  assumes inv: "ds_inv st_invar w"
  shows "\<exists>q. queue_ok w q \<and> (heights q = {} \<and> next_header ops w = Some (Inr None, w\<lparr> ds_queue := q \<rparr>) \<or>
    (\<exists>x. next_header ops w = Some (Inr (Some x), w\<lparr> ds_queue := q \<rparr>) \<and> st_headers (ds_store w) (height x) = Some x \<and>
       queue_ok w [(height x, height x)] \<and> height x \<notin> heights q))"
proof -
  have i: "st_invar (ds_store w)" and q: "queue_ok w (ds_queue w)" using inv by (auto simp: ds_inv_def)
  then have wf: "wf_ranges (ds_queue w)" and u: "u64_ranges (ds_queue w)"
    by (auto simp: queue_ok_def canonical_wf u64_ranges_heights)
  obtain h q' where pop: "pop_head (ds_queue w) = (h, q')" by fastforce
  note pc = pop_head_correct [OF wf u pop]
  have q': "queue_ok w q'" using pc(3,4) q by (auto simp: queue_ok_def)
  show ?thesis
  proof (cases h)
    case None
    then have "ds_queue w = []" using pc(1) head_correct [OF wf] by (auto split: if_splits)
    then show ?thesis using next_header_total_stored [OF inv] by simp
  next
    case (Some k)
    show ?thesis
    proof (cases "st_headers (ds_store w) k")
      case None
      from populate_queue_spec [OF ds_inv_queue [OF inv q']] obtain q2 where
        q2: "populate_queue ops (w\<lparr> ds_queue := q' \<rparr>) = Inr (w\<lparr> ds_queue := q2 \<rparr>)" "queue_ok w q2"
        and "heights q2 = dom (st_headers (ds_store w)) - st_accepted (ds_store w) - heights (ds_done w) - heights (ds_ongoing w)"
        by (simp, elim exE conjE) (rule that)
      then have sub: "heights q2 \<subseteq> dom (st_headers (ds_store w))" by blast
      have "next_header ops w = next_header ops (w\<lparr> ds_queue := q2 \<rparr>)"
        by (simp add: next_header.simps [of ops w] pop Some st_get_by_height [OF i] None q2(1))
      then show ?thesis using next_header_total_stored [OF ds_inv_queue [OF inv q2(2)]] sub by simp
    next
      case (Some x)
      have k: "k \<in> heights (ds_queue w)"
        using pc(1) head_correct [OF wf] \<open>h = Some k\<close> wf_heights_empty [OF wf] Max_in [of "heights (ds_queue w)"]
        by (auto split: if_splits)
      have hx: "height x = k" using st_keyed [OF i] Some by (simp add: keyed_by_height_def)
      have "next_header ops w = Some (Inr (Some x), w\<lparr> ds_queue := q' \<rparr>)"
        by (simp add: next_header.simps [of ops w] pop \<open>h = Some k\<close> st_get_by_height [OF i] Some)
      moreover have "queue_ok w [(k, k)]" using q k heights_pos [OF wf] by (auto simp: queue_ok_def valid_range_def)
      moreover have "k \<notin> heights q'" using pc(3) \<open>h = Some k\<close> by simp
      ultimately show ?thesis using q' Some by (intro exI [of _ q'] conjI disjI2 exI [of _ x]) (simp_all add: hx)
    qed
  qed
qed

lemma schedule_header_outside:
  assumes inv: "ds_inv st_invar w" and pos: "0 < height x" and wd: "dah_square_width (eh_dah x) = Inr width"
    and out: "\<not> in_sampling_window env since w (eh_time x)"
  shows "\<exists>q d. schedule_header ops env since conv draws x w = (Inr (), w\<lparr> ds_queue := q, ds_done := d \<rparr>) \<and>
    canonical q \<and> canonical d \<and> heights q = heights (ds_queue w) - {1..height x} \<and> heights d = heights (ds_done w) \<union> {1..height x}"
proof -
  have c: "canonical (ds_queue w)" "canonical (ds_done w)" using inv by (auto simp: ds_inv_def queue_ok_def)
  obtain q where q: "remove_relaxed (ds_queue w) (1, height x) = Inr q" "canonical q" "heights q = heights (ds_queue w) - {1..height x}"
    using ranges.hs_remove [OF c(1), of "(1, height x)"] pos by auto
  obtain d where d: "insert_relaxed (ds_done w) (1, height x) = Inr d" "canonical d" "heights d = heights (ds_done w) \<union> {1..height x}"
    using ranges.hs_insert [OF c(2), of "(1, height x)"] pos by auto
  show ?thesis using q d wd out by (intro exI [of _ q] exI [of _ d]) (simp add: schedule_header_def relaxed_or_panic_def)
qed

lemma schedule_header_inside:
  assumes inv: "ds_inv st_invar w" and x: "st_headers (ds_store w) (height x) = Some x" and pos: "0 < height x"
    and wd: "dah_square_width (eh_dah x) = Inr width" and "in_sampling_window env since w (eh_time x)"
    and ixs: "random_indexes width (ds_max_samples_needed w) draws = Some ixs"
    and cids: "try_map (\<lambda>(row, col). sample_cid conv row col (height x)) ixs = Inr cids"
  shows "\<exists>s og. schedule_header ops env since conv draws x w = (Inr (), w\<lparr> ds_store := s, ds_ongoing := og,
      ds_futs := ds_futs w @ [\<lparr> sf_height = height x, sf_square_width = width, sf_share_indexes = ixs \<rparr>] \<rparr>) \<and>
    st_invar s \<and> st_headers s = st_headers (ds_store w) \<and> st_accepted s = st_accepted (ds_store w) - {height x} \<and>
    st_cids s = (st_cids (ds_store w))(height x := st_cids (ds_store w) (height x) \<union> set cids) \<and>
    canonical og \<and> heights og = insert (height x) (heights (ds_ongoing w))"
proof -
  have i: "st_invar (ds_store w)" and c: "canonical (ds_ongoing w)" using inv by (auto simp: ds_inv_def)
  have dx: "height x \<in> dom (st_headers (ds_store w))" using x by blast
  obtain s where s: "so_update_sampling_metadata ops (ds_store w) (height x) Unknown cids = (Inr (), s)" "st_invar s"
    "st_headers s = st_headers (ds_store w)" "st_accepted s = st_accepted (ds_store w) - {height x}"
    "st_cids s = (st_cids (ds_store w))(height x := st_cids (ds_store w) (height x) \<union> set cids)"
    using sa_update [OF i dx, of Unknown cids] by auto
  obtain og where og: "insert_relaxed (ds_ongoing w) (height x, height x) = Inr og" "canonical og"
    "heights og = insert (height x) (heights (ds_ongoing w))"
    using ranges.hs_insert [OF c, of "(height x, height x)"] pos by auto
  show ?thesis using s og assms(4-) by (intro exI [of _ s] exI [of _ og]) (simp add: schedule_header_def relaxed_or_panic_def)
qed

lemma schedule_header_keeps:
  assumes inv: "ds_inv st_invar w" and x: "st_headers (ds_store w) (height x) = Some x"
    and new: "queue_ok w [(height x, height x)]" "height x \<notin> heights (ds_queue w)"
    and run: "schedule_header ops env since conv draws x w = (Inr (), w')"
  shows "ds_inv st_invar w'"
proof -
  have pos: "0 < height x" using new by (simp add: queue_ok_def valid_range_def)
  have fresh: "height x \<notin> heights (ds_ongoing w)" using new by (simp add: queue_ok_def)
  obtain width where wd: "dah_square_width (eh_dah x) = Inr width"
    using run by (cases "dah_square_width (eh_dah x)") (auto simp: schedule_header_def Let_def)
  show ?thesis
  proof (cases "in_sampling_window env since w (eh_time x)")
    case False
    from schedule_header_outside [OF inv pos wd False, of conv draws] run obtain q d where "w' = w\<lparr> ds_queue := q, ds_done := d \<rparr>"
      "canonical q" "canonical d" "heights q = heights (ds_queue w) - {1..height x}" "heights d = heights (ds_done w) \<union> {1..height x}"
      by auto
    then show ?thesis using inv by (auto simp: ds_inv_def queue_ok_def)
  next
    case True
    obtain ixs where ixs: "random_indexes width (ds_max_samples_needed w) draws = Some ixs"
      using run wd True by (cases "random_indexes width (ds_max_samples_needed w) draws") (auto simp: schedule_header_def Let_def)
    obtain cids where cids: "try_map (\<lambda>(row, col). sample_cid conv row col (height x)) ixs = Inr cids"
      using run wd True ixs by (cases "try_map (\<lambda>(row, col). sample_cid conv row col (height x)) ixs") (auto simp: schedule_header_def Let_def)
    from schedule_header_inside [OF inv x pos wd True ixs cids] run obtain s og where "w' = w\<lparr> ds_store := s, ds_ongoing := og,
      ds_futs := ds_futs w @ [\<lparr> sf_height = height x, sf_square_width = width, sf_share_indexes = ixs \<rparr>] \<rparr>"
      "st_invar s" "canonical og" "heights og = insert (height x) (heights (ds_ongoing w))"
      by auto
    moreover have "sound_fut (ds_max_samples_needed w) \<lparr> sf_height = height x, sf_square_width = width, sf_share_indexes = ixs \<rparr>"
      by (rule random_indexes_sound [OF ixs])
    ultimately show ?thesis using inv new fresh by (auto simp: ds_inv_def queue_ok_def)
  qed
qed

lemma schedule_next_keeps:
  assumes inv: "ds_inv st_invar w" and run: "schedule_next_sample_block ops env since conv draws w = Some (Inr (), w')"
  shows "ds_inv st_invar w'"
proof -
  from next_header_total [OF inv] obtain q where q: "queue_ok w q" and
    "heights q = {} \<and> next_header ops w = Some (Inr None, w\<lparr> ds_queue := q \<rparr>) \<or>
     (\<exists>x. next_header ops w = Some (Inr (Some x), w\<lparr> ds_queue := q \<rparr>) \<and> st_headers (ds_store w) (height x) = Some x \<and>
       queue_ok w [(height x, height x)] \<and> height x \<notin> heights q)" by (elim exE conjE) (rule that)
  then consider "next_header ops w = Some (Inr None, w\<lparr> ds_queue := q \<rparr>)"
    | x where "next_header ops w = Some (Inr (Some x), w\<lparr> ds_queue := q \<rparr>)" "st_headers (ds_store w) (height x) = Some x"
       "queue_ok w [(height x, height x)]" "height x \<notin> heights q" by blast
  then show ?thesis
  proof cases
    case 1
    then show ?thesis using run ds_inv_queue [OF inv q] by (simp add: schedule_next_sample_block_def)
  next
    case 2
    then have "schedule_header ops env since conv draws x (w\<lparr> ds_queue := q \<rparr>) = (Inr (), w')"
      using run by (simp add: schedule_next_sample_block_def)
    from schedule_header_keeps [OF ds_inv_queue [OF inv q] _ _ _ this] 2 show ?thesis by simp
  qed
qed

lemma on_sampling_result_stored:
  assumes inv: "st_invar (ds_store w)" "canonical (ds_ongoing w)" "canonical (ds_done w)"
    and h: "h \<in> dom (st_headers (ds_store w))"
  shows "\<exists>s og d. on_sampling_result ops w (Inr (h, acc)) = (Inr (), w\<lparr> ds_store := s, ds_ongoing := og, ds_done := d \<rparr>) \<and>
    st_invar s \<and> st_headers s = st_headers (ds_store w) \<and> st_cids s = st_cids (ds_store w) \<and>
    st_accepted s = (if acc then insert h (st_accepted (ds_store w)) else st_accepted (ds_store w) - {h}) \<and>
    canonical og \<and> canonical d \<and> heights og = heights (ds_ongoing w) - {h} \<and> heights d = insert h (heights (ds_done w))"
proof -
  have pos: "0 < h" using dom_pos [OF inv(1) h] .
  obtain s where s: "so_update_sampling_metadata ops (ds_store w) h (if acc then Accepted else Rejected) [] = (Inr (), s)" "st_invar s"
    "st_headers s = st_headers (ds_store w)" "st_cids s = st_cids (ds_store w)"
    "st_accepted s = (if acc then insert h (st_accepted (ds_store w)) else st_accepted (ds_store w) - {h})"
    using sa_update [OF inv(1) h, of "if acc then Accepted else Rejected" "[]"] by (cases acc) auto
  obtain og where og: "remove_relaxed (ds_ongoing w) (h, h) = Inr og" "canonical og" "heights og = heights (ds_ongoing w) - {h}"
    using ranges.hs_remove [OF inv(2), of "(h, h)"] pos by auto
  obtain d where d: "insert_relaxed (ds_done w) (h, h) = Inr d" "canonical d" "heights d = insert h (heights (ds_done w))"
    using ranges.hs_insert [OF inv(3), of "(h, h)"] pos by auto
  show ?thesis using s og d
    by (intro exI [of _ s] exI [of _ og] exI [of _ d]) (simp add: on_sampling_result_def relaxed_or_panic_def)
qed

lemma sampling_futs_next_stored:
  assumes inv: "ds_inv st_invar w" and f: "f \<in> set (ds_futs w)" and h: "sf_height f \<in> dom (st_headers (ds_store w))"
    and ok: "\<forall>(i, r) \<in> set results. r = Inr () \<or> r = Inl BitswapQueryTimeout"
  shows "\<exists>w'. sampling_futs_next ops w f results took = (Inr (), w') \<and> ds_inv st_invar w' \<and>
    ds_futs w' = remove1 f (ds_futs w) \<and> st_headers (ds_store w') = st_headers (ds_store w) \<and>
    heights (ds_done w') = insert (sf_height f) (heights (ds_done w)) \<and>
    st_accepted (ds_store w') = (if \<forall>(i, r) \<in> set results. r = Inr () then insert (sf_height f) (st_accepted (ds_store w))
      else st_accepted (ds_store w) - {sf_height f})"
proof -
  let ?w = "w\<lparr> ds_futs := remove1 f (ds_futs w) \<rparr>"
  define acc where "acc \<longleftrightarrow> (\<forall>(i, r) \<in> set results. r = Inr ())"
  have res: "fst (sampling_future f results took) = Inr (sf_height f, acc)"
    using sampling_future_result [of f results took] ok by (simp add: acc_def)
  have i: "st_invar (ds_store ?w)" "canonical (ds_ongoing ?w)" "canonical (ds_done ?w)" using inv by (auto simp: ds_inv_def)
  have "sf_height f \<in> dom (st_headers (ds_store ?w))" using h by simp
  from on_sampling_result_stored [OF i this, of acc] obtain s og d where
    r: "on_sampling_result ops ?w (Inr (sf_height f, acc)) = (Inr (), ?w\<lparr> ds_store := s, ds_ongoing := og, ds_done := d \<rparr>)"
      "st_invar s" "st_headers s = st_headers (ds_store ?w)" "st_cids s = st_cids (ds_store ?w)"
      "st_accepted s = (if acc then insert (sf_height f) (st_accepted (ds_store ?w)) else st_accepted (ds_store ?w) - {sf_height f})"
      "canonical og" "canonical d" "heights og = heights (ds_ongoing ?w) - {sf_height f}"
      "heights d = insert (sf_height f) (heights (ds_done ?w))" by (elim exE conjE) (rule that)
  have dist: "distinct (map sf_height (ds_futs w))" using inv by (simp add: ds_inv_def)
  have "sf_height ` set (remove1 f (ds_futs w)) = sf_height ` set (ds_futs w) - {sf_height f}"
    using dist f by (auto simp: distinct_map set_remove1_eq dest: inj_onD)
  then have "ds_inv st_invar (?w\<lparr> ds_store := s, ds_ongoing := og, ds_done := d \<rparr>)"
    using inv f r dist by (auto simp: ds_inv_def queue_ok_def distinct_map distinct_remove1 inj_on_def dest: notin_set_remove1)
  then show ?thesis unfolding acc_def [symmetric] using r by (simp add: sampling_futs_next_def res)
qed

lemma ds_step_inv:
  assumes "ds_step st_invar ops env since conv w w'" "ds_inv st_invar w"
  shows "ds_inv st_invar w'"
  using assms
proof cases
  case start
  with populate_queue_spec [OF assms(2)] show ?thesis by (auto intro: ds_inv_queue [OF assms(2)])
next
  case (schedule_head h draws w1)
  from schedule_next_keeps [OF assms(2) schedule_head(4)] show ?thesis
    using schedule_head(1) by (simp add: ds_inv_def queue_ok_def)
next
  case (schedule_next draws)
  then show ?thesis using schedule_next_keeps [OF assms(2)] by blast
next
  case (sampled f results took)
  from sampled(3) obtain h acc where res: "fst (sampling_future f results took) = Inr (h, acc)"
    by (cases "fst (sampling_future f results took)") (auto simp: sampling_futs_next_def on_sampling_result_def)
  then have h: "h = sf_height f" and ok: "\<forall>(i, r) \<in> set results. r = Inr () \<or> r = Inl BitswapQueryTimeout"
    using sampling_future_result [of f results took] by blast+
  have "sf_height f \<in> dom (st_headers (ds_store w))"
  proof (rule ccontr)
    assume n: "sf_height f \<notin> dom (st_headers (ds_store w))"
    have i: "st_invar (ds_store w)" using assms(2) by (simp add: ds_inv_def)
    show False using sampled(3) sa_update_missing [OF i n] res h by (simp add: sampling_futs_next_def on_sampling_result_def)
  qed
  from sampling_futs_next_stored [OF assms(2) sampled(1) this ok, of took] sampled(3) show ?thesis by auto
next
  case disconnected
  then show ?thesis using assms(2) by (simp add: ds_inv_def queue_ok_def ds_disconnected_def new_ranges_def)
next
  case (store_changed s)
  then show ?thesis using assms(2) by (simp add: ds_inv_def queue_ok_def)
qed

lemma ds_reachable_inv:
  assumes "(ds_step st_invar ops env since conv)\<^sup>*\<^sup>* (daser_new s window) w" "st_invar s"
  shows "ds_inv st_invar w"
  using assms(1)
proof (induction rule: rtranclp_induct)
  case base
  show ?case using assms(2) by (simp add: ds_inv_def queue_ok_def daser_new_def new_ranges_def)
next
  case (step w w')
  then show ?case using ds_step_inv by blast
qed

end

section \<open>Correctness of the sampler\<close>

lemma sample_cids_ok:
  assumes "\<forall>g. conv g \<noteq> None" "0 < h"
  shows "\<exists>cids. try_map (\<lambda>(row, col). sample_cid conv row col h) ixs = Inr cids \<and>
    (\<forall>(row, col) \<in> set ixs. \<exists>cid \<in> set cids. sample_cid conv row col h = Inr cid)"
proof -
  let ?f = "\<lambda>(row, col). the (conv (sample_id_into \<lparr> sid_row_id = \<lparr> rid_eds_id = \<lparr> eds_height = h \<rparr>, rid_index = row \<rparr>,
    sid_column_index = col \<rparr>))"
  have "sample_cid conv row col h = Inr (?f (row, col))" for row col
    using assms by (simp add: sample_cid_Inr)
  then have f: "(case i of (row, col) \<Rightarrow> sample_cid conv row col h) = Inr (?f i)" for i by (cases i) (simp only: split_conv)
  then have "try_map (\<lambda>(row, col). sample_cid conv row col h) ixs = Inr (map ?f ixs)" by (rule try_map_ok)
  moreover have "\<exists>cid \<in> set (map ?f ixs). (case i of (row, col) \<Rightarrow> sample_cid conv row col h) = Inr cid" if "i \<in> set ixs" for i
    using f [of i] that by auto
  ultimately show ?thesis by (intro exI [of _ "map ?f ixs"]) fastforce
qed

text \<open>
  (C9) The sampler picks the highest block of its queue. When that block is in the store and in the sampling
  window, exactly one future is started for it, over distinct shares of the square, as many as wanted or
  all there are; and by then the content identifiers of all these shares are in the sampling metadata
  of the block in the store, so that none of them can be left behind when the block is pruned.
\<close>

theorem schedule_next_sample_block_records_cids:
  assumes "ds_inv (rd_invar c) w" "head (ds_queue w) = Some h" "rd_get_by_height c (ds_store w) h = Inr x"
    and "in_sampling_window env since w (eh_time x)" "dah_square_width (eh_dah x) = Inr width"
    and "min (ds_max_samples_needed w) (width ^ 2) \<le> card ((\<lambda>(r, c). (r mod width, c mod width)) ` set draws)"
    and "\<forall>g. conv g \<noteq> None"
  shows "\<exists>w' f m. schedule_next_sample_block (redb_ops c) env since conv draws w = Some (Inr (), w') \<and>
    ds_futs w' = ds_futs w @ [f] \<and> sf_height f = h \<and> sf_square_width f = width \<and> sound_fut (ds_max_samples_needed w) f \<and>
    rd_get_sampling_metadata c (ds_store w') h = Inr m \<and>
    (\<forall>(row, col) \<in> set (sf_share_indexes f). \<exists>cid \<in> metadata_cids m. sample_cid conv row col h = Inr cid)"
proof -
  have i: "rd_invar c (ds_store w)" and q: "queue_ok w (ds_queue w)" using assms(1) by (auto simp: ds_inv_def)
  then have wf: "wf_ranges (ds_queue w)" and u: "u64_ranges (ds_queue w)"
    by (auto simp: queue_ok_def canonical_wf u64_ranges_heights)
  obtain k q' where pop: "pop_head (ds_queue w) = (k, q')" by fastforce
  note pc = pop_head_correct [OF wf u pop]
  have k: "k = Some h" using pc(1) assms(2) by simp
  have x: "rd_map c (ds_store w) h = Some x" using assms(3) unfolding persistent.st_get_by_height [OF i] by simp
  have hx: "height x = h" using persistent.st_keyed [OF i] x by (simp add: keyed_by_height_def)
  have pos: "0 < height x" using persistent.dom_pos [OF i] x hx by blast
  have nx: "next_header (redb_ops c) w = Some (Inr (Some x), w\<lparr> ds_queue := q' \<rparr>)"
  proof -
    have "so_get_by_height (redb_ops c) (ds_store w) h = Inr x" using assms(3) by (simp add: redb_ops_def)
    then show ?thesis by (simp add: next_header.simps [of "redb_ops c" w] pop k)
  qed
  let ?w = "w\<lparr> ds_queue := q' \<rparr>"
  have inv: "ds_inv (rd_invar c) ?w" using pc(3,4) q by (intro ds_inv_queue [OF assms(1)]) (auto simp: queue_ok_def)
  obtain ixs where ixs: "random_indexes width (ds_max_samples_needed ?w) draws = Some ixs"
    using random_indexes_enough [OF assms(6)] by auto
  obtain cids where cids: "try_map (\<lambda>(row, col). sample_cid conv row col (height x)) ixs = Inr cids"
    and in_cids: "\<forall>(row, col) \<in> set ixs. \<exists>cid \<in> set cids. sample_cid conv row col (height x) = Inr cid"
    using sample_cids_ok [OF assms(7) pos, of ixs] by blast
  have "in_sampling_window env since ?w (eh_time x)" using assms(4) by simp
  from redb_store.schedule_header_inside [OF inv _ pos assms(5) this ixs cids] x hx obtain s og where
    run: "schedule_header (redb_ops c) env since conv draws x ?w = (Inr (), ?w\<lparr> ds_store := s, ds_ongoing := og,
      ds_futs := ds_futs w @ [\<lparr> sf_height = h, sf_square_width = width, sf_share_indexes = ixs \<rparr>] \<rparr>)" and s: "rd_invar c s"
      "rd_map c s = rd_map c (ds_store w)" "rd_cids c s = (rd_cids c (ds_store w))(h := rd_cids c (ds_store w) h \<union> set cids)" by auto
  have "h \<in> dom (rd_map c s)" using s(2) x by auto
  from redb_store.sa_metadata [OF s(1) this] s(3) obtain m where
    "rd_get_sampling_metadata c s h = Inr m" "metadata_cids m = rd_cids c (ds_store w) h \<union> set cids" by (auto simp: redb_ops_def)
  then show ?thesis using run nx random_indexes_sound [OF ixs, of h] in_cids hx
    by (fastforce simp: schedule_next_sample_block_def)
qed

lemma sample_daser_inv: "ds_inv (rd_invar sample_codec) (daser_new sample_db 0)"
  using sample_db_invar by (simp add: ds_inv_def queue_ok_def daser_new_def new_ranges_def)

lemma sample_daser_queue:
  obtains q where "populate_queue (redb_ops sample_codec) (daser_new sample_db 0) = Inr ((daser_new sample_db 0)\<lparr> ds_queue := q \<rparr>)"
    "queue_ok (daser_new sample_db 0) q" "heights q = {1, 2}"
  using redb_store.populate_queue_spec [OF sample_daser_inv] sample_db_map sample_db_accepted
  by (auto simp: daser_new_def new_ranges_def)

theorem schedule_next_sample_block_records_cids_witness:
  "\<exists>w w' f m. head (ds_queue w) = Some 2 \<and>
     schedule_next_sample_block (redb_ops sample_codec) sample_env (\<lambda>_ _. Some 0) (\<lambda>_. Some [7]) [(0, 0), (3, 0), (2, 1), (5, 7)] w =
       Some (Inr (), w') \<and> ds_futs w' = [f] \<and> length (sf_share_indexes f) = 4 \<and>
     rd_get_sampling_metadata sample_codec (ds_store w') 2 = Inr m"
proof -
  let ?w0 = "daser_new sample_db 0"
  note i0 = sample_daser_inv
  obtain q where q: "queue_ok ?w0 q" "heights q = {1, 2}" by (rule sample_daser_queue)
  let ?w = "?w0\<lparr> ds_queue := q \<rparr>"
  have inv: "ds_inv (rd_invar sample_codec) ?w" by (rule ds_inv_queue [OF i0 q(1)])
  have hd: "head (ds_queue ?w) = Some 2"
    using head_correct [of q] q wf_heights_empty [of q] by (auto simp: queue_ok_def canonical_wf)
  have get: "rd_get_by_height sample_codec (ds_store ?w) 2 = Inr (sample_header 2)"
    using sample_db_map by (simp add: persistent.st_get_by_height [OF sample_db_invar] daser_new_def)
  have win: "in_sampling_window sample_env (\<lambda>_ _. Some 0) ?w (eh_time (sample_header 2))"
    by (simp add: in_sampling_window_def)
  have width: "dah_square_width (eh_dah (sample_header 2)) = Inr 2"
    by (simp add: dah_square_width_def sample_header_def u16_max_def)
  have draws: "min (ds_max_samples_needed ?w) (2 ^ 2) \<le>
      card ((\<lambda>(r, c). (r mod 2, c mod 2)) ` set [(0 :: nat, 0 :: nat), (3, 0), (2, 1), (5, 7)])"
    by (simp add: daser_new_def MAX_SAMPLES_NEEDED_def)
  from schedule_next_sample_block_records_cids [OF inv hd get win width draws, of "\<lambda>_. Some [7]"] hd show ?thesis
    by (force simp: sound_fut_def daser_new_def MAX_SAMPLES_NEEDED_def)
qed

text \<open>
  (C11) When the answers for the shares of a block have all arrived, the store holds the verdict: the block is
  in the accepted ranges exactly if every sampled share was delivered, a timeout of a single one rejects
  it. Its future is gone and the block counts as done.
\<close>

theorem sampling_verdict:
  assumes "ds_inv (rd_invar c) w" "f \<in> set (ds_futs w)" "rd_get_by_height c (ds_store w) (sf_height f) = Inr x"
    and "\<forall>(i, r) \<in> set results. r = Inr () \<or> r = Inl BitswapQueryTimeout"
  shows "\<exists>w' rs. sampling_futs_next (redb_ops c) w f results took = (Inr (), w') \<and>
    rd_get_sampling_ranges (ds_store w') = Inr rs \<and>
    (contains rs (sf_height f) \<longleftrightarrow> (\<forall>(i, r) \<in> set results. r = Inr ())) \<and>
    ds_futs w' = remove1 f (ds_futs w) \<and> contains (ds_done w') (sf_height f) \<and> \<not> contains (ds_ongoing w') (sf_height f)"
proof -
  have i: "rd_invar c (ds_store w)" using assms(1) by (simp add: ds_inv_def)
  have "sf_height f \<in> dom (rd_map c (ds_store w))"
    using assms(3) unfolding persistent.st_get_by_height [OF i] by auto
  from redb_store.sampling_futs_next_stored [OF assms(1,2) this assms(4), of took] obtain w' where
    w': "sampling_futs_next (redb_ops c) w f results took = (Inr (), w')" "ds_inv (rd_invar c) w'"
      "ds_futs w' = remove1 f (ds_futs w)" "heights (ds_done w') = insert (sf_height f) (heights (ds_done w))"
      "rd_accepted (ds_store w') = (if \<forall>(i, r) \<in> set results. r = Inr () then insert (sf_height f) (rd_accepted (ds_store w))
        else rd_accepted (ds_store w) - {sf_height f})" by (elim exE conjE) (rule that)
  then have i': "rd_invar c (ds_store w')" by (simp add: ds_inv_def)
  from redb_store.sa_accepted [OF i'] obtain rs where rs: "rd_get_sampling_ranges (ds_store w') = Inr rs"
    "heights rs = rd_accepted (ds_store w')" by (auto simp: redb_ops_def)
  have "distinct (map sf_height (ds_futs w))" using assms(1) by (simp add: ds_inv_def)
  then have "sf_height f \<notin> sf_height ` set (remove1 f (ds_futs w))" using assms(2)
    by (auto simp: distinct_map dest: inj_onD)
  then have "sf_height f \<notin> heights (ds_ongoing w')" using w'(2,3) by (auto simp: ds_inv_def)
  then show ?thesis using w' rs by (auto simp: contains_iff)
qed

theorem sampling_verdict_witness:
  "\<exists>w w' rs. sampling_futs_next (redb_ops sample_codec) w \<lparr> sf_height = 1, sf_square_width = 1, sf_share_indexes = [(0, 0)] \<rparr>
       [((0, 0), Inl BitswapQueryTimeout)] 5 = (Inr (), w') \<and>
     rd_get_sampling_ranges (ds_store w') = Inr rs \<and> \<not> contains rs 1 \<and> contains (ds_done w') 1"
proof -
  let ?f = "\<lparr> sf_height = 1, sf_square_width = 1, sf_share_indexes = [(0, 0)] \<rparr>"
  let ?w = "(daser_new sample_db 0)\<lparr> ds_futs := [?f], ds_ongoing := [(1, 1)] \<rparr>"
  have inv: "ds_inv (rd_invar sample_codec) ?w"
    using sample_db_invar
    by (simp add: ds_inv_def queue_ok_def daser_new_def new_ranges_def valid_range_def sound_fut_def MAX_SAMPLES_NEEDED_def)
  have get: "rd_get_by_height sample_codec (ds_store ?w) (sf_height ?f) = Inr (sample_header 1)"
    using sample_db_map by (simp add: persistent.st_get_by_height [OF sample_db_invar] daser_new_def)
  from sampling_verdict [OF inv _ get, of "[((0, 0), Inl BitswapQueryTimeout)]" 5] show ?thesis by fastforce
qed

text \<open>
  (C10) In every state the sampler reaches, whatever the network answers and however other components
  change the store: there is one future for each ongoing block and no two for the same block, a block
  that is ongoing or done is not queued, and each future samples distinct shares that lie in the square.
\<close>

theorem daser_keeps_books:
  assumes "rd_invar c db"
    and "(ds_step (rd_invar c) (redb_ops c) env since conv)\<^sup>*\<^sup>* (daser_new db window) w"
  shows "rd_invar c (ds_store w) \<and> distinct (map sf_height (ds_futs w)) \<and>
    (\<forall>h. contains (ds_ongoing w) h \<longleftrightarrow> (\<exists>f \<in> set (ds_futs w). sf_height f = h)) \<and>
    (\<forall>h. contains (ds_queue w) h \<longrightarrow> \<not> contains (ds_ongoing w) h \<and> \<not> contains (ds_done w) h) \<and>
    (\<forall>f \<in> set (ds_futs w). distinct (sf_share_indexes f) \<and>
      set (sf_share_indexes f) \<subseteq> {..<sf_square_width f} \<times> {..<sf_square_width f})"
proof -
  have inv: "ds_inv (rd_invar c) w" by (rule redb_store.ds_reachable_inv [OF assms(2,1)])
  then have "contains (ds_ongoing w) h \<longleftrightarrow> (\<exists>f \<in> set (ds_futs w). sf_height f = h)" for h
    unfolding contains_iff by (metis (no_types, lifting) ds_inv_def image_iff)
  with inv show ?thesis by (auto simp: ds_inv_def queue_ok_def contains_iff sound_fut_def)
qed

theorem daser_keeps_books_witness:
  "\<exists>w. (ds_step (rd_invar sample_codec) (redb_ops sample_codec) sample_env (\<lambda>_ _. None) (\<lambda>_. None))\<^sup>*\<^sup>* (daser_new sample_db 0) w \<and>
     contains (ds_queue w) 2 \<and> \<not> contains (ds_ongoing w) 2"
proof -
  let ?w0 = "daser_new sample_db 0"
  obtain q where pq: "populate_queue (redb_ops sample_codec) ?w0 = Inr (?w0\<lparr> ds_queue := q \<rparr>)"
    and q: "queue_ok ?w0 q" "heights q = {1, 2}" by (rule sample_daser_queue)
  then have r: "(ds_step (rd_invar sample_codec) (redb_ops sample_codec) sample_env (\<lambda>_ _. None) (\<lambda>_. None))\<^sup>*\<^sup>* ?w0 (?w0\<lparr> ds_queue := q \<rparr>)"
    by (intro r_into_rtranclp start)
  have "contains (ds_queue (?w0\<lparr> ds_queue := q \<rparr>)) 2" using q(2) by (simp add: contains_iff)
  with daser_keeps_books [OF sample_db_invar r] r show ?thesis by blast
qed

text \<open>
  The random choice of shares gives distinct coordinates inside the square, as many as asked for, or all
  of the square if it is not larger; it ends as soon as enough different coordinates were drawn.
\<close>

lemma random_indexes_correct:
  assumes "min n (w ^ 2) \<le> card ((\<lambda>(r, c). (r mod w, c mod w)) ` set draws)"
  shows "\<exists>ixs. random_indexes w n draws = Some ixs \<and> distinct ixs \<and> length ixs = min n (w ^ 2) \<and>
    (\<forall>(r, c) \<in> set ixs. r < w \<and> c < w)"
proof -
  obtain ixs where ixs: "random_indexes w n draws = Some ixs" using random_indexes_enough [OF assms] by blast
  with random_indexes_sound [OF ixs] show ?thesis by (auto simp: sound_fut_def)
qed

end
