(* ===== verification/Pruner.thy ===== *)
theory Pruner
  imports Node_Common Redb_Store
begin

text \<open>
  The pruner, from \<^verbatim>\<open>node/src/pruner.rs\<close>: the worker that removes the headers that left the pruning window,
  and the sampled blocks that belong to them. The block storage is the crate \<open>blockstore\<close>: its method
  \<open>remove\<close> is an argument. The local variables of \<open>run\<close> are fields of the worker.
\<close>

section \<open>Definitions\<close>

datatype pruner_error =
    PrunerP2p p2p_error
  | PrunerStore store_error
  | PrunerBlockstore
  | WrongHeightRemoved
  | PrunerPanic string

record ('s, 'b) pruner =
  pr_store :: 's
  pr_blockstore :: 'b
  pr_pruning_window :: duration
  pr_last_reported :: "nat option"
  pr_last_removed :: "nat option"

definition pruner_new :: "'s \<Rightarrow> 'b \<Rightarrow> duration \<Rightarrow> ('s, 'b) pruner" where
  "pruner_new store bs pruning_window =
     \<lparr> pr_store = store, pr_blockstore = bs, pr_pruning_window = pruning_window,
       pr_last_reported = None, pr_last_removed = None \<rparr>"

definition get_tail_header_to_prune ::
  "'s store_ops \<Rightarrow> 's \<Rightarrow> time \<Rightarrow> (extended_header option, pruner_error) result" where
  "get_tail_header_to_prune ops store cutoff =
     try_bind (map_err PrunerStore (so_get_stored_header_ranges ops store)) (\<lambda>ranges.
     case tail ranges of
       None \<Rightarrow> Inr None
     | Some current_tail_height \<Rightarrow>
       try_bind (map_err PrunerStore (so_get_by_height ops store current_tail_height)) (\<lambda>header.
       if cutoff < eh_time header then Inr None else Inr (Some header)))"

fun remove_blocks ::
  "('b \<Rightarrow> cid \<Rightarrow> (unit, pruner_error) result \<times> 'b) \<Rightarrow> 'b \<Rightarrow> cid list \<Rightarrow> (unit, pruner_error) result \<times> 'b" where
  "remove_blocks bs_remove bs [] = (Inr (), bs)" |
  "remove_blocks bs_remove bs (cid # cids) =
     (case bs_remove bs cid of
        (Inl e, bs) \<Rightarrow> (Inl e, bs)
      | (Inr _, bs) \<Rightarrow> remove_blocks bs_remove bs cids)"

text \<open>The body of the inner loop in two parts, between which other components can change the store.\<close>

definition prune_cids ::
  "'s store_ops \<Rightarrow> ('b \<Rightarrow> cid \<Rightarrow> (unit, pruner_error) result \<times> 'b) \<Rightarrow> extended_header \<Rightarrow> ('s, 'b) pruner \<Rightarrow>
     (unit, pruner_error) result \<times> ('s, 'b) pruner" where
  "prune_cids ops bs_remove header self =
     (case map_err PrunerStore (so_get_sampling_metadata ops (pr_store self) (height header)) of
        Inl e \<Rightarrow> (Inl e, self)
      | Inr metadata \<Rightarrow>
        (let cids = (case metadata of None \<Rightarrow> [] | Some m \<Rightarrow> sm_cids m);
             (r, bs) = remove_blocks bs_remove (pr_blockstore self) cids in
         (r, self\<lparr> pr_blockstore := bs \<rparr>)))"

definition prune_remove ::
  "'s store_ops \<Rightarrow> extended_header \<Rightarrow> ('s, 'b) pruner \<Rightarrow> (unit, pruner_error) result \<times> ('s, 'b) pruner" where
  "prune_remove ops header self =
     (case so_remove_last ops (pr_store self) of
        (Inl e, s) \<Rightarrow> (Inl (PrunerStore e), self\<lparr> pr_store := s \<rparr>)
      | (Inr removed_height, s) \<Rightarrow>
          if height header \<noteq> removed_height then (Inl WrongHeightRemoved, self\<lparr> pr_store := s \<rparr>)
          else (Inr (), self\<lparr> pr_store := s, pr_last_removed := Some (height header) \<rparr>))"

text \<open>
  The inner loop. \<open>cancelled n\<close> is what the cancellation token says in the \<open>n\<close>-th round; \<open>None\<close> is a loop
  that does not end.
\<close>

partial_function (option) prune_loop ::
  "'s store_ops \<Rightarrow> ('b \<Rightarrow> cid \<Rightarrow> (unit, pruner_error) result \<times> 'b) \<Rightarrow> (nat \<Rightarrow> bool) \<Rightarrow> time \<Rightarrow> nat \<Rightarrow> ('s, 'b) pruner \<Rightarrow>
     ((unit, pruner_error) result \<times> ('s, 'b) pruner) option" where
  "prune_loop ops bs_remove cancelled cutoff n self =
     (case get_tail_header_to_prune ops (pr_store self) cutoff of
        Inl e \<Rightarrow> Some (Inl e, self)
      | Inr None \<Rightarrow> Some (Inr (), self)
      | Inr (Some header) \<Rightarrow>
        if cancelled n then Some (Inr (), self)
        else (case prune_cids ops bs_remove header self of
            (Inl e, self) \<Rightarrow> Some (Inl e, self)
          | (Inr _, self) \<Rightarrow>
            (case prune_remove ops header self of
               (Inl e, self) \<Rightarrow> Some (Inl e, self)
             | (Inr _, self) \<Rightarrow> prune_loop ops bs_remove cancelled cutoff (Suc n) self)))"

definition report_pruned ::
  "('s, 'b) pruner \<Rightarrow> (unit, pruner_error) result \<times> ('s, 'b) pruner \<times> node_event list" where
  "report_pruned self =
     (if pr_last_reported self \<noteq> pr_last_removed self then
        (case pr_last_removed self of
           None \<Rightarrow> (Inl (PrunerPanic ''last removed height to be set''), self\<lparr> pr_last_reported := None \<rparr>, [])
         | Some h \<Rightarrow> (Inr (), self\<lparr> pr_last_reported := Some h \<rparr>, [PrunedHeaders h]))
      else (Inr (), self, []))"

text \<open>One round of \<open>run\<close>, up to the point where it sleeps.\<close>

definition prune_round ::
  "'s store_ops \<Rightarrow> ('b \<Rightarrow> cid \<Rightarrow> (unit, pruner_error) result \<times> 'b) \<Rightarrow> tm_env \<Rightarrow> (time \<Rightarrow> duration \<Rightarrow> time option) \<Rightarrow>
     (nat \<Rightarrow> bool) \<Rightarrow> ('s, 'b) pruner \<Rightarrow> ((unit, pruner_error) result \<times> ('s, 'b) pruner \<times> node_event list) option" where
  "prune_round ops bs_remove env time_checked_sub cancelled self =
     map_option (\<lambda>(r, self). case r of
         Inl e \<Rightarrow> (Inl e, self, [])
       | Inr _ \<Rightarrow> report_pruned self)
       (prune_loop ops bs_remove cancelled (window_start env time_checked_sub (pr_pruning_window self)) 0 self)"

text \<open>What the crate documents of \<open>remove\<close>: it succeeds and the block is not there afterwards.\<close>

definition removes_blocks :: "('b \<Rightarrow> cid \<Rightarrow> (unit, pruner_error) result \<times> 'b) \<Rightarrow> ('b \<Rightarrow> cid set) \<Rightarrow> bool" where
  "removes_blocks bs_remove blocks \<longleftrightarrow>
     (\<forall>bs cid. \<exists>bs'. bs_remove bs cid = (Inr (), bs') \<and> blocks bs' = blocks bs - {cid})"

section \<open>One header\<close>

lemma remove_blocks_ok:
  assumes "removes_blocks bs_remove blocks"
  shows "\<exists>bs'. remove_blocks bs_remove bs cids = (Inr (), bs') \<and> blocks bs' = blocks bs - set cids"
proof (induction cids arbitrary: bs)
  case (Cons cid cids)
  obtain bs1 where bs1: "bs_remove bs cid = (Inr (), bs1)" "blocks bs1 = blocks bs - {cid}"
    using assms unfolding removes_blocks_def by blast
  with Cons.IH [of bs1] show ?case by auto
qed simp

text \<open>The lowest headers up to the first one that is inside the window.\<close>

definition expired :: "(nat \<rightharpoonup> extended_header) \<Rightarrow> time \<Rightarrow> nat set" where
  "expired m cutoff = {h \<in> dom m. \<forall>k x. k \<le> h \<longrightarrow> m k = Some x \<longrightarrow> eh_time x \<le> cutoff}"

lemma expired_empty:
  assumes fin: "finite (dom m)"
  shows "expired m cutoff = {} \<longleftrightarrow> dom m = {} \<or> (\<forall>x. m (Min (dom m)) = Some x \<longrightarrow> cutoff < eh_time x)"
proof (cases "dom m = {}")
  case False
  have "Min (dom m) \<in> dom m" using Min_in [OF fin False] .
  then obtain x where x: "m (Min (dom m)) = Some x" by blast
  have le: "Min (dom m) \<le> k" if "m k = Some y" for k y using Min_le [OF fin] that by blast
  have "Min (dom m) \<in> expired m cutoff \<longleftrightarrow> eh_time x \<le> cutoff"
  proof
    show "eh_time x \<le> cutoff" if "Min (dom m) \<in> expired m cutoff" using that x unfolding expired_def by blast
    show "Min (dom m) \<in> expired m cutoff" if t: "eh_time x \<le> cutoff"
      unfolding expired_def mem_Collect_eq
    proof (intro conjI allI impI)
      fix k y assume "k \<le> Min (dom m)" "m k = Some y"
      then have "k = Min (dom m)" using le by (intro le_antisym)
      then show "eh_time y \<le> cutoff" using \<open>m k = Some y\<close> x t by simp
    qed (use x in blast)
  qed
  moreover have "Min (dom m) \<in> expired m cutoff" if "h \<in> expired m cutoff" for h
  proof -
    have "Min (dom m) \<le> h" using that le by (auto simp: expired_def)
    then show ?thesis using that x unfolding expired_def by (blast intro: order_trans)
  qed
  ultimately show ?thesis using False x by force
qed (auto simp: expired_def)

lemma expired_remove:
  assumes "finite (dom m)" "m (Min (dom m)) = Some x" "eh_time x \<le> cutoff"
  shows "expired m cutoff = insert (Min (dom m)) (expired (m(Min (dom m) := None)) cutoff)"
proof -
  have le: "Min (dom m) \<le> k" if "m k = Some y" for k y using Min_le [OF assms(1)] that by blast
  show ?thesis
  proof (intro set_eqI iffI)
    fix h assume "h \<in> expired m cutoff"
    then show "h \<in> insert (Min (dom m)) (expired (m(Min (dom m) := None)) cutoff)" by (auto simp: expired_def)
  next
    fix h assume h: "h \<in> insert (Min (dom m)) (expired (m(Min (dom m) := None)) cutoff)"
    show "h \<in> expired m cutoff"
      unfolding expired_def mem_Collect_eq
    proof (intro conjI allI impI)
      show "h \<in> dom m" using h assms(2) by (auto simp: expired_def)
      fix k y assume k: "k \<le> h" "m k = Some y"
      show "eh_time y \<le> cutoff"
      proof (cases "k = Min (dom m)")
        case True
        then show ?thesis using assms(2,3) k(2) by simp
      next
        case False
        then have "h \<noteq> Min (dom m)" using k le [OF k(2)] by auto
        then show ?thesis using h k False by (auto simp: expired_def)
      qed
    qed
  qed
qed

context sampled_store
begin

lemma get_tail_header_spec:
  assumes i: "st_invar s"
  shows "get_tail_header_to_prune ops s cutoff =
    Inr (if expired (st_headers s) cutoff = {} then None else st_headers s (Min (dom (st_headers s))))"
proof -
  let ?m = "st_headers s"
  obtain rs where rs: "so_get_stored_header_ranges ops s = Inr rs" "canonical rs" "heights rs = dom ?m"
    using st_ranges [OF i] by blast
  note t = tail_correct [OF canonical_wf [OF rs(2)], unfolded rs(3)]
  show ?thesis
  proof (cases "dom ?m = {}")
    case True
    then show ?thesis using t rs wf_heights_empty [OF canonical_wf [OF rs(2)]] expired_empty [OF finite_dom [OF i]]
      by (simp add: get_tail_header_to_prune_def)
  next
    case False
    then have "rs \<noteq> []" unfolding rs(3) [symmetric] by auto
    have "Min (dom ?m) \<in> dom ?m" using Min_in [OF finite_dom [OF i] False] .
    then obtain x where x: "?m (Min (dom ?m)) = Some x" by blast
    then show ?thesis using t rs \<open>rs \<noteq> []\<close> False expired_empty [OF finite_dom [OF i], of cutoff]
      by (auto simp: get_tail_header_to_prune_def st_get_by_height [OF i])
  qed
qed

lemma prune_cids_spec:
  assumes i: "st_invar (pr_store w)" and x: "st_headers (pr_store w) (height x) = Some x" and rm: "removes_blocks bs_remove blocks"
  shows "\<exists>bs. prune_cids ops bs_remove x w = (Inr (), w\<lparr> pr_blockstore := bs \<rparr>) \<and>
    blocks bs = blocks (pr_blockstore w) - st_cids (pr_store w) (height x)"
proof -
  have "height x \<in> dom (st_headers (pr_store w))" using x by blast
  from sa_metadata [OF i this] obtain m where m: "so_get_sampling_metadata ops (pr_store w) (height x) = Inr m"
    "metadata_cids m = st_cids (pr_store w) (height x)" by blast
  let ?cids = "case m of None \<Rightarrow> [] | Some m \<Rightarrow> sm_cids m"
  obtain bs where bs: "remove_blocks bs_remove (pr_blockstore w) ?cids = (Inr (), bs)"
    "blocks bs = blocks (pr_blockstore w) - set ?cids" using remove_blocks_ok [OF rm] by blast
  have "set ?cids = st_cids (pr_store w) (height x)" using m(2) by (cases m) (auto simp: metadata_cids_def)
  then show ?thesis using m(1) bs by (intro exI [of _ bs]) (simp add: prune_cids_def)
qed

text \<open>An iteration of the loop removes the lowest header, when it is expired.\<close>

lemma prune_once:
  assumes i: "st_invar (pr_store w)" and rm: "removes_blocks bs_remove blocks" and "\<not> cancelled n"
    and ne: "expired (st_headers (pr_store w)) cutoff \<noteq> {}" and h: "h = Min (dom (st_headers (pr_store w)))"
  shows "\<exists>bs s. prune_loop ops bs_remove cancelled cutoff n w = prune_loop ops bs_remove cancelled cutoff (Suc n)
      (w\<lparr> pr_blockstore := bs, pr_store := s, pr_last_removed := Some h \<rparr>) \<and>
    blocks bs = blocks (pr_blockstore w) - st_cids (pr_store w) h \<and> st_invar s \<and>
    st_headers s = (st_headers (pr_store w))(h := None) \<and> card (dom (st_headers s)) < card (dom (st_headers (pr_store w))) \<and>
    st_accepted s = st_accepted (pr_store w) \<and> (\<forall>k. k \<noteq> h \<longrightarrow> st_cids s k = st_cids (pr_store w) k) \<and>
    expired (st_headers (pr_store w)) cutoff = insert h (expired (st_headers s) cutoff)"
proof -
  let ?m = "st_headers (pr_store w)"
  have fin: "finite (dom ?m)" by (rule finite_dom [OF i])
  have ned: "dom ?m \<noteq> {}" using ne by (auto simp: expired_def)
  have "h \<in> dom ?m" unfolding h using Min_in [OF fin ned] .
  then obtain x where x: "?m h = Some x" by blast
  then have tx: "eh_time x \<le> cutoff" using ne expired_empty [OF fin, of cutoff] h by auto
  have hx: "height x = h" using st_keyed [OF i] x by (simp add: keyed_by_height_def)
  obtain bs where bs: "prune_cids ops bs_remove x w = (Inr (), w\<lparr> pr_blockstore := bs \<rparr>)"
    "blocks bs = blocks (pr_blockstore w) - st_cids (pr_store w) h"
    using prune_cids_spec [OF i _ rm, of x] x hx by auto
  obtain s where s: "so_remove_last ops (pr_store w) = (Inr h, s)" "st_invar s" "st_headers s = ?m(h := None)"
    using st_remove_last [OF i ned] h by blast
  have "prune_loop ops bs_remove cancelled cutoff n w = prune_loop ops bs_remove cancelled cutoff (Suc n)
      (w\<lparr> pr_blockstore := bs, pr_store := s, pr_last_removed := Some h \<rparr>)"
    using assms(3) ne x s(1) h by (simp add: prune_loop.simps [of ops bs_remove cancelled cutoff n w] get_tail_header_spec [OF i]
        bs(1) prune_remove_def hx)
  moreover have "card (dom (st_headers s)) < card (dom ?m)"
    using s(3) x fin by (simp add: domI card_Diff1_less del: card_Diff_insert)
  moreover have "expired ?m cutoff = insert h (expired (st_headers s) cutoff)"
    using expired_remove [OF fin _ tx] x h s(3) by simp
  ultimately show ?thesis using bs(2) s sa_remove_keeps [OF i s(1)] by blast
qed

text \<open>
  The loop ends, and it removes the expired headers from the lowest one up, all of them if it is not
  cancelled, together with the blocks of their sampling metadata.
\<close>

lemma prune_loop_spec:
  assumes "st_invar (pr_store w)" and rm: "removes_blocks bs_remove blocks"
  shows "\<exists>w' E. prune_loop ops bs_remove cancelled cutoff n w = Some (Inr (), w') \<and> st_invar (pr_store w') \<and>
    E \<subseteq> expired (st_headers (pr_store w)) cutoff \<and>
    ((\<forall>k. \<not> cancelled k) \<longrightarrow> E = expired (st_headers (pr_store w)) cutoff) \<and>
    st_headers (pr_store w') = st_headers (pr_store w) |` (- E) \<and>
    st_accepted (pr_store w') = st_accepted (pr_store w) \<and>
    blocks (pr_blockstore w') = blocks (pr_blockstore w) - (\<Union>h \<in> E. st_cids (pr_store w) h) \<and>
    pr_last_removed w' = (if E = {} then pr_last_removed w else Some (Max E)) \<and>
    pr_last_reported w' = pr_last_reported w"
  using assms(1)
proof (induction "card (dom (st_headers (pr_store w)))" arbitrary: w n rule: less_induct)
  case less
  let ?m = "st_headers (pr_store w)"
  define h where "h = Min (dom ?m)"
  note i = less.prems
  show ?case
  proof (cases "expired ?m cutoff = {} \<or> cancelled n")
    case True
    then show ?thesis
      using i by (intro exI [of _ w] exI [of _ "{}"])
        (auto simp: prune_loop.simps [of ops bs_remove cancelled cutoff n w] get_tail_header_spec [OF i] restrict_map_def
          fun_eq_iff split: option.split)
  next
    case False
    then obtain bs s where step: "prune_loop ops bs_remove cancelled cutoff n w = prune_loop ops bs_remove cancelled cutoff (Suc n)
        (w\<lparr> pr_blockstore := bs, pr_store := s, pr_last_removed := Some h \<rparr>)"
      and s: "blocks bs = blocks (pr_blockstore w) - st_cids (pr_store w) h" "st_invar s" "st_headers s = ?m(h := None)"
        "card (dom (st_headers s)) < card (dom ?m)" "st_accepted s = st_accepted (pr_store w)"
        "\<forall>k. k \<noteq> h \<longrightarrow> st_cids s k = st_cids (pr_store w) k" "expired ?m cutoff = insert h (expired (st_headers s) cutoff)"
      using prune_once [OF i rm, of cancelled n cutoff h] h_def by blast
    let ?w = "w\<lparr> pr_blockstore := bs, pr_store := s, pr_last_removed := Some h \<rparr>"
    have w1: "pr_store ?w = s" "pr_blockstore ?w = bs" "pr_last_removed ?w = Some h" "pr_last_reported ?w = pr_last_reported w"
      by simp_all
    from less.hyps [of ?w "Suc n", unfolded w1, OF s(4,2)] obtain w' E where
      w': "prune_loop ops bs_remove cancelled cutoff (Suc n) ?w = Some (Inr (), w')" "st_invar (pr_store w')"
      and E: "E \<subseteq> expired (st_headers s) cutoff" "(\<forall>k. \<not> cancelled k) \<longrightarrow> E = expired (st_headers s) cutoff"
      and m': "st_headers (pr_store w') = st_headers s |` (- E)" "st_accepted (pr_store w') = st_accepted s"
        "blocks (pr_blockstore w') = blocks bs - (\<Union>h \<in> E. st_cids s h)"
        "pr_last_removed w' = (if E = {} then Some h else Some (Max E))" "pr_last_reported w' = pr_last_reported w"
      by (elim exE conjE) (rule that)
    have sub: "E \<subseteq> dom ?m - {h}" using E(1) unfolding s(3) by (auto simp: expired_def)
    have finE: "finite E" by (rule finite_subset [OF sub finite_Diff [OF finite_dom [OF i]]])
    have above: "\<forall>k \<in> E. h < k"
    proof
      fix k assume "k \<in> E"
      then have "k \<in> dom ?m" "k \<noteq> h" using sub by auto
      then show "h < k" unfolding h_def using Min_le [OF finite_dom [OF i]] by (simp add: le_neq_implies_less)
    qed
    have Max: "Max (insert h E) = (if E = {} then h else Max E)"
    proof (cases "E = {}")
      case False
      then have "h < Max E" using above Max_in [OF finE] by blast
      then show ?thesis using False finE by simp
    qed simp
    have cids: "(\<Union>h \<in> E. st_cids s h) = (\<Union>h \<in> E. st_cids (pr_store w) h)" using s(6) above by (intro SUP_cong refl) auto
    show ?thesis
    proof (intro exI [of _ w'] exI [of _ "insert h E"] conjI)
      show "st_headers (pr_store w') = ?m |` (- insert h E)" using m'(1) s(3) by (auto simp: fun_eq_iff restrict_map_def)
      show "pr_last_removed w' = (if insert h E = {} then pr_last_removed w else Some (Max (insert h E)))"
        unfolding Max using m'(4) by simp
    qed (use step w' E m' s cids in auto)
  qed
qed

text \<open>
  A header that is inserted below the one the pruner has just read is removed in its place, and the pruner
  stops: the blocks of the removed header stay behind.
\<close>

lemma prune_remove_wrong_height:
  assumes i: "st_invar (pr_store w)" and ne: "dom (st_headers (pr_store w)) \<noteq> {}"
  shows "fst (prune_remove ops x w) = (if height x = Min (dom (st_headers (pr_store w))) then Inr () else Inl WrongHeightRemoved)"
  using st_remove_last [OF i ne] by (auto simp: prune_remove_def)

end

section \<open>Correctness of the pruner\<close>

text \<open>
  (C13) A round of the pruner ends and removes exactly the expired headers, the lowest ones up to the first that
  is inside the pruning window. All blocks that the sampling metadata of these headers lists leave the
  block storage and no others do, every other header stays as it was, and the highest removed height is
  published once.
\<close>

theorem prune_round_correct:
  assumes "rd_invar c (pr_store w)" "removes_blocks bs_remove blocks" "\<forall>n. \<not> cancelled n"
    and "pr_last_reported w = pr_last_removed w"
    and "E = expired (rd_map c (pr_store w)) (window_start env sub (pr_pruning_window w))"
  shows "\<exists>w'. prune_round (redb_ops c) bs_remove env sub cancelled w =
      Some (Inr (), w', if E = {} \<or> pr_last_removed w = Some (Max E) then [] else [PrunedHeaders (Max E)]) \<and>
    rd_invar c (pr_store w') \<and> pr_last_reported w' = pr_last_removed w' \<and>
    (\<forall>h. rd_get_by_height c (pr_store w') h = (if h \<in> E then Inl NotFound else rd_get_by_height c (pr_store w) h)) \<and>
    blocks (pr_blockstore w') = blocks (pr_blockstore w) - (\<Union>h \<in> E. rd_cids c (pr_store w) h)"
proof -
  let ?cut = "window_start env sub (pr_pruning_window w)"
  from redb_store.prune_loop_spec [OF assms(1,2), of cancelled ?cut 0] obtain w' E' where
    loop: "prune_loop (redb_ops c) bs_remove cancelled ?cut 0 w = Some (Inr (), w')" and i': "rd_invar c (pr_store w')"
    and E': "(\<forall>k. \<not> cancelled k) \<longrightarrow> E' = expired (rd_map c (pr_store w)) ?cut"
    and w': "rd_map c (pr_store w') = rd_map c (pr_store w) |` (- E')"
      "blocks (pr_blockstore w') = blocks (pr_blockstore w) - (\<Union>h \<in> E'. rd_cids c (pr_store w) h)"
      "pr_last_removed w' = (if E' = {} then pr_last_removed w else Some (Max E'))" "pr_last_reported w' = pr_last_reported w"
    by (elim exE conjE) (rule that)
  have E: "E' = E" using E' assms(3,5) by simp
  have get: "rd_get_by_height c (pr_store w') h = (if h \<in> E then Inl NotFound else rd_get_by_height c (pr_store w) h)" for h
    unfolding persistent.st_get_by_height [OF i'] persistent.st_get_by_height [OF assms(1)] using w'(1) E by (simp add: restrict_map_def)
  let ?evs = "if E = {} \<or> pr_last_removed w = Some (Max E) then [] else [PrunedHeaders (Max E)]"
  have "\<exists>w''. report_pruned w' = (Inr (), w'', ?evs) \<and> pr_store w'' = pr_store w' \<and> pr_blockstore w'' = pr_blockstore w' \<and>
      pr_last_reported w'' = pr_last_removed w''"
    using w'(3,4) assms(4) E by (cases "E = {}") (auto simp: report_pruned_def)
  then show ?thesis using loop i' get w'(2) E by (auto simp: prune_round_def)
qed

theorem prune_round_correct_witness:
  "\<exists>w'. prune_round (redb_ops sample_codec) (\<lambda>bs cid. (Inr (), bs - {cid})) sample_env (\<lambda>_ _. Some 1) (\<lambda>_. False)
       (pruner_new sample_db {[5], [6]} 0) = Some (Inr (), w', [PrunedHeaders 1]) \<and>
     rd_get_by_height sample_codec (pr_store w') 1 = Inl NotFound \<and>
     rd_get_by_height sample_codec (pr_store w') 2 = Inr (sample_header 2)"
proof -
  let ?w = "pruner_new sample_db {[5], [6]} 0" and ?m = "[1 \<mapsto> sample_header 1, 2 \<mapsto> sample_header 2]"
  have E: "expired ?m 1 = {1}" by (auto simp: expired_def eh_time_def sample_header_def split: if_splits)
  have "{1} = expired (rd_map sample_codec (pr_store ?w)) (window_start sample_env (\<lambda>_ _. Some 1) (pr_pruning_window ?w))"
    using E by (simp add: window_start_def pruner_new_def sample_db_map)
  from prune_round_correct [of sample_codec ?w "\<lambda>bs cid. (Inr (), bs - {cid})" "\<lambda>bs. bs" "\<lambda>_. False", OF _ _ _ _ this]
  show ?thesis
    using sample_db_invar sample_db_map
    by (fastforce simp: pruner_new_def removes_blocks_def persistent.st_get_by_height)
qed

end
