(* ===== verification/Header_Ex.thy ===== *)
theory Header_Ex
  imports Node_Common Redb_Store
begin

text \<open>
  The header exchange protocol: the messages (\<^verbatim>\<open>node/src/p2p/header_ex/utils.rs\<close>), the server
  (\<^verbatim>\<open>header_ex/server.rs\<close>), the check of a response by the client (\<^verbatim>\<open>header_ex/client.rs\<close>) and the framing
  of messages on a stream (\<^verbatim>\<open>header_ex.rs\<close>). Encoding and decoding of single messages is generated by
  \<open>prost\<close> and an argument. Sums of heights are 64 bits wide and wrap around.
\<close>

section \<open>Messages\<close>

datatype request_data = Origin nat | HashOf bytes

record header_request =
  hr_data :: "request_data option"
  hr_amount :: nat

definition with_origin :: "nat \<Rightarrow> nat \<Rightarrow> header_request" where
  "with_origin origin amount = \<lparr> hr_data = Some (Origin origin), hr_amount = amount \<rparr>"

definition with_hash :: "hash \<Rightarrow> header_request" where
  "with_hash hash = \<lparr> hr_data = Some (HashOf (hash_as_bytes hash)), hr_amount = 1 \<rparr>"

definition head_request :: header_request where
  "head_request = with_origin 0 1"

definition is_valid :: "header_request \<Rightarrow> bool" where
  "is_valid self =
     (if hr_data self = None \<or> hr_amount self = 0 then False
      else case hr_data self of
        Some (Origin 0) \<Rightarrow> \<not> hr_amount self > 1
      | Some (HashOf hash) \<Rightarrow> \<not> (length hash \<noteq> HASH_SIZE \<or> hr_amount self > 1)
      | _ \<Rightarrow> True)"

definition is_head_request :: "header_request \<Rightarrow> bool" where
  "is_head_request self \<longleftrightarrow> hr_data self = Some (Origin 0) \<and> hr_amount self = 1"

text \<open>An unknown status on the wire reads as \<open>Invalid\<close>.\<close>

datatype status_code = StatusInvalid | StatusOk | StatusNotFound

record header_response =
  rsp_body :: bytes
  rsp_status_code :: status_code

definition to_validated_extended_header ::
  "tm_env \<Rightarrow> (bytes \<Rightarrow> extended_header option) \<Rightarrow> header_response \<Rightarrow> (extended_header, header_ex_error) result" where
  "to_validated_extended_header env decode self =
     (case rsp_status_code self of
        StatusInvalid \<Rightarrow> Inl InvalidResponse
      | StatusNotFound \<Rightarrow> Inl HeaderNotFound
      | StatusOk \<Rightarrow> map_err (\<lambda>_. InvalidResponse) (decode_and_validate env decode (rsp_body self)))"

definition rsp_not_found :: header_response where
  "rsp_not_found = \<lparr> rsp_body = [], rsp_status_code = StatusNotFound \<rparr>"

definition rsp_invalid :: header_response where
  "rsp_invalid = \<lparr> rsp_body = [], rsp_status_code = StatusInvalid \<rparr>"

definition to_header_response :: "(extended_header \<Rightarrow> bytes) \<Rightarrow> extended_header \<Rightarrow> header_response" where
  "to_header_response encode self = \<lparr> rsp_body = encode self, rsp_status_code = StatusOk \<rparr>"

section \<open>The check of a response\<close>

fun decode_responses ::
  "tm_env \<Rightarrow> (bytes \<Rightarrow> extended_header option) \<Rightarrow> extended_header list \<Rightarrow> header_response list \<Rightarrow>
     (extended_header list, header_ex_error) result" where
  "decode_responses env decode headers [] = Inr headers" |
  "decode_responses env decode headers (response # rest) =
     (case to_validated_extended_header env decode response of
        Inr hdr \<Rightarrow> decode_responses env decode (headers @ [hdr]) rest
      | Inl e \<Rightarrow> if headers = [] then Inl e else Inr headers)"

definition decode_and_verify_responses ::
  "tm_env \<Rightarrow> (bytes \<Rightarrow> extended_header option) \<Rightarrow> header_request \<Rightarrow> header_response list \<Rightarrow>
     (extended_header list, header_ex_error) result" where
  "decode_and_verify_responses env decode request responses =
     (if responses = [] then Inl InvalidResponse
      else if hr_amount request < length responses then Inl InvalidResponse
      else try_bind (decode_responses env decode [] responses) (\<lambda>headers.
        let headers = sort_key height headers; len = length headers in
        case hr_data request of
          Some (Origin start) \<Rightarrow>
            if start = 0 \<and> len = 1 then Inr headers
            else if 0 < start \<and> 0 < len then
              if \<forall>(hdr, h) \<in> set (zip headers [start..<wrapping_add start len]). height hdr = h then Inr headers
              else Inl InvalidResponse
            else Inl InvalidResponse
        | Some (HashOf hash) \<Rightarrow>
            if len = 1 then
              if hash_as_bytes (eh_hash (hd headers)) \<noteq> hash then Inl InvalidResponse else Inr headers
            else Inl InvalidResponse
        | None \<Rightarrow> Inl InvalidResponse))"

section \<open>The server\<close>

definition MAX_HEADERS_AMOUNT_RESPONSE :: nat where "MAX_HEADERS_AMOUNT_RESPONSE = 512"

text \<open>A task is what its future captured; the channel is a number.\<close>

datatype server_task =
    CurrentHead nat
  | ByHash nat hash
  | ByHeight nat nat nat

record 's header_ex_server =
  hs_store :: 's
  hs_stopping :: bool
  hs_tasks :: "server_task list"
  hs_sent :: "(nat \<times> header_response list) list"

definition hs_new :: "'s \<Rightarrow> 's header_ex_server" where
  "hs_new store = \<lparr> hs_store = store, hs_stopping = False, hs_tasks = [], hs_sent = [] \<rparr>"

definition parse_request :: "header_request \<Rightarrow> (nat \<times> request_data) option" where
  "parse_request request =
     (if \<not> is_valid request then None else map_option (\<lambda>d. (hr_amount request, d)) (hr_data request))"

definition handle_invalid_request :: "'s header_ex_server \<Rightarrow> nat \<Rightarrow> 's header_ex_server" where
  "handle_invalid_request self chan = self\<lparr> hs_sent := hs_sent self @ [(chan, [rsp_invalid])] \<rparr>"

definition handle_request_current_head :: "'s header_ex_server \<Rightarrow> nat \<Rightarrow> 's header_ex_server" where
  "handle_request_current_head self chan = self\<lparr> hs_tasks := hs_tasks self @ [CurrentHead chan] \<rparr>"

definition handle_request_by_hash :: "'s header_ex_server \<Rightarrow> nat \<Rightarrow> bytes \<Rightarrow> 's header_ex_server" where
  "handle_request_by_hash self chan hash =
     (if length hash = HASH_SIZE then self\<lparr> hs_tasks := hs_tasks self @ [ByHash chan (Sha256 hash)] \<rparr>
      else handle_invalid_request self chan)"

definition handle_request_by_height :: "'s header_ex_server \<Rightarrow> nat \<Rightarrow> nat \<Rightarrow> nat \<Rightarrow> 's header_ex_server" where
  "handle_request_by_height self chan origin amount = self\<lparr> hs_tasks := hs_tasks self @ [ByHeight chan origin amount] \<rparr>"

definition on_request_received :: "'s header_ex_server \<Rightarrow> header_request \<Rightarrow> nat \<Rightarrow> 's header_ex_server" where
  "on_request_received self request chan =
     (if hs_stopping self then self
      else case parse_request request of
        None \<Rightarrow> handle_invalid_request self chan
      | Some (amount, Origin origin) \<Rightarrow>
          if origin = 0 then handle_request_current_head self chan
          else handle_request_by_height self chan origin amount
      | Some (amount, HashOf hash) \<Rightarrow> handle_request_by_hash self chan hash)"

definition hs_on_stop :: "'s header_ex_server \<Rightarrow> 's header_ex_server" where
  "hs_on_stop self = self\<lparr> hs_stopping := True, hs_tasks := [] \<rparr>"

definition single_response ::
  "(extended_header \<Rightarrow> bytes) \<Rightarrow> (extended_header, store_error) result \<Rightarrow> header_response list" where
  "single_response encode r = [case r of Inr hdr \<Rightarrow> to_header_response encode hdr | Inl _ \<Rightarrow> rsp_not_found]"

fun collect_responses ::
  "(nat \<Rightarrow> (extended_header, store_error) result) \<Rightarrow> (extended_header \<Rightarrow> bytes) \<Rightarrow> nat list \<Rightarrow> header_response list" where
  "collect_responses get encode [] = []" |
  "collect_responses get encode (i # is) =
     (case get i of
        Inr hdr \<Rightarrow> to_header_response encode hdr # collect_responses get encode is
      | Inl _ \<Rightarrow> [])"

definition responses_by_height ::
  "(nat \<Rightarrow> (extended_header, store_error) result) \<Rightarrow> (extended_header \<Rightarrow> bytes) \<Rightarrow> nat \<Rightarrow> nat \<Rightarrow> header_response list" where
  "responses_by_height get encode origin amount =
     (let amount = min amount MAX_HEADERS_AMOUNT_RESPONSE;
          responses = collect_responses get encode [origin..<wrapping_add origin amount] in
      if responses = [] then [rsp_not_found] else responses)"

fun run_task :: "'s store_ops \<Rightarrow> (extended_header \<Rightarrow> bytes) \<Rightarrow> 's \<Rightarrow> server_task \<Rightarrow> nat \<times> header_response list" where
  "run_task ops encode store (CurrentHead chan) = (chan, single_response encode (so_get_head ops store))" |
  "run_task ops encode store (ByHash chan hash) = (chan, single_response encode (so_get_by_hash ops store hash))" |
  "run_task ops encode store (ByHeight chan origin amount) =
     (chan, responses_by_height (so_get_by_height ops store) encode origin amount)"

text \<open>\<open>poll\<close> sends the response of a task that has finished, the \<open>i\<close>-th one.\<close>

definition hs_poll ::
  "'s store_ops \<Rightarrow> (extended_header \<Rightarrow> bytes) \<Rightarrow> nat \<Rightarrow> 's header_ex_server \<Rightarrow> 's header_ex_server" where
  "hs_poll ops encode i self =
     (if i < length (hs_tasks self) then
        self\<lparr> hs_tasks := take i (hs_tasks self) @ drop (Suc i) (hs_tasks self),
              hs_sent := hs_sent self @ [run_task ops encode (hs_store self) (hs_tasks self ! i)] \<rparr>
      else self)"

section \<open>Framing\<close>

definition REQUEST_SIZE_LIMIT :: nat where "REQUEST_SIZE_LIMIT = 1024"
definition RESPONSE_SIZE_LIMIT :: nat where "RESPONSE_SIZE_LIMIT = 10 * 1024 * 1024"

text \<open>What a read of the stream gives: bytes (none of them at the end), an error, or the time is up.\<close>

datatype io_read = Bytes bytes | IoError | TimedOut

fun read_up_to :: "nat \<Rightarrow> bytes \<Rightarrow> io_read list \<Rightarrow> (bytes, unit) result" where
  "read_up_to size_limit buf [] = Inr buf" |
  "read_up_to size_limit buf (r # io) =
     (if length buf = size_limit then Inr buf
      else case r of
        Bytes bs \<Rightarrow>
          let bs = take (size_limit - length buf) bs in
          if bs = [] then Inr buf else read_up_to size_limit (buf @ bs) io
      | IoError \<Rightarrow> Inl ()
      | TimedOut \<Rightarrow> Inr buf)"

definition parse_delimiter :: "(bytes \<Rightarrow> (nat \<times> bytes) option) \<Rightarrow> bytes \<Rightarrow> (nat \<times> bytes) option" where
  "parse_delimiter decode_length_delimiter buf = (if buf = [] then None else decode_length_delimiter buf)"

definition parse_message ::
  "(bytes \<Rightarrow> (nat \<times> bytes) option) \<Rightarrow> (bytes \<Rightarrow> 'm option) \<Rightarrow> bytes \<Rightarrow> ('m \<times> bytes) option" where
  "parse_message decode_length_delimiter decode buf =
     (case parse_delimiter decode_length_delimiter buf of
        None \<Rightarrow> None
      | Some (len, rest) \<Rightarrow>
          if length rest < len then None
          else map_option (\<lambda>msg. (msg, drop len rest)) (decode (take len rest)))"

text \<open>The loop over the messages of a response ends if every message takes up at least one byte.\<close>

partial_function (option) parse_header_responses ::
  "(bytes \<Rightarrow> (nat \<times> bytes) option) \<Rightarrow> (bytes \<Rightarrow> header_response option) \<Rightarrow> header_response list \<Rightarrow> bytes \<Rightarrow>
     header_response list option" where
  "parse_header_responses delim decode msgs data =
     (case parse_message delim decode data of
        None \<Rightarrow> Some msgs
      | Some (msg, rest) \<Rightarrow> parse_header_responses delim decode (msgs @ [msg]) rest)"

definition read_request ::
  "(bytes \<Rightarrow> (nat \<times> bytes) option) \<Rightarrow> (bytes \<Rightarrow> header_request option) \<Rightarrow> io_read list \<Rightarrow> (header_request, unit) result" where
  "read_request delim decode io =
     try_bind (read_up_to REQUEST_SIZE_LIMIT [] io) (\<lambda>data. ok_or () (map_option fst (parse_message delim decode data)))"

definition read_response ::
  "(bytes \<Rightarrow> (nat \<times> bytes) option) \<Rightarrow> (bytes \<Rightarrow> header_response option) \<Rightarrow> io_read list \<Rightarrow>
     (header_response list, unit) result option" where
  "read_response delim decode io =
     (case read_up_to RESPONSE_SIZE_LIMIT [] io of
        Inl e \<Rightarrow> Some (Inl e)
      | Inr data \<Rightarrow> map_option (\<lambda>msgs. if msgs = [] then Inl () else Inr msgs) (parse_header_responses delim decode [] data))"

definition write_request :: "(header_request \<Rightarrow> bytes) \<Rightarrow> header_request \<Rightarrow> bytes" where
  "write_request encode_length_delimited req = encode_length_delimited req"

text \<open>Appending to a \<open>Vec\<close> does not fail, so the loop over the responses is never left early.\<close>

definition write_response :: "(header_response \<Rightarrow> bytes) \<Rightarrow> header_response list \<Rightarrow> bytes" where
  "write_response encode_length_delimited resps = concat (map encode_length_delimited resps)"

section \<open>What the client accepts\<close>

lemma decode_responses_valid:
  assumes "decode_responses env decode headers rs = Inr hs" "\<forall>h \<in> set headers. eh_validate env h = Inr ()"
  shows "(\<forall>h \<in> set hs. eh_validate env h = Inr ()) \<and> length hs \<le> length headers + length rs"
  using assms
proof (induction rs arbitrary: headers)
  case (Cons r rs)
  show ?case
  proof (cases "to_validated_extended_header env decode r")
    case (Inl e)
    then show ?thesis using Cons.prems by (auto split: if_splits)
  next
    case (Inr h)
    then have "eh_validate env h = Inr ()"
      by (auto simp: to_validated_extended_header_def decode_and_validate_def res_simps split: status_code.splits)
    then show ?thesis using Cons.IH [of "headers @ [h]"] Cons.prems Inr by auto
  qed
qed simp

lemma decode_responses_ok:
  assumes "\<And>x. x \<in> set xs \<Longrightarrow> decode (encode x) = Some x" "\<And>x. x \<in> set xs \<Longrightarrow> eh_validate env x = Inr ()"
  shows "decode_responses env decode headers (map (to_header_response encode) xs) = Inr (headers @ xs)"
  using assms
  by (induction xs arbitrary: headers)
    (simp_all add: to_validated_extended_header_def to_header_response_def decode_and_validate_def)

lemma zip_upt_heights:
  assumes "start + length hs \<le> b" "\<forall>(hdr, h) \<in> set (zip hs [start..<b]). height hdr = h"
  shows "map height hs = [start..<start + length hs]"
proof (rule nth_equalityI)
  fix i assume "i < length (map height hs)"
  then have i: "i < length hs" by simp
  then have "(hs ! i, start + i) \<in> set (zip hs [start..<b])" using assms(1) by (auto simp: in_set_zip intro!: exI [of _ i])
  with assms(2) i show "map height hs ! i = [start..<start + length hs] ! i" by auto
qed simp

lemma check_response_sound:
  assumes "decode_and_verify_responses env decode request rs = Inr hs"
  shows "hs \<noteq> [] \<and> length hs \<le> hr_amount request \<and> (\<forall>h \<in> set hs. eh_validate env h = Inr ()) \<and>
    (\<forall>start. hr_data request = Some (Origin start) \<longrightarrow> 0 < start \<longrightarrow> start + hr_amount request \<le> u64_max \<longrightarrow>
       map height hs = [start..<start + length hs]) \<and>
    (\<forall>hash. hr_data request = Some (HashOf hash) \<longrightarrow> map (hash_as_bytes \<circ> eh_hash) hs = [hash]) \<and>
    (hr_data request = Some (Origin 0) \<longrightarrow> length hs = 1)"
proof -
  from assms obtain xs where xs: "decode_responses env decode [] rs = Inr xs" and len: "length rs \<le> hr_amount request"
    by (auto simp: decode_and_verify_responses_def res_simps split: if_splits)
  have hs: "hs = sort_key height xs" using assms xs
    by (auto simp: decode_and_verify_responses_def Let_def split: if_splits option.splits request_data.splits)
  have v: "\<forall>h \<in> set hs. eh_validate env h = Inr ()" "length hs \<le> hr_amount request"
    using decode_responses_valid [OF xs] len hs by auto
  have o: "map height hs = [start..<start + length hs]"
    if "hr_data request = Some (Origin start)" "0 < start" "start + hr_amount request \<le> u64_max" for start
  proof (rule zip_upt_heights)
    have "start + length hs \<le> u64_max" using that(3) v(2) by simp
    then show "start + length hs \<le> wrapping_add start (length hs)" by (simp add: wrapping_add_id)
    show "\<forall>(hdr, h) \<in> set (zip hs [start..<wrapping_add start (length hs)]). height hdr = h"
      using assms xs hs that(1,2) by (auto simp: decode_and_verify_responses_def Let_def split: if_splits)
  qed
  have "xs \<noteq> []" using assms xs
    by (auto simp: decode_and_verify_responses_def Let_def split: if_splits option.splits request_data.splits)
  then have "hs \<noteq> []" unfolding hs by (metis length_0_conv length_sort)
  moreover have "map (hash_as_bytes \<circ> eh_hash) hs = [hash]" if "hr_data request = Some (HashOf hash)" for hash
    using assms xs hs that by (auto simp: decode_and_verify_responses_def Let_def length_Suc_conv split: if_splits)
  moreover have "length hs = 1" if "hr_data request = Some (Origin 0)"
    using assms xs hs that by (auto simp: decode_and_verify_responses_def Let_def split: if_splits)
  ultimately show ?thesis using v o by blast
qed

section \<open>What the server answers\<close>

lemma collect_responses_prefix:
  "\<exists>n hs. n \<le> length is \<and> length hs = n \<and> collect_responses get encode is = map (to_header_response encode) hs \<and>
     (\<forall>i < n. get (is ! i) = Inr (hs ! i)) \<and> (n < length is \<longrightarrow> (\<exists>e. get (is ! n) = Inl e))"
proof (induction "is")
  case (Cons i "is")
  show ?case
  proof (cases "get i")
    case (Inl e)
    then show ?thesis by (intro exI [of _ 0] exI [of _ "[]"]) simp
  next
    case (Inr x)
    from Cons obtain n hs where n: "n \<le> length is" "length hs = n" "collect_responses get encode is = map (to_header_response encode) hs"
      "\<forall>i < n. get (is ! i) = Inr (hs ! i)" "n < length is \<longrightarrow> (\<exists>e. get (is ! n) = Inl e)" by blast
    with Inr show ?thesis
      by (intro exI [of _ "Suc n"] exI [of _ "x # hs"]) (auto simp: nth_Cons split: nat.split)
  qed
qed simp

lemma responses_by_height_spec:
  assumes "origin + amount \<le> u64_max"
  shows "\<exists>hs. length hs \<le> min amount MAX_HEADERS_AMOUNT_RESPONSE \<and> (\<forall>i < length hs. get (origin + i) = Inr (hs ! i)) \<and>
    (length hs < min amount MAX_HEADERS_AMOUNT_RESPONSE \<longrightarrow> (\<exists>e. get (origin + length hs) = Inl e)) \<and>
    responses_by_height get encode origin amount = (if hs = [] then [rsp_not_found] else map (to_header_response encode) hs)"
proof -
  let ?n = "min amount MAX_HEADERS_AMOUNT_RESPONSE"
  have upt: "[origin..<wrapping_add origin ?n] = [origin..<origin + ?n]" using assms by (simp add: wrapping_add_id)
  from collect_responses_prefix [of "[origin..<origin + ?n]" get encode] obtain n hs where
    n: "n \<le> length [origin..<origin + ?n]" "length hs = n"
    and col: "collect_responses get encode [origin..<origin + ?n] = map (to_header_response encode) hs"
    and get: "\<forall>i < n. get ([origin..<origin + ?n] ! i) = Inr (hs ! i)"
      "n < length [origin..<origin + ?n] \<longrightarrow> (\<exists>e. get ([origin..<origin + ?n] ! n) = Inl e)" by (elim exE conjE) (rule that)
  have le: "n \<le> ?n" using n(1) by simp
  then show ?thesis using n(2) col get upt by (intro exI [of _ hs]) (auto simp: responses_by_height_def Let_def)
qed

lemma accepts_by_height:
  assumes "hs \<noteq> []" "map height hs = [origin..<origin + length hs]" "length hs \<le> amount" "0 < origin" "origin + amount \<le> u64_max"
    and "\<And>x. x \<in> set hs \<Longrightarrow> decode (encode x) = Some x" "\<And>x. x \<in> set hs \<Longrightarrow> eh_validate env x = Inr ()"
  shows "decode_and_verify_responses env decode (with_origin origin amount) (map (to_header_response encode) hs) = Inr hs"
proof -
  have "sort_key height hs = hs" using assms(2) by (intro sort_key_id_if_sorted) simp
  moreover have "decode_responses env decode [] (map (to_header_response encode) hs) = Inr hs"
    using decode_responses_ok [of hs decode encode env "[]"] assms(6,7) by simp
  moreover have "\<forall>(hdr, h) \<in> set (zip hs [origin..<origin + length hs]). height hdr = h"
    unfolding assms(2) [symmetric] by (auto simp: zip_map2 in_set_zip)
  ultimately show ?thesis using assms(1,3-5)
    by (auto simp: decode_and_verify_responses_def with_origin_def Let_def wrapping_add_id)
qed

section \<open>Framing of messages\<close>

lemma read_up_to_chunks:
  assumes "\<forall>bs \<in> set chunks. bs \<noteq> []" "length buf + length (concat chunks) \<le> limit"
  shows "read_up_to limit buf (map Bytes chunks) = Inr (buf @ concat chunks)"
  using assms by (induction chunks arbitrary: buf) (auto simp: Let_def)

text \<open>
  The laws of the delimiter: it is consumed, and a message that was written is read back from in front of
  whatever follows it.
\<close>

definition delimiter_consumes :: "(bytes \<Rightarrow> (nat \<times> bytes) option) \<Rightarrow> bool" where
  "delimiter_consumes delim \<longleftrightarrow> (\<forall>buf len rest. delim buf = Some (len, rest) \<longrightarrow> length rest < length buf)"

definition frames :: "(bytes \<Rightarrow> (nat \<times> bytes) option) \<Rightarrow> (bytes \<Rightarrow> 'm option) \<Rightarrow> ('m \<Rightarrow> bytes) \<Rightarrow> bool" where
  "frames delim decode encode \<longleftrightarrow> (\<forall>m. \<exists>body. decode body = Some m \<and> encode m \<noteq> [] \<and>
     (\<forall>rest. delim (encode m @ rest) = Some (length body, body @ rest)))"

lemma parse_message_frame: "frames delim decode encode \<Longrightarrow> parse_message delim decode (encode m @ rest) = Some (m, rest)"
  unfolding frames_def parse_message_def parse_delimiter_def by (auto dest!: spec [of _ m])

lemma parse_responses_total:
  assumes "delimiter_consumes delim"
  shows "\<exists>out. parse_header_responses delim decode msgs data = Some out"
proof (induction "length data" arbitrary: msgs data rule: less_induct)
  case less
  show ?case
  proof (cases "parse_message delim decode data")
    case (Some p)
    then obtain m rest where p: "parse_message delim decode data = Some (m, rest)" by (cases p) simp
    then have "length rest < length data"
      using assms by (auto simp: parse_message_def parse_delimiter_def delimiter_consumes_def split: option.splits if_splits)
        fastforce
    from less [OF this] show ?thesis by (simp add: parse_header_responses.simps [of _ _ msgs] p)
  qed (simp add: parse_header_responses.simps [of _ _ msgs])
qed

lemma parse_responses_written:
  assumes "frames delim decode encode"
  shows "parse_header_responses delim decode msgs (write_response encode resps) = Some (msgs @ resps)"
proof (induction resps arbitrary: msgs)
  case Nil
  then show ?case
    by (simp add: write_response_def parse_header_responses.simps [of _ _ msgs] parse_message_def parse_delimiter_def)
next
  case (Cons r resps)
  have "parse_message delim decode (write_response encode (r # resps)) = Some (r, write_response encode resps)"
    using parse_message_frame [OF assms] by (simp add: write_response_def)
  then show ?case using Cons by (simp add: parse_header_responses.simps [of _ _ msgs])
qed

section \<open>Correctness of the exchange\<close>

text \<open>
  (C16) Whatever a server sends, the client only accepts headers that validate, never more than requested; for
  a request by height they are exactly the requested heights in order, without a gap, for a request by
  hash it is the one header with that hash, for a request of the head a single header.
\<close>

theorem response_check_sound:
  assumes "decode_and_verify_responses env decode request rs = Inr hs"
  shows "hs \<noteq> [] \<and> length hs \<le> hr_amount request \<and> (\<forall>h \<in> set hs. eh_validate env h = Inr ()) \<and>
    (case hr_data request of
       None \<Rightarrow> False
     | Some (Origin start) \<Rightarrow>
         if start = 0 then length hs = 1
         else start + hr_amount request \<le> u64_max \<longrightarrow> map height hs = [start..<start + length hs]
     | Some (HashOf hash) \<Rightarrow> map (hash_as_bytes \<circ> eh_hash) hs = [hash])"
proof -
  have "hr_data request \<noteq> None" using assms by (cases "hr_data request") (auto simp: decode_and_verify_responses_def res_simps Let_def split: if_splits)
  then show ?thesis using check_response_sound [OF assms] by (auto split: option.split request_data.split)
qed

theorem response_check_sound_witness:
  "decode_and_verify_responses sample_env (dec_header sample_codec) (with_origin 7 3)
     [to_header_response (enc_header sample_codec) (sample_header 7), rsp_not_found] = Inr [sample_header 7] \<and>
   map height [sample_header 7] = [7..<8]"
proof -
  let ?r = "[to_header_response (enc_header sample_codec) (sample_header 7), rsp_not_found]"
  have "decode_responses sample_env (dec_header sample_codec) [] ?r = Inr [sample_header 7]"
    using sample_validates
    by (simp add: to_validated_extended_header_def to_header_response_def decode_and_validate_def rsp_not_found_def
        sample_codec_def)
  then have r: "decode_and_verify_responses sample_env (dec_header sample_codec) (with_origin 7 3) ?r = Inr [sample_header 7]"
    by (simp add: decode_and_verify_responses_def with_origin_def Let_def wrapping_add_def wrap64_def)
  from response_check_sound [OF r] r show ?thesis by (simp add: with_origin_def u64_max_def)
qed

text \<open>
  (C19) A client that asks a node with a persistent store for headers by height gets what the store holds: the
  headers from the requested height on, up to the requested amount, the limit of the server or the first
  height that is missing; and it gets \<open>HeaderNotFound\<close> exactly if the first height is missing.
\<close>

theorem exchange_by_height:
  assumes "rd_invar c db" "\<forall>h x. rd_get_by_height c db h = Inr x \<longrightarrow> eh_validate env x = Inr () \<and> storable c x"
    and "0 < origin" "0 < amount" "origin + amount \<le> u64_max"
  shows "case decode_and_verify_responses env (dec_header c) (with_origin origin amount)
      (responses_by_height (rd_get_by_height c db) (enc_header c) origin amount) of
    Inl e \<Rightarrow> e = HeaderNotFound \<and> rd_get_by_height c db origin = Inl NotFound
  | Inr hs \<Rightarrow> hs \<noteq> [] \<and> length hs \<le> min amount MAX_HEADERS_AMOUNT_RESPONSE \<and>
      (\<forall>i < length hs. rd_get_by_height c db (origin + i) = Inr (hs ! i)) \<and>
      (length hs < min amount MAX_HEADERS_AMOUNT_RESPONSE \<longrightarrow> rd_get_by_height c db (origin + length hs) = Inl NotFound)"
proof -
  let ?get = "rd_get_by_height c db"
  from responses_by_height_spec [OF assms(5), of ?get "enc_header c"] obtain hs where
    len: "length hs \<le> min amount MAX_HEADERS_AMOUNT_RESPONSE" and get: "\<forall>i < length hs. ?get (origin + i) = Inr (hs ! i)"
    and miss: "length hs < min amount MAX_HEADERS_AMOUNT_RESPONSE \<longrightarrow> (\<exists>e. ?get (origin + length hs) = Inl e)"
    and rsp: "responses_by_height ?get (enc_header c) origin amount =
      (if hs = [] then [rsp_not_found] else map (to_header_response (enc_header c)) hs)" by (elim exE conjE) (rule that)
  have nf: "?get k = Inl NotFound" if "?get k = Inl e" for k e
    using that unfolding persistent.st_get_by_height [OF assms(1)] by (cases "rd_map c db k") auto
  show ?thesis
  proof (cases "hs = []")
    case True
    then have "?get origin = Inl NotFound" using miss assms(4) nf by (auto simp: MAX_HEADERS_AMOUNT_RESPONSE_def)
    then show ?thesis using assms(4) rsp True
      by (simp add: decode_and_verify_responses_def with_origin_def rsp_not_found_def to_validated_extended_header_def)
  next
    case False
    have ht: "height (hs ! i) = origin + i" if "i < length hs" for i
    proof -
      have "rd_map c db (origin + i) = Some (hs ! i)" using get that unfolding persistent.st_get_by_height [OF assms(1)] by simp
      then show ?thesis using persistent.st_keyed [OF assms(1)] by (simp add: keyed_by_height_def)
    qed
    have ok: "eh_validate env x = Inr () \<and> storable c x" if "x \<in> set hs" for x
      using that get assms(2) by (metis in_set_conv_nth)
    have "decode_and_verify_responses env (dec_header c) (with_origin origin amount)
        (responses_by_height ?get (enc_header c) origin amount) = Inr hs"
      unfolding rsp if_not_P [OF False]
    proof (rule accepts_by_height [OF False])
      show "map height hs = [origin..<origin + length hs]" by (rule nth_equalityI) (simp_all add: ht)
    qed (use len ok assms(3,5) in \<open>auto simp: storable_def\<close>)
    then show ?thesis using get miss nf len False by auto
  qed
qed

lemma sample_validates_1_2: "eh_validate sample_env (sample_header 1) = Inr ()" "eh_validate sample_env (sample_header 2) = Inr ()"
proof -
  have c: "verify_commit_light sample_env sample_valset ''c'' h (sample_commit h) = Inr ()" for h
    by (simp add: verify_commit_light_def sample_defs voting_power_needed_def width_defs u64_max_eq vote_sign_bytes_def
        vote_of_def list_get_def verify_signature_def trust_level_new_def i32_max_def)
  show "eh_validate sample_env (sample_header 1) = Inr ()" "eh_validate sample_env (sample_header 2) = Inr ()"
    using c [of 1] c [of 2]
    by (simp_all add: eh_validate_def header_validate_basic_def commit_validate_basic_def valset_validate_basic_def
      signature_validate_def BLOCK_PROTOCOL_def MAX_CHAIN_ID_LEN_def GENESIS_HEIGHT_def
      eh_app_version_def from_u64_def dah_validate_basic_def MIN_EXTENDED_SQUARE_WIDTH_def dah_hash_def
      sample_header_def height_def SIGNATURE_LENGTH_def is_zero_def
      sample_defs)
qed

lemma sample_db_get: "rd_get_by_height sample_codec sample_db h = Inr x \<longleftrightarrow> (h = 1 \<or> h = 2) \<and> x = sample_header h"
  unfolding persistent.st_get_by_height [OF sample_db_invar] sample_db_map by auto

theorem exchange_by_height_witness:
  "\<exists>hs. decode_and_verify_responses sample_env (dec_header sample_codec) (with_origin 1 5)
      (responses_by_height (rd_get_by_height sample_codec sample_db) (enc_header sample_codec) 1 5) = Inr hs \<and> length hs = 2"
proof -
  let ?r = "decode_and_verify_responses sample_env (dec_header sample_codec) (with_origin 1 5)
      (responses_by_height (rd_get_by_height sample_codec sample_db) (enc_header sample_codec) 1 5)"
  have "\<forall>h x. rd_get_by_height sample_codec sample_db h = Inr x \<longrightarrow> eh_validate sample_env x = Inr () \<and> storable sample_codec x"
    using sample_validates_1_2 sample_storable by (auto simp: sample_db_get i64_max_def)
  from exchange_by_height [OF sample_db_invar this, of 1 5]
  have ex: "case ?r of Inl e \<Rightarrow> e = HeaderNotFound \<and> rd_get_by_height sample_codec sample_db 1 = Inl NotFound
    | Inr hs \<Rightarrow> hs \<noteq> [] \<and> length hs \<le> 5 \<and> (\<forall>i < length hs. rd_get_by_height sample_codec sample_db (1 + i) = Inr (hs ! i)) \<and>
        (length hs < 5 \<longrightarrow> rd_get_by_height sample_codec sample_db (1 + length hs) = Inl NotFound)"
    by (simp add: u64_max_def MAX_HEADERS_AMOUNT_RESPONSE_def split: sum.splits)
  show ?thesis
  proof (cases ?r)
    case (Inl e)
    then show ?thesis using ex sample_db_get [of 1 "sample_header 1"] by simp
  next
    case (Inr hs)
    have "\<not> 2 < length hs" using ex Inr sample_db_get [of 3 "hs ! 2"] by (auto dest: spec [of _ 2])
    moreover have "length hs \<noteq> 1" using ex Inr sample_db_get [of 2 "sample_header 2"] by (auto simp: numeral_2_eq_2)
    ultimately have "length hs = 2" using ex Inr by (cases "length hs") auto
    with Inr show ?thesis by blast
  qed
qed


text \<open>An encoding that satisfies the laws: the length in unary, then the status and the body.\<close>

definition sample_frame :: "header_response \<Rightarrow> bytes" where
  "sample_frame r = replicate (Suc (length (rsp_body r))) 1 @ 0 #
     (case rsp_status_code r of StatusInvalid \<Rightarrow> 0 | StatusOk \<Rightarrow> 1 | StatusNotFound \<Rightarrow> 2) # rsp_body r"

definition sample_delim :: "bytes \<Rightarrow> (nat \<times> bytes) option" where
  "sample_delim buf = (let n = length (takeWhile (\<lambda>b. b = 1) buf) in if n < length buf then Some (n, drop (Suc n) buf) else None)"

definition sample_unframe :: "bytes \<Rightarrow> header_response option" where
  "sample_unframe bs = (case bs of [] \<Rightarrow> None | t # b \<Rightarrow> Some \<lparr> rsp_body = b, rsp_status_code =
     (if t = 1 then StatusOk else if t = 2 then StatusNotFound else StatusInvalid) \<rparr>)"

lemma sample_delim_frame: "sample_delim (replicate n 1 @ 0 # xs) = Some (n, xs)"
proof -
  have "takeWhile (\<lambda>b. b = 1) (replicate n 1 @ (0 :: byte) # xs) = replicate n 1" by (induction n) simp_all
  then show ?thesis by (simp add: sample_delim_def Let_def)
qed

lemma sample_frames: "frames sample_delim sample_unframe sample_frame"
  unfolding frames_def
proof
  fix m :: header_response
  let ?t = "case rsp_status_code m of StatusInvalid \<Rightarrow> 0 :: byte | StatusOk \<Rightarrow> 1 | StatusNotFound \<Rightarrow> 2"
  have "sample_unframe (?t # rsp_body m) = Some m" by (simp add: sample_unframe_def split: status_code.split)
  moreover have "sample_delim (sample_frame m @ rest) = Some (length (?t # rsp_body m), (?t # rsp_body m) @ rest)" for rest
    using sample_delim_frame [of "Suc (length (rsp_body m))"] by (simp add: sample_frame_def)
  ultimately show "\<exists>body. sample_unframe body = Some m \<and> sample_frame m \<noteq> [] \<and>
      (\<forall>rest. sample_delim (sample_frame m @ rest) = Some (length body, body @ rest))"
    by (intro exI [of _ "?t # rsp_body m"]) (simp add: sample_frame_def)
qed


text \<open>
  A request whose range leaves 64 bits is not checked at all: the header of any height is accepted.
\<close>

lemma overflowing_request_unchecked:
  "decode_and_verify_responses sample_env (dec_header sample_codec) (with_origin u64_max 1)
     [to_header_response (enc_header sample_codec) (sample_header 7)] = Inr [sample_header 7]"
  using sample_validates
  by (simp add: decode_and_verify_responses_def with_origin_def to_validated_extended_header_def to_header_response_def
      decode_and_validate_def sample_codec_def wrapping_add_def wrap64_def u64_max_def)

end
