(* ===== verification/Peer_Tracker.thy ===== *)
theory Peer_Tracker
  imports Node_Common "HOL-Library.AList" "HOL-Library.Multiset"
begin

text \<open>
  The peer tracker, from \<^verbatim>\<open>node/src/peer_tracker.rs\<close>. The concurrent hash map of the peers is an association
  list, whose order stands for the order in which the map happens to be traversed. The two counters that
  other components watch are 64 bits wide and wrap around. Published events are collected in the state.
\<close>

section \<open>Definitions\<close>

type_synonym multiaddr = bytes

record peer_tracker_info =
  num_connected_peers :: nat
  num_connected_trusted_peers :: nat

datatype peer_state = Discovered | AddressesFound | Connected

record peer_info =
  pi_state :: peer_state
  pi_addrs :: "multiaddr list"
  pi_connections :: "nat list"
  pi_trusted :: bool

definition pi_is_connected :: "peer_info \<Rightarrow> bool" where
  "pi_is_connected self \<longleftrightarrow> pi_state self = Connected"

record peer_tracker =
  pt_peers :: "(peer_id \<times> peer_info) list"
  pt_info :: peer_tracker_info
  pt_events :: "node_event list"

definition pt_new :: peer_tracker where
  "pt_new = \<lparr> pt_peers = [], pt_info = \<lparr> num_connected_peers = 0, num_connected_trusted_peers = 0 \<rparr>, pt_events = [] \<rparr>"

definition discovered_peer :: peer_info where
  "discovered_peer = \<lparr> pi_state = Discovered, pi_addrs = [], pi_connections = [], pi_trusted = False \<rparr>"

definition set_maybe_discovered :: "peer_tracker \<Rightarrow> peer_id \<Rightarrow> bool \<times> peer_tracker" where
  "set_maybe_discovered self peer =
     (case map_of (pt_peers self) peer of
        None \<Rightarrow> (True, self\<lparr> pt_peers := pt_peers self @ [(peer, discovered_peer)] \<rparr>)
      | Some _ \<Rightarrow> (False, self))"

text \<open>\<open>get\<close> returns the entry of a peer, which the caller may change: \<open>pt_put\<close> writes it back.\<close>

definition pt_get :: "peer_tracker \<Rightarrow> peer_id \<Rightarrow> peer_info" where
  "pt_get self peer = (case map_of (pt_peers self) peer of None \<Rightarrow> discovered_peer | Some info \<Rightarrow> info)"

definition pt_put :: "peer_tracker \<Rightarrow> peer_id \<Rightarrow> peer_info \<Rightarrow> peer_tracker" where
  "pt_put self peer info = self\<lparr> pt_peers := AList.update peer info (pt_peers self) \<rparr>"

fun push_new :: "'a list \<Rightarrow> 'a list \<Rightarrow> 'a list" where
  "push_new xs [] = xs" |
  "push_new xs (y # ys) = push_new (if y \<in> set xs then xs else xs @ [y]) ys"

definition add_addresses :: "peer_tracker \<Rightarrow> peer_id \<Rightarrow> multiaddr list \<Rightarrow> peer_tracker" where
  "add_addresses self peer addrs =
     (let state = pt_get self peer;
          state = state\<lparr> pi_addrs := push_new (pi_addrs state) addrs \<rparr>;
          state = (if pi_state state = Discovered \<and> pi_addrs state \<noteq> [] then state\<lparr> pi_state := AddressesFound \<rparr> else state) in
      pt_put self peer state)"

definition set_trusted :: "peer_tracker \<Rightarrow> peer_id \<Rightarrow> bool \<Rightarrow> peer_tracker" where
  "set_trusted self peer trusted =
     (let info = pt_get self peer in
      if pi_trusted info = trusted then pt_put self peer info
      else let info = info\<lparr> pi_trusted := trusted \<rparr>; self = pt_put self peer info in
        if pi_is_connected info then
          self\<lparr> pt_info := (pt_info self)\<lparr> num_connected_trusted_peers :=
            (if trusted then wrapping_add (num_connected_trusted_peers (pt_info self)) 1
             else wrapping_sub (num_connected_trusted_peers (pt_info self)) 1) \<rparr> \<rparr>
        else self)"

definition increment_connected_peers :: "peer_tracker_info \<Rightarrow> bool \<Rightarrow> peer_tracker_info" where
  "increment_connected_peers info trusted =
     (let info = info\<lparr> num_connected_peers := wrapping_add (num_connected_peers info) 1 \<rparr> in
      if trusted then info\<lparr> num_connected_trusted_peers := wrapping_add (num_connected_trusted_peers info) 1 \<rparr> else info)"

definition decrement_connected_peers :: "peer_tracker_info \<Rightarrow> bool \<Rightarrow> peer_tracker_info" where
  "decrement_connected_peers info trusted =
     (let info = info\<lparr> num_connected_peers := wrapping_sub (num_connected_peers info) 1 \<rparr> in
      if trusted then info\<lparr> num_connected_trusted_peers := wrapping_sub (num_connected_trusted_peers info) 1 \<rparr> else info)"

definition set_connected :: "peer_tracker \<Rightarrow> peer_id \<Rightarrow> nat \<Rightarrow> multiaddr option \<Rightarrow> peer_tracker" where
  "set_connected self peer connection_id address =
     (let info = pt_get self peer;
          info = (case address of
              None \<Rightarrow> info
            | Some a \<Rightarrow> if a \<in> set (pi_addrs info) then info else info\<lparr> pi_addrs := pi_addrs info @ [a] \<rparr>);
          info = info\<lparr> pi_connections := pi_connections info @ [connection_id] \<rparr> in
      if \<not> pi_is_connected info then
        let info = info\<lparr> pi_state := Connected \<rparr>; self = pt_put self peer info in
        self\<lparr> pt_info := increment_connected_peers (pt_info self) (pi_trusted info),
              pt_events := pt_events self @ [PeerConnected peer (pi_trusted info)] \<rparr>
      else pt_put self peer info)"

definition set_maybe_disconnected :: "peer_tracker \<Rightarrow> peer_id \<Rightarrow> nat \<Rightarrow> bool \<times> peer_tracker" where
  "set_maybe_disconnected self peer connection_id =
     (let info = pt_get self peer;
          info = info\<lparr> pi_connections := filter (\<lambda>i. i \<noteq> connection_id) (pi_connections info) \<rparr> in
      if pi_connections info = [] then
        let info = (if pi_addrs info = [] then info\<lparr> pi_state := Discovered \<rparr> else info\<lparr> pi_state := AddressesFound \<rparr>);
            self = pt_put self peer info in
        (True, self\<lparr> pt_info := decrement_connected_peers (pt_info self) (pi_trusted info),
                     pt_events := pt_events self @ [PeerDisconnected peer (pi_trusted info)] \<rparr>)
      else (False, pt_put self peer info))"

definition pt_is_connected :: "peer_tracker \<Rightarrow> peer_id \<Rightarrow> bool \<times> peer_tracker" where
  "pt_is_connected self peer = (pi_is_connected (pt_get self peer), pt_put self peer (pt_get self peer))"

definition addresses :: "peer_tracker \<Rightarrow> peer_id \<Rightarrow> multiaddr list \<times> peer_tracker" where
  "addresses self peer = (pi_addrs (pt_get self peer), pt_put self peer (pt_get self peer))"

definition pt_remove :: "peer_tracker \<Rightarrow> peer_id \<Rightarrow> peer_tracker" where
  "pt_remove self peer = self\<lparr> pt_peers := AList.delete peer (pt_peers self) \<rparr>"

definition connected_peers :: "peer_tracker \<Rightarrow> peer_id list" where
  "connected_peers self = map fst (filter (\<lambda>p. pi_is_connected (snd p)) (pt_peers self))"

definition connections :: "peer_tracker \<Rightarrow> (peer_id \<times> nat list) list" where
  "connections self = map (\<lambda>p. (fst p, pi_connections (snd p))) (filter (\<lambda>p. pi_is_connected (snd p)) (pt_peers self))"

definition MAX_PEER_SAMPLE :: nat where "MAX_PEER_SAMPLE = 128"

text \<open>The shuffle belongs to \<open>rand\<close> and is an argument.\<close>

definition best_peer :: "(peer_id list \<Rightarrow> peer_id list) \<Rightarrow> peer_tracker \<Rightarrow> peer_id option" where
  "best_peer shuffle self =
     (case shuffle (map fst (take MAX_PEER_SAMPLE (filter (\<lambda>p. pi_is_connected (snd p)) (pt_peers self)))) of
        [] \<Rightarrow> None
      | p # _ \<Rightarrow> Some p)"

definition best_n_peers :: "peer_tracker \<Rightarrow> nat \<Rightarrow> peer_id list" where
  "best_n_peers self limit = map fst (take limit (filter (\<lambda>p. pi_is_connected (snd p)) (pt_peers self)))"

definition trusted_n_peers :: "peer_tracker \<Rightarrow> nat \<Rightarrow> peer_id list" where
  "trusted_n_peers self limit =
     map fst (take limit (filter (\<lambda>p. pi_is_connected (snd p) \<and> pi_trusted (snd p)) (pt_peers self)))"

text \<open>
  How the networking component uses the tracker: a connection is closed only after it was opened, and
  \<open>remove\<close> is not called (it is dead code).
\<close>

inductive pt_step :: "peer_tracker \<Rightarrow> peer_tracker \<Rightarrow> bool" where
  discover: "pt_step t (snd (set_maybe_discovered t peer))"
| addresses: "pt_step t (add_addresses t peer addrs)"
| trust: "pt_step t (set_trusted t peer b)"
| connect: "pt_step t (set_connected t peer i address)"
| disconnect: "i \<in> set (pi_connections (pt_get t peer)) \<Longrightarrow> pt_step t (snd (set_maybe_disconnected t peer i))"

section \<open>The counters\<close>

definition peer_ok :: "peer_info \<Rightarrow> bool" where
  "peer_ok info \<longleftrightarrow> (pi_is_connected info \<longleftrightarrow> pi_connections info \<noteq> []) \<and> (pi_state info = AddressesFound \<longrightarrow> pi_addrs info \<noteq> [])"

definition count_peers :: "(peer_info \<Rightarrow> bool) \<Rightarrow> (peer_id \<times> peer_info) list \<Rightarrow> nat" where
  "count_peers P ps = length (filter (\<lambda>p. P (snd p)) ps)"

definition pi_is_trusted_connected :: "peer_info \<Rightarrow> bool" where
  "pi_is_trusted_connected info \<longleftrightarrow> pi_is_connected info \<and> pi_trusted info"

definition pt_inv :: "peer_tracker \<Rightarrow> bool" where
  "pt_inv t \<longleftrightarrow> distinct (map fst (pt_peers t)) \<and> (\<forall>(p, info) \<in> set (pt_peers t). peer_ok info) \<and>
     num_connected_peers (pt_info t) = wrap64 (count_peers pi_is_connected (pt_peers t)) \<and>
     num_connected_trusted_peers (pt_info t) = wrap64 (count_peers pi_is_trusted_connected (pt_peers t))"

lemma wrapping_add_count [u64_simps]: "wrapping_add (wrap64 n) (Suc 0) = wrap64 (Suc n)"
  by (simp add: wrapping_add_def wrap64_def mod_Suc_eq)

lemma wrapping_sub_count [u64_simps]: "wrapping_sub (wrap64 (Suc n)) (Suc 0) = wrap64 n"
  by (simp add: wrapping_sub_def wrap64_def mod_Suc)

text \<open>A peer that is new to the list counts as one that is not connected.\<close>

lemma count_peers_update:
  assumes "distinct (map fst ps)" "\<not> P discovered_peer"
  shows "count_peers P (AList.update k v ps) + of_bool (P (case map_of ps k of None \<Rightarrow> discovered_peer | Some i \<Rightarrow> i)) =
    count_peers P ps + of_bool (P v)"
  using assms
proof (induction ps)
  case (Cons p ps)
  show ?case
  proof (cases "fst p = k")
    case True
    then have "AList.update k v (p # ps) = (k, v) # ps" by (cases p) simp
    then show ?thesis using True by (cases p) (simp add: count_peers_def)
  next
    case False
    then have "AList.update k v (p # ps) = p # AList.update k v ps" by (cases p) simp
    then show ?thesis using False Cons by (cases p) (auto simp: count_peers_def)
  qed
qed (simp add: count_peers_def)

lemma set_update_cases: "x \<in> set (AList.update k v ps) \<Longrightarrow> x = (k, v) \<or> x \<in> set ps"
  by (induction ps) (auto split: if_splits)

lemma discovered_simps [simp]:
  "peer_ok discovered_peer" "\<not> pi_is_connected discovered_peer" "\<not> pi_is_trusted_connected discovered_peer"
  by (simp_all add: peer_ok_def discovered_peer_def pi_is_connected_def pi_is_trusted_connected_def)

lemma pi_is_connected_updates [simp]:
  "pi_is_connected (info\<lparr> pi_trusted := b \<rparr>) = pi_is_connected info"
  "pi_is_connected (info\<lparr> pi_addrs := as \<rparr>) = pi_is_connected info"
  "pi_is_connected (info\<lparr> pi_connections := cs \<rparr>) = pi_is_connected info"
  "pi_is_connected (info\<lparr> pi_state := st \<rparr>) \<longleftrightarrow> st = Connected"
  by (simp_all add: pi_is_connected_def)

lemma pt_get_ok: "pt_inv t \<Longrightarrow> peer_ok (pt_get t peer)"
  by (auto simp: pt_get_def pt_inv_def split: option.split dest: map_of_SomeD)

text \<open>
  Writing an entry back: the counters must change by what the entry contributes after and before.
\<close>

lemma pt_put_inv:
  assumes inv: "pt_inv t" and ok: "peer_ok info"
    and n: "\<And>c. c + of_bool (pi_is_connected (pt_get t peer)) = count_peers pi_is_connected (pt_peers t) + of_bool (pi_is_connected info) \<Longrightarrow>
      num_connected_peers i = wrap64 c"
    and m: "\<And>c. c + of_bool (pi_is_trusted_connected (pt_get t peer)) =
        count_peers pi_is_trusted_connected (pt_peers t) + of_bool (pi_is_trusted_connected info) \<Longrightarrow>
      num_connected_trusted_peers i = wrap64 c"
  shows "pt_inv ((pt_put t peer info)\<lparr> pt_info := i, pt_events := evs \<rparr>)"
proof -
  have d: "distinct (map fst (pt_peers t))" using inv by (simp add: pt_inv_def)
  have "num_connected_peers i = wrap64 (count_peers pi_is_connected (AList.update peer info (pt_peers t)))"
    by (rule n) (use count_peers_update [OF d, of pi_is_connected peer info] in \<open>simp add: pt_get_def\<close>)
  moreover have "num_connected_trusted_peers i = wrap64 (count_peers pi_is_trusted_connected (AList.update peer info (pt_peers t)))"
    by (rule m) (use count_peers_update [OF d, of pi_is_trusted_connected peer info] in \<open>simp add: pt_get_def\<close>)
  moreover have "\<forall>(p, info) \<in> set (AList.update peer info (pt_peers t)). peer_ok info"
    using inv ok by (auto simp: pt_inv_def dest!: set_update_cases)
  ultimately show ?thesis using d by (simp add: pt_inv_def pt_put_def distinct_update)
qed

lemma pt_put_inv_same:
  assumes inv: "pt_inv t" and "peer_ok info" "pi_is_connected info = pi_is_connected (pt_get t peer)"
    "pi_trusted info = pi_trusted (pt_get t peer)"
  shows "pt_inv (pt_put t peer info)"
proof -
  have "pt_inv ((pt_put t peer info)\<lparr> pt_info := pt_info t, pt_events := pt_events t \<rparr>)"
    using assms by (intro pt_put_inv) (auto simp: pt_inv_def pi_is_trusted_connected_def)
  then show ?thesis by (simp add: pt_put_def)
qed

lemma update_new: "k \<notin> fst ` set ps \<Longrightarrow> AList.update k v ps = ps @ [(k, v)]"
  by (induction ps) auto

lemma push_new_set [simp]: "set (push_new xs ys) = set xs \<union> set ys"
  by (induction xs ys rule: push_new.induct) auto

lemma push_new_Nil [simp]: "push_new xs ys = [] \<longleftrightarrow> xs = [] \<and> ys = []"
  using push_new_set [of xs ys] by (metis Un_empty set_empty)

lemma set_maybe_discovered_inv: "pt_inv t \<Longrightarrow> pt_inv (snd (set_maybe_discovered t peer))"
proof (cases "map_of (pt_peers t) peer")
  case None
  assume inv: "pt_inv t"
  have "peer \<notin> fst ` set (pt_peers t)" using None by (simp add: map_of_eq_None_iff)
  then have "snd (set_maybe_discovered t peer) = pt_put t peer discovered_peer"
    using None by (simp add: set_maybe_discovered_def pt_put_def update_new)
  moreover have "pt_get t peer = discovered_peer" using None by (simp add: pt_get_def)
  ultimately show ?thesis using inv by (simp add: pt_put_inv_same)
qed (simp add: set_maybe_discovered_def)

lemma add_addresses_inv: "pt_inv t \<Longrightarrow> pt_inv (add_addresses t peer addrs)"
  unfolding add_addresses_def Let_def
  using pt_get_ok [of t peer]
  by (intro pt_put_inv_same) (auto simp: peer_ok_def pi_is_connected_def)

text \<open>What a counter is after an entry that counted no longer does, or the other way round.\<close>

lemma counter_up: "c + of_bool False = n + of_bool True \<Longrightarrow> wrapping_add (wrap64 n) (Suc 0) = wrap64 c"
  by (simp add: wrapping_add_count)

lemma counter_down: "c + of_bool True = n + of_bool False \<Longrightarrow> wrapping_sub (wrap64 n) (Suc 0) = wrap64 c"
  using wrapping_sub_count [of c] by simp

lemma set_trusted_inv:
  assumes inv: "pt_inv t"
  shows "pt_inv (set_trusted t peer b)"
proof (cases "pi_trusted (pt_get t peer) = b")
  case True
  then show ?thesis using inv by (simp add: set_trusted_def Let_def pt_put_inv_same pt_get_ok)
next
  case False
  let ?info = "(pt_get t peer)\<lparr> pi_trusted := b \<rparr>" and ?i = "pt_info t"
  let ?j = "if pi_is_connected (pt_get t peer) then ?i\<lparr> num_connected_trusted_peers :=
    (if b then wrapping_add (num_connected_trusted_peers ?i) 1 else wrapping_sub (num_connected_trusted_peers ?i) 1) \<rparr> else ?i"
  have "pt_inv ((pt_put t peer ?info)\<lparr> pt_info := ?j, pt_events := pt_events t \<rparr>)"
  proof (rule pt_put_inv [OF inv])
    show "peer_ok ?info" using pt_get_ok [OF inv, of peer] by (simp add: peer_ok_def pi_is_connected_def)
    show "num_connected_peers ?j = wrap64 c"
      if "c + of_bool (pi_is_connected (pt_get t peer)) = count_peers pi_is_connected (pt_peers t) + of_bool (pi_is_connected ?info)" for c
      using that inv by (simp add: pt_inv_def)
    show "num_connected_trusted_peers ?j = wrap64 c"
      if "c + of_bool (pi_is_trusted_connected (pt_get t peer)) =
        count_peers pi_is_trusted_connected (pt_peers t) + of_bool (pi_is_trusted_connected ?info)" for c
      using that inv False counter_up [of c "count_peers pi_is_trusted_connected (pt_peers t)"]
        counter_down [of c "count_peers pi_is_trusted_connected (pt_peers t)"]
      by (cases b) (auto simp: pt_inv_def pi_is_trusted_connected_def split: if_splits)
  qed
  moreover have "set_trusted t peer b = (pt_put t peer ?info)\<lparr> pt_info := ?j, pt_events := pt_events t \<rparr>"
    using False by (simp add: set_trusted_def Let_def pt_put_def pi_is_connected_def)
  ultimately show ?thesis by simp
qed

lemma set_connected_inv:
  assumes inv: "pt_inv t"
  shows "pt_inv (set_connected t peer i address)"
proof -
  let ?g = "pt_get t peer"
  let ?a = "case address of None \<Rightarrow> ?g | Some a \<Rightarrow> if a \<in> set (pi_addrs ?g) then ?g else ?g\<lparr> pi_addrs := pi_addrs ?g @ [a] \<rparr>"
  let ?info = "?a\<lparr> pi_connections := pi_connections ?a @ [i] \<rparr>"
  note g = pt_get_ok [OF inv, of peer]
  have a: "pi_is_connected ?a = pi_is_connected ?g" "pi_trusted ?a = pi_trusted ?g" "pi_state ?a = pi_state ?g"
    "pi_addrs ?g \<noteq> [] \<Longrightarrow> pi_addrs ?a \<noteq> []"
    by (auto split: option.split)
  show ?thesis
  proof (cases "pi_is_connected ?g")
    case True
    then have "peer_ok ?info" using g a by (simp add: peer_ok_def pi_is_connected_def)
    moreover have "set_connected t peer i address = pt_put t peer ?info"
      using True a(1) by (simp add: set_connected_def Let_def)
    ultimately show ?thesis using inv a by (simp add: pt_put_inv_same)
  next
    case False
    let ?new = "?info\<lparr> pi_state := Connected \<rparr>"
    have "set_connected t peer i address = (pt_put t peer ?new)\<lparr> pt_info := increment_connected_peers (pt_info t) (pi_trusted ?g),
        pt_events := pt_events t @ [PeerConnected peer (pi_trusted ?g)] \<rparr>"
      using False a by (simp add: set_connected_def Let_def pt_put_def)
    also have "pt_inv \<dots>"
    proof (rule pt_put_inv [OF inv])
      show "peer_ok ?new" by (simp add: peer_ok_def)
    qed (use inv False a in \<open>auto simp: increment_connected_peers_def Let_def pt_inv_def pi_is_trusted_connected_def
        wrapping_add_count split: if_splits\<close>)
    finally show ?thesis .
  qed
qed

lemma set_maybe_disconnected_inv:
  assumes inv: "pt_inv t" and i: "i \<in> set (pi_connections (pt_get t peer))"
  shows "pt_inv (snd (set_maybe_disconnected t peer i))"
proof -
  let ?g = "pt_get t peer"
  let ?info = "?g\<lparr> pi_connections := filter (\<lambda>j. j \<noteq> i) (pi_connections ?g) \<rparr>"
  note g = pt_get_ok [OF inv, of peer]
  have con: "pi_is_connected ?g" using g i by (auto simp: peer_ok_def)
  show ?thesis
  proof (cases "pi_connections ?info = []")
    case True
    let ?new = "if pi_addrs ?g = [] then ?info\<lparr> pi_state := Discovered \<rparr> else ?info\<lparr> pi_state := AddressesFound \<rparr>"
    have "snd (set_maybe_disconnected t peer i) = (pt_put t peer ?new)\<lparr> pt_info := decrement_connected_peers (pt_info t) (pi_trusted ?g),
        pt_events := pt_events t @ [PeerDisconnected peer (pi_trusted ?g)] \<rparr>"
      using True by (simp add: set_maybe_disconnected_def Let_def pt_put_def)
    also have "pt_inv \<dots>"
    proof (rule pt_put_inv [OF inv])
      show "peer_ok ?new" using True by (simp add: peer_ok_def)
    next
      fix c
      assume "c + of_bool (pi_is_connected ?g) = count_peers pi_is_connected (pt_peers t) + of_bool (pi_is_connected ?new)"
      then have "Suc c = count_peers pi_is_connected (pt_peers t)" using con by (simp split: if_splits)
      then show "num_connected_peers (decrement_connected_peers (pt_info t) (pi_trusted ?g)) = wrap64 c"
        using inv wrapping_sub_count [of c] by (simp add: decrement_connected_peers_def pt_inv_def Let_def)
    next
      fix c
      assume "c + of_bool (pi_is_trusted_connected ?g) =
        count_peers pi_is_trusted_connected (pt_peers t) + of_bool (pi_is_trusted_connected ?new)"
      then have "(if pi_trusted ?g then Suc c else c) = count_peers pi_is_trusted_connected (pt_peers t)"
        using con by (cases "pi_trusted ?g") (simp_all add: pi_is_trusted_connected_def split: if_splits)
      then show "num_connected_trusted_peers (decrement_connected_peers (pt_info t) (pi_trusted ?g)) = wrap64 c"
        using inv wrapping_sub_count [of c] by (auto simp: decrement_connected_peers_def pt_inv_def Let_def split: if_splits)
    qed
    finally show ?thesis .
  next
    case False
    then have "peer_ok ?info" using g con by (simp add: peer_ok_def pi_is_connected_def)
    with False inv show ?thesis by (simp add: set_maybe_disconnected_def Let_def pt_put_inv_same)
  qed
qed

lemma pt_step_inv: "pt_step t t' \<Longrightarrow> pt_inv t \<Longrightarrow> pt_inv t'"
  by (induction rule: pt_step.induct)
    (simp_all add: set_maybe_discovered_inv add_addresses_inv set_trusted_inv set_connected_inv set_maybe_disconnected_inv)

lemma pt_reachable_inv: "pt_step\<^sup>*\<^sup>* pt_new t \<Longrightarrow> pt_inv t"
proof (induction rule: rtranclp_induct)
  case base
  show ?case by (simp add: pt_inv_def pt_new_def count_peers_def wrap64_def)
qed (rule pt_step_inv)

section \<open>Correctness of the peer tracker\<close>

text \<open>
  (C35) In every state that the tracker reaches, the published number of connected peers is the number of
  peers that it lists as connected, the number of trusted ones that of the trusted connected peers, a
  peer is connected exactly while it has open connections, and a request finds a peer to ask exactly if
  the published number is not zero.
\<close>

theorem peer_counters_exact:
  assumes "pt_step\<^sup>*\<^sup>* pt_new t" "length (pt_peers t) \<le> u64_max" "\<forall>xs. mset (shuffle xs) = mset xs"
  shows "num_connected_peers (pt_info t) = length (connected_peers t) \<and>
    num_connected_trusted_peers (pt_info t) = length (trusted_n_peers t (length (pt_peers t))) \<and>
    distinct (connected_peers t) \<and>
    (\<forall>p. p \<in> set (connected_peers t) \<longleftrightarrow> pi_connections (pt_get t p) \<noteq> []) \<and>
    (case best_peer shuffle t of None \<Rightarrow> num_connected_peers (pt_info t) = 0 | Some p \<Rightarrow> p \<in> set (connected_peers t))"
proof -
  have inv: "pt_inv t" by (rule pt_reachable_inv [OF assms(1)])
  then have d: "distinct (map fst (pt_peers t))" by (simp add: pt_inv_def)
  have small: "wrap64 (count_peers P (pt_peers t)) = count_peers P (pt_peers t)" for P
    using le_trans [OF length_filter_le assms(2), of "\<lambda>p. P (snd p)"] by (intro wrap64_id) (simp add: count_peers_def)
  have n: "num_connected_peers (pt_info t) = length (connected_peers t)"
    using inv small [of pi_is_connected] by (simp add: pt_inv_def connected_peers_def count_peers_def)
  have m: "num_connected_trusted_peers (pt_info t) = length (trusted_n_peers t (length (pt_peers t)))"
    using inv small [of pi_is_trusted_connected]
    by (simp add: pt_inv_def trusted_n_peers_def count_peers_def pi_is_trusted_connected_def)
  have c: "p \<in> set (connected_peers t) \<longleftrightarrow> pi_connections (pt_get t p) \<noteq> []" for p
  proof -
    have "p \<in> set (connected_peers t) \<longleftrightarrow> (\<exists>info. map_of (pt_peers t) p = Some info \<and> pi_is_connected info)"
      using d by (force simp: connected_peers_def)
    also have "\<dots> \<longleftrightarrow> pi_is_connected (pt_get t p)" by (auto simp: pt_get_def split: option.split)
    finally show ?thesis using pt_get_ok [OF inv, of p] by (simp add: peer_ok_def)
  qed
  let ?sample = "map fst (take MAX_PEER_SAMPLE (filter (\<lambda>p. pi_is_connected (snd p)) (pt_peers t)))"
  have "set (shuffle ?sample) = set ?sample" using assms(3) by (metis set_mset_mset)
  moreover have "set ?sample \<subseteq> set (connected_peers t)" by (simp add: connected_peers_def image_mono set_take_subset del: set_filter)
  moreover have "?sample = [] \<longleftrightarrow> connected_peers t = []" by (auto simp: connected_peers_def MAX_PEER_SAMPLE_def)
  ultimately have "case best_peer shuffle t of None \<Rightarrow> connected_peers t = [] | Some p \<Rightarrow> p \<in> set (connected_peers t)"
    by (cases "shuffle ?sample") (auto simp: best_peer_def)
  moreover have "distinct (connected_peers t)" using d by (simp add: connected_peers_def distinct_map_filter)
  ultimately show ?thesis using n m c by (auto split: option.splits)
qed

theorem peer_counters_exact_witness:
  "num_connected_peers (pt_info (set_connected (set_trusted pt_new [1] True) [1] 7 None)) = 1 \<and>
   num_connected_trusted_peers (pt_info (set_connected (set_trusted pt_new [1] True) [1] 7 None)) = 1"
proof -
  let ?t = "set_connected (set_trusted pt_new [1] True) [1] 7 None"
  have "pt_step\<^sup>*\<^sup>* pt_new ?t" by (meson connect trust rtranclp.rtrancl_refl rtranclp.rtrancl_into_rtrancl)
  moreover have p: "length (pt_peers ?t) = 1" "length (connected_peers ?t) = 1" "length (trusted_n_peers ?t 1) = 1"
    by (simp_all add: set_connected_def set_trusted_def Let_def pt_put_def pt_get_def pt_new_def discovered_peer_def
        pi_is_connected_def connected_peers_def trusted_n_peers_def)
  ultimately show ?thesis using peer_counters_exact [of ?t "\<lambda>xs. xs"] by (simp add: u64_max_def)
qed

text \<open>
  The guard of the last rule is needed: closing a connection of a peer that has none still counts down, and
  below zero the counter wraps around.
\<close>

lemma disconnect_unconnected_underflow:
  "num_connected_peers (pt_info (snd (set_maybe_disconnected pt_new peer i))) = u64_max"
  by (simp add: set_maybe_disconnected_def Let_def pt_new_def pt_get_def discovered_peer_def pt_put_def
      decrement_connected_peers_def wrapping_sub_def u64_max_def)

end
