(* ===== verification/Header_Ex_Client.thy ===== *)
theory Header_Ex_Client
  imports Header_Ex Peer_Tracker "HOL-Library.Product_Lexorder"
begin

text \<open>
  The client of the header exchange, from \<^verbatim>\<open>node/src/p2p/header_ex/client.rs\<close>. A oneshot channel is a number;
  the state records what was sent on each. A request is answered by whoever holds its channel: the table
  of pending requests or a task. Dropping a holder sends \<open>RequestCancelled\<close>. The trait \<open>RequestSender\<close> is an
  argument that returns the identifier of the request.
\<close>

section \<open>Definitions\<close>

type_synonym answer = "(extended_header list, p2p_error) result"

definition MAX_PEERS :: nat where "MAX_PEERS = 10"
definition MIN_HEAD_RESPONSES :: nat where "MIN_HEAD_RESPONSES = 2"

record client_req =
  cr_request :: header_request
  cr_respond_to :: nat

text \<open>What a task waits for: the answers of several peers, or the decoding of a response.\<close>

datatype client_task =
    HeadTask nat "nat list"
  | DecodeTask header_request "header_response list" nat

record he_client =
  hc_reqs :: "(nat \<times> client_req) list"
  hc_cancelled :: bool
  hc_tasks :: "client_task list"
  hc_chans :: "nat \<rightharpoonup> answer"
  hc_next :: nat

definition hc_new :: he_client where
  "hc_new = \<lparr> hc_reqs = [], hc_cancelled = False, hc_tasks = [], hc_chans = Map.empty, hc_next = 0 \<rparr>"

text \<open>\<open>OneshotSender::maybe_send\<close>; \<open>hc_channel\<close> is \<open>oneshot::channel()\<close>.\<close>

definition maybe_send :: "nat \<Rightarrow> answer \<Rightarrow> he_client \<Rightarrow> he_client" where
  "maybe_send c r self = self\<lparr> hc_chans := (hc_chans self)(c \<mapsto> r) \<rparr>"

definition hc_channel :: "he_client \<Rightarrow> nat \<times> he_client" where
  "hc_channel self = (hc_next self, self\<lparr> hc_next := Suc (hc_next self) \<rparr>)"

text \<open>Inserting into the table drops the request that has the same identifier.\<close>

definition hc_insert :: "nat \<Rightarrow> client_req \<Rightarrow> he_client \<Rightarrow> he_client" where
  "hc_insert req_id state self =
     (let self = (case map_of (hc_reqs self) req_id of
          None \<Rightarrow> self
        | Some old \<Rightarrow> maybe_send (cr_respond_to old) (Inl (HeaderEx RequestCancelled)) self) in
      self\<lparr> hc_reqs := (req_id, state) # AList.delete req_id (hc_reqs self) \<rparr>)"

definition send_request ::
  "(peer_id list \<Rightarrow> peer_id list) \<Rightarrow> ('r \<Rightarrow> peer_id \<Rightarrow> header_request \<Rightarrow> nat \<times> 'r) \<Rightarrow> peer_tracker \<Rightarrow>
     he_client \<Rightarrow> 'r \<Rightarrow> header_request \<Rightarrow> nat \<Rightarrow> he_client \<times> 'r" where
  "send_request shuffle send tracker self sender request respond_to =
     (if u64_max < hr_amount request then (maybe_send respond_to (Inl (HeaderEx InvalidRequest)) self, sender)
      else case best_peer shuffle tracker of
        None \<Rightarrow> (maybe_send respond_to (Inl NoConnectedPeers) self, sender)
      | Some peer \<Rightarrow>
          (let (req_id, sender) = send sender peer request in
           (hc_insert req_id \<lparr> cr_request = request, cr_respond_to = respond_to \<rparr> self, sender)))"

fun head_requests ::
  "('r \<Rightarrow> peer_id \<Rightarrow> header_request \<Rightarrow> nat \<times> 'r) \<Rightarrow> he_client \<Rightarrow> 'r \<Rightarrow> header_request \<Rightarrow> peer_id list \<Rightarrow>
     (nat list \<times> he_client \<times> 'r)" where
  "head_requests send self sender request [] = ([], self, sender)" |
  "head_requests send self sender request (peer # peers) =
     (let (tx, self) = hc_channel self;
          (req_id, sender) = send sender peer request;
          self = hc_insert req_id \<lparr> cr_request = request, cr_respond_to = tx \<rparr> self;
          (rxs, self, sender) = head_requests send self sender request peers in
      (tx # rxs, self, sender))"

definition send_head_request ::
  "('r \<Rightarrow> peer_id \<Rightarrow> header_request \<Rightarrow> nat \<times> 'r) \<Rightarrow> peer_tracker \<Rightarrow>
     he_client \<Rightarrow> 'r \<Rightarrow> header_request \<Rightarrow> nat \<Rightarrow> he_client \<times> 'r" where
  "send_head_request send tracker self sender request respond_to =
     (let peers = trusted_n_peers tracker MAX_PEERS in
      if peers = [] then (maybe_send respond_to (Inl NoConnectedPeers) self, sender)
      else let (rxs, self, sender) = head_requests send self sender request peers in
        (self\<lparr> hc_tasks := hc_tasks self @ [HeadTask respond_to rxs] \<rparr>, sender))"

definition on_send_request ::
  "(peer_id list \<Rightarrow> peer_id list) \<Rightarrow> ('r \<Rightarrow> peer_id \<Rightarrow> header_request \<Rightarrow> nat \<times> 'r) \<Rightarrow> peer_tracker \<Rightarrow>
     he_client \<Rightarrow> 'r \<Rightarrow> header_request \<Rightarrow> nat \<Rightarrow> he_client \<times> 'r" where
  "on_send_request shuffle send tracker self sender request respond_to =
     (if hc_cancelled self then (maybe_send respond_to (Inl (HeaderEx RequestCancelled)) self, sender)
      else if \<not> is_valid request then (maybe_send respond_to (Inl (HeaderEx InvalidRequest)) self, sender)
      else if is_head_request request then send_head_request send tracker self sender request respond_to
      else send_request shuffle send tracker self sender request respond_to)"

text \<open>The choice of the head among the answers of the peers.\<close>

fun head_answer :: "answer \<Rightarrow> extended_header list \<times> bool \<Rightarrow> extended_header list \<times> bool" where
  "head_answer (Inr v) (resps, bad) = (if length v = 1 then (resps @ v, bad) else if 1 < length v then (resps, True) else (resps, bad))" |
  "head_answer (Inl e) (resps, bad) = (resps, bad \<or> e = HeaderEx InvalidResponse)"

definition num_of_peers :: "extended_header list \<Rightarrow> extended_header \<Rightarrow> nat" where
  "num_of_peers resps resp = length (filter (\<lambda>r. eh_hash r = eh_hash resp) resps)"

text \<open>Descending by height, then by the number of peers.\<close>

definition sort_heads :: "extended_header list \<Rightarrow> extended_header list" where
  "sort_heads resps = rev (sort_key (\<lambda>resp. (height resp, num_of_peers resps resp)) resps)"

definition choose_head :: "answer list \<Rightarrow> answer" where
  "choose_head results =
     (let (resps, invalid_response) = fold head_answer results ([], False) in
      if resps = [] then
        (if invalid_response then Inl (HeaderEx InvalidResponse) else Inl (HeaderEx HeaderNotFound))
      else let sorted_resps = sort_heads resps in
        case find (\<lambda>resp. MIN_HEAD_RESPONSES \<le> num_of_peers resps resp) sorted_resps of
          Some resp \<Rightarrow> Inr [resp]
        | None \<Rightarrow> Inr [hd sorted_resps])"

definition on_response_received :: "he_client \<Rightarrow> nat \<Rightarrow> header_response list \<Rightarrow> he_client" where
  "on_response_received self request_id responses =
     (case map_of (hc_reqs self) request_id of
        None \<Rightarrow> self
      | Some state \<Rightarrow>
          self\<lparr> hc_reqs := AList.delete request_id (hc_reqs self),
                hc_tasks := hc_tasks self @ [DecodeTask (cr_request state) responses (cr_respond_to state)] \<rparr>)"

definition hc_on_failure :: "he_client \<Rightarrow> nat \<Rightarrow> he_client" where
  "hc_on_failure self request_id =
     (case map_of (hc_reqs self) request_id of
        None \<Rightarrow> self
      | Some state \<Rightarrow>
          maybe_send (cr_respond_to state) (Inl (HeaderEx OutboundFailure))
            (self\<lparr> hc_reqs := AList.delete request_id (hc_reqs self) \<rparr>))"

fun task_chan :: "client_task \<Rightarrow> nat" where
  "task_chan (HeadTask c _) = c" |
  "task_chan (DecodeTask _ _ c) = c"

definition req_chans :: "he_client \<Rightarrow> nat list" where
  "req_chans self = map (\<lambda>(i, st). cr_respond_to st) (hc_reqs self)"

definition hc_on_stop :: "he_client \<Rightarrow> he_client" where
  "hc_on_stop self =
     (let cancel = fold (\<lambda>c. maybe_send c (Inl (HeaderEx RequestCancelled)));
          self = self\<lparr> hc_cancelled := True \<rparr>;
          self = (cancel (map task_chan (hc_tasks self)) self)\<lparr> hc_tasks := [] \<rparr> in
      (cancel (req_chans self) self)\<lparr> hc_reqs := [] \<rparr>)"

fun task_ready :: "he_client \<Rightarrow> client_task \<Rightarrow> bool" where
  "task_ready self (HeadTask _ rxs) = (\<forall>c \<in> set rxs. hc_chans self c \<noteq> None)" |
  "task_ready self (DecodeTask _ _ _) = True"

fun task_answer :: "tm_env \<Rightarrow> (bytes \<Rightarrow> extended_header option) \<Rightarrow> he_client \<Rightarrow> client_task \<Rightarrow> answer" where
  "task_answer env decode self (HeadTask _ rxs) = choose_head (map (\<lambda>c. the (hc_chans self c)) rxs)" |
  "task_answer env decode self (DecodeTask request responses _) =
     map_err HeaderEx (decode_and_verify_responses env decode request responses)"

definition hc_poll :: "tm_env \<Rightarrow> (bytes \<Rightarrow> extended_header option) \<Rightarrow> nat \<Rightarrow> he_client \<Rightarrow> he_client" where
  "hc_poll env decode i self =
     (if i < length (hc_tasks self) \<and> task_ready self (hc_tasks self ! i) then
        let task = hc_tasks self ! i in
        maybe_send (task_chan task) (task_answer env decode self task)
          (self\<lparr> hc_tasks := take i (hc_tasks self) @ drop (Suc i) (hc_tasks self) \<rparr>)
      else self)"

text \<open>The events that reach the client, in any order and with any state of the peer tracker.\<close>

inductive hc_step ::
  "tm_env \<Rightarrow> (bytes \<Rightarrow> extended_header option) \<Rightarrow> (peer_id list \<Rightarrow> peer_id list) \<Rightarrow>
     ('r \<Rightarrow> peer_id \<Rightarrow> header_request \<Rightarrow> nat \<times> 'r) \<Rightarrow> he_client \<times> 'r \<Rightarrow> he_client \<times> 'r \<Rightarrow> bool"
  for env decode shuffle send where
  request: "hc_channel w = (c, w1) \<Longrightarrow> on_send_request shuffle send tracker w1 sender request c = (w', sender') \<Longrightarrow>
    hc_step env decode shuffle send (w, sender) (w', sender')"
| response: "hc_step env decode shuffle send (w, sender) (on_response_received w request_id responses, sender)"
| failure: "hc_step env decode shuffle send (w, sender) (hc_on_failure w request_id, sender)"
| task: "hc_step env decode shuffle send (w, sender) (hc_poll env decode i w, sender)"
| stop: "hc_step env decode shuffle send (w, sender) (hc_on_stop w, sender)"

section \<open>Who holds a channel\<close>

text \<open>
  Every channel that was handed out is either answered or held exactly once: by a pending request, by a
  task, or, while a handler runs, by that handler (the set \<open>X\<close>).
\<close>

definition holders :: "he_client \<Rightarrow> nat multiset" where
  "holders w = mset (req_chans w) + mset (map task_chan (hc_tasks w))"

definition open_chans :: "he_client \<Rightarrow> nat set" where
  "open_chans w = {c. c < hc_next w \<and> hc_chans w c = None}"

definition hc_own :: "nat set \<Rightarrow> he_client \<Rightarrow> bool" where
  "hc_own X w \<longleftrightarrow> finite X \<and> distinct (map fst (hc_reqs w)) \<and> dom (hc_chans w) \<subseteq> {..<hc_next w} \<and>
     holders w + mset_set X = mset_set (open_chans w)"

lemma open_chans_finite [simp]: "finite (open_chans w)"
  by (simp add: open_chans_def)

lemma own_disjoint:
  assumes "hc_own X w"
  shows "X \<subseteq> open_chans w" "set_mset (holders w) \<union> X = open_chans w" "set_mset (holders w) \<inter> X = {}"
    "\<And>c. count (holders w) c \<le> 1"
proof -
  have eq: "holders w + mset_set X = mset_set (open_chans w)" and fin: "finite X" using assms by (auto simp: hc_own_def)
  have "set_mset (holders w) \<union> set_mset (mset_set X) = set_mset (mset_set (open_chans w))" unfolding eq [symmetric] by simp
  then show un: "set_mset (holders w) \<union> X = open_chans w" using fin by simp
  then show "X \<subseteq> open_chans w" by blast
  have c: "count (holders w) c + count (mset_set X) c \<le> 1" for c
    using arg_cong [OF eq, of "\<lambda>m. count m c"] by (cases "c \<in> open_chans w") simp_all
  show "count (holders w) c \<le> 1" for c using c [of c] by simp
  show "set_mset (holders w) \<inter> X = {}"
  proof (rule ccontr)
    assume "set_mset (holders w) \<inter> X \<noteq> {}"
    then obtain x where "x \<in># holders w" "x \<in> X" by blast
    then have "0 < count (holders w) x" "count (mset_set X) x = 1" using fin by (auto simp: count_greater_zero_iff)
    with c [of x] show False by simp
  qed
qed

lemma own_channel:
  assumes own: "hc_own X w" and ch: "hc_channel w = (c, w')"
  shows "hc_own (insert c X) w'" "c \<notin> X" "hc_chans w' = hc_chans w" "hc_reqs w' = hc_reqs w" "hc_tasks w' = hc_tasks w"
proof -
  have c: "c = hc_next w" and w': "w' = w\<lparr> hc_next := Suc c \<rparr>" using ch by (auto simp: hc_channel_def)
  show "hc_chans w' = hc_chans w" "hc_reqs w' = hc_reqs w" "hc_tasks w' = hc_tasks w" by (simp_all add: w')
  have "c \<notin> open_chans w" by (simp add: open_chans_def c)
  then show "c \<notin> X" using own_disjoint(1) [OF own] by blast
  have "hc_chans w c = None" using own by (auto simp: hc_own_def c)
  then have "open_chans w' = insert c (open_chans w)" by (auto simp: open_chans_def w' c less_Suc_eq)
  moreover have "holders w' = holders w" by (simp add: holders_def req_chans_def w')
  ultimately show "hc_own (insert c X) w'"
    using own \<open>c \<notin> X\<close> \<open>c \<notin> open_chans w\<close> by (auto simp: hc_own_def w' c less_Suc_eq)
qed

lemma own_send:
  assumes own: "hc_own X w" and c: "c \<in> X"
  shows "hc_own (X - {c}) (maybe_send c r w)"
proof -
  have fin: "finite X" using own by (simp add: hc_own_def)
  have "c \<in> open_chans w" using own_disjoint(1) [OF own] c by blast
  moreover have "open_chans (maybe_send c r w) = open_chans w - {c}" by (auto simp: open_chans_def maybe_send_def)
  moreover have "holders (maybe_send c r w) = holders w" by (simp add: holders_def maybe_send_def req_chans_def)
  moreover have "mset_set X = add_mset c (mset_set (X - {c}))" using fin c by (simp add: mset_set.remove)
  moreover have "mset_set (open_chans w) = add_mset c (mset_set (open_chans w - {c}))"
    using \<open>c \<in> open_chans w\<close> by (simp add: mset_set.remove)
  ultimately show ?thesis using own by (auto simp: hc_own_def maybe_send_def open_chans_def)
qed

text \<open>Moving a channel between the handler and a holder.\<close>

lemma own_move:
  assumes own: "hc_own X w" and c: "c \<in> X" and h: "holders w' = add_mset c (holders w)"
    and "hc_chans w' = hc_chans w" "hc_next w' = hc_next w" "distinct (map fst (hc_reqs w'))"
  shows "hc_own (X - {c}) w'"
proof -
  have fin: "finite X" using own by (simp add: hc_own_def)
  then have "mset_set X = add_mset c (mset_set (X - {c}))" using c by (simp add: mset_set.remove)
  then show ?thesis using assms by (auto simp: hc_own_def open_chans_def)
qed

lemma own_take:
  assumes own: "hc_own X w" and h: "holders w = add_mset c (holders w')"
    and "hc_chans w' = hc_chans w" "hc_next w' = hc_next w" "distinct (map fst (hc_reqs w'))"
  shows "hc_own (insert c X) w'"
proof -
  have "c \<notin> X" using own_disjoint(3) [OF own] h by auto
  then show ?thesis using assms by (auto simp: hc_own_def open_chans_def)
qed

lemma delete_req:
  assumes "distinct (map fst reqs)" "map_of reqs i = Some st"
  shows "mset (map (\<lambda>(i, st). cr_respond_to st) reqs) =
    add_mset (cr_respond_to st) (mset (map (\<lambda>(i, st). cr_respond_to st) (AList.delete i reqs)))"
  using assms
proof (induction reqs)
  case (Cons r reqs)
  show ?case
  proof (cases "fst r = i")
    case True
    then have "i \<notin> fst ` set reqs" using Cons.prems(1) by auto
    then have "AList.delete i (r # reqs) = reqs" using True by (simp add: AList.delete_eq filter_id_conv) force
    then show ?thesis using True Cons.prems(2) by (cases r) simp
  next
    case False
    then show ?thesis using Cons by (cases r) (simp add: AList.delete_eq)
  qed
qed simp

lemma delete_distinct: "distinct (map fst reqs) \<Longrightarrow> distinct (map fst (AList.delete i reqs))"
  by (rule distinct_delete)

lemma own_take_req:
  assumes own: "hc_own X w" and st: "map_of (hc_reqs w) i = Some st"
  shows "hc_own (insert (cr_respond_to st) X) (w\<lparr> hc_reqs := AList.delete i (hc_reqs w) \<rparr>)"
proof (rule own_take [OF own])
  have d: "distinct (map fst (hc_reqs w))" using own by (simp add: hc_own_def)
  show "holders w = add_mset (cr_respond_to st) (holders (w\<lparr> hc_reqs := AList.delete i (hc_reqs w) \<rparr>))"
    using delete_req [OF d st] by (simp add: holders_def req_chans_def)
  show "distinct (map fst (hc_reqs (w\<lparr> hc_reqs := AList.delete i (hc_reqs w) \<rparr>)))" using delete_distinct [OF d] by simp
qed simp_all

lemma own_insert:
  assumes own: "hc_own X w" and c: "cr_respond_to st \<in> X"
  shows "hc_own (X - {cr_respond_to st}) (hc_insert i st w)"
proof -
  let ?d = "\<lambda>w. w\<lparr> hc_reqs := AList.delete i (hc_reqs w) \<rparr>"
  have "\<exists>w1. hc_insert i st w = w1\<lparr> hc_reqs := (i, st) # hc_reqs w1 \<rparr> \<and> hc_own X w1 \<and> i \<notin> fst ` set (hc_reqs w1)"
  proof (cases "map_of (hc_reqs w) i")
    case None
    then have "i \<notin> fst ` set (hc_reqs w)" by (simp add: map_of_eq_None_iff)
    then have "?d w = w" by (simp add: delete_id)
    then show ?thesis using None own \<open>i \<notin> fst ` set (hc_reqs w)\<close> by (intro exI [of _ w]) (simp add: hc_insert_def delete_id)
  next
    case (Some old)
    let ?w1 = "maybe_send (cr_respond_to old) (Inl (HeaderEx RequestCancelled)) (?d w)"
    have "cr_respond_to old \<notin> X"
      using own_disjoint(3) [OF own] Some by (force simp: holders_def req_chans_def dest: map_of_SomeD)
    then have "hc_own X ?w1" using own_send [OF own_take_req [OF own Some], of "cr_respond_to old"] by simp
    moreover have "hc_insert i st w = ?w1\<lparr> hc_reqs := (i, st) # hc_reqs ?w1 \<rparr>"
      using Some by (simp add: hc_insert_def maybe_send_def)
    moreover have "i \<notin> fst ` set (hc_reqs ?w1)" by (auto simp: maybe_send_def AList.delete_eq)
    ultimately show ?thesis by blast
  qed
  then obtain w1 where w1: "hc_insert i st w = w1\<lparr> hc_reqs := (i, st) # hc_reqs w1 \<rparr>" "hc_own X w1" "i \<notin> fst ` set (hc_reqs w1)"
    by blast
  show ?thesis unfolding w1(1)
    by (rule own_move [OF w1(2) c]) (use w1 in \<open>auto simp: holders_def req_chans_def hc_own_def\<close>)
qed

lemma own_take_task:
  assumes own: "hc_own X w" and i: "i < length (hc_tasks w)"
  shows "hc_own (insert (task_chan (hc_tasks w ! i)) X) (w\<lparr> hc_tasks := take i (hc_tasks w) @ drop (Suc i) (hc_tasks w) \<rparr>)"
proof (rule own_take [OF own])
  have "mset (hc_tasks w) = add_mset (hc_tasks w ! i) (mset (take i (hc_tasks w) @ drop (Suc i) (hc_tasks w)))"
    by (subst id_take_nth_drop [OF i]) simp
  then show "holders w = add_mset (task_chan (hc_tasks w ! i)) (holders (w\<lparr> hc_tasks := take i (hc_tasks w) @ drop (Suc i) (hc_tasks w) \<rparr>))"
    by (simp add: holders_def req_chans_def flip: mset_map [of task_chan "hc_tasks w"])
qed (use own in \<open>auto simp: hc_own_def\<close>)

lemma own_push_task:
  assumes "hc_own X w" "task_chan t \<in> X"
  shows "hc_own (X - {task_chan t}) (w\<lparr> hc_tasks := hc_tasks w @ [t] \<rparr>)"
  by (rule own_move [OF assms]) (use assms in \<open>auto simp: holders_def req_chans_def hc_own_def\<close>)

section \<open>Nothing waits forever\<close>

text \<open>The channels a head task waits for are answered or held by something that will answer them.\<close>

definition settled :: "he_client \<Rightarrow> nat set" where
  "settled w = dom (hc_chans w) \<union> set (req_chans w) \<union> {c. \<exists>q rs. DecodeTask q rs c \<in> set (hc_tasks w)}"

definition rx_ok :: "he_client \<Rightarrow> bool" where
  "rx_ok w \<longleftrightarrow> (\<forall>c rxs. HeadTask c rxs \<in> set (hc_tasks w) \<longrightarrow> set rxs \<subseteq> settled w)"

lemma rx_ok_mono:
  assumes "rx_ok w" "settled w \<subseteq> settled w'" "set (hc_tasks w') \<subseteq> set (hc_tasks w) \<union> D"
    and "\<And>c rxs. HeadTask c rxs \<in> D \<Longrightarrow> set rxs \<subseteq> settled w'"
  shows "rx_ok w'"
  unfolding rx_ok_def
proof (intro allI impI)
  fix c rxs assume "HeadTask c rxs \<in> set (hc_tasks w')"
  then have "HeadTask c rxs \<in> set (hc_tasks w) \<or> HeadTask c rxs \<in> D" using assms(3) by blast
  then show "set rxs \<subseteq> settled w'" using assms(1,2,4) unfolding rx_ok_def by (meson order_trans)
qed

lemma settled_send: "settled (maybe_send c r w) = insert c (settled w)"
  by (auto simp: settled_def maybe_send_def req_chans_def)

lemma settled_insert:
  assumes "distinct (map fst (hc_reqs w))"
  shows "insert (cr_respond_to st) (settled w) \<subseteq> settled (hc_insert i st w)" "hc_tasks (hc_insert i st w) = hc_tasks w"
proof -
  show "hc_tasks (hc_insert i st w) = hc_tasks w" by (simp add: hc_insert_def Let_def maybe_send_def split: option.split)
  have "set (map (\<lambda>(i, st). cr_respond_to st) (hc_reqs w)) \<subseteq>
    (case map_of (hc_reqs w) i of None \<Rightarrow> {} | Some old \<Rightarrow> {cr_respond_to old}) \<union>
    set (map (\<lambda>(i, st). cr_respond_to st) (AList.delete i (hc_reqs w)))"
  proof (cases "map_of (hc_reqs w) i")
    case None
    then have "i \<notin> fst ` set (hc_reqs w)" by (simp add: map_of_eq_None_iff)
    then show ?thesis by (simp add: delete_id)
  next
    case (Some old)
    from arg_cong [OF delete_req [OF assms Some], of set_mset] show ?thesis using Some by simp
  qed
  then show "insert (cr_respond_to st) (settled w) \<subseteq> settled (hc_insert i st w)"
    by (auto simp: settled_def hc_insert_def Let_def maybe_send_def req_chans_def split: option.splits)
qed

lemma settled_take_req:
  assumes "distinct (map fst (hc_reqs w))" "map_of (hc_reqs w) i = Some st"
  shows "settled w \<subseteq> insert (cr_respond_to st) (settled (w\<lparr> hc_reqs := AList.delete i (hc_reqs w) \<rparr>))"
  using arg_cong [OF delete_req [OF assms], of set_mset] by (auto simp: settled_def req_chans_def)

definition hc_inv :: "he_client \<Rightarrow> bool" where
  "hc_inv w \<longleftrightarrow> hc_own {} w \<and> rx_ok w"

lemma head_requests_spec:
  assumes "hc_own X w" "head_requests send w sender request peers = (rxs, w', sender')"
  shows "hc_own X w' \<and> settled w \<union> set rxs \<subseteq> settled w' \<and> hc_tasks w' = hc_tasks w"
  using assms
proof (induction peers arbitrary: w sender rxs)
  case (Cons peer peers)
  obtain tx w1 where ch: "hc_channel w = (tx, w1)" by fastforce
  obtain i sender1 where s: "send sender peer request = (i, sender1)" by fastforce
  let ?st = "\<lparr> cr_request = request, cr_respond_to = tx \<rparr>"
  obtain rxs' where rec: "head_requests send (hc_insert i ?st w1) sender1 request peers = (rxs', w', sender')" and rxs: "rxs = tx # rxs'"
    using Cons.prems(2) ch s by (auto split: prod.splits)
  note oc = own_channel [OF Cons.prems(1) ch]
  have own: "hc_own X (hc_insert i ?st w1)" using own_insert [OF oc(1), of ?st i] oc(2) by simp
  have d: "distinct (map fst (hc_reqs w1))" using oc(1) by (simp add: hc_own_def)
  have "settled w = settled w1" using oc(3-5) by (simp add: settled_def req_chans_def)
  moreover note settled_insert [OF d, where st = ?st and i = i]
  ultimately show ?case using Cons.IH [OF own rec] rxs oc(5) by auto
qed simp

lemma on_send_request_inv:
  assumes inv: "hc_inv w" and ch: "hc_channel w = (c, w1)"
    and run: "on_send_request shuffle send tracker w1 sender request c = (w', sender')"
  shows "hc_inv w'"
proof -
  have own0: "hc_own {} w" and rx0: "rx_ok w" using inv by (auto simp: hc_inv_def)
  note oc = own_channel [OF own0 ch]
  have rx1: "rx_ok w1" using rx0 oc(3-5) by (simp add: rx_ok_def settled_def req_chans_def)
  have own1: "hc_own {c} w1" using oc(1) by simp
  have sent: "hc_inv (maybe_send c r w1)" for r
    using own_send [OF own1, of c r] rx_ok_mono [OF rx1, of "maybe_send c r w1" "{}"]
    by (simp add: hc_inv_def settled_send) (simp add: maybe_send_def subset_insertI)
  have ins: "hc_inv (hc_insert i \<lparr> cr_request = request, cr_respond_to = c \<rparr> w1)" for i
  proof -
    have d: "distinct (map fst (hc_reqs w1))" using own1 by (simp add: hc_own_def)
    show ?thesis
      using own_insert [OF own1, of "\<lparr> cr_request = request, cr_respond_to = c \<rparr>" i]
        settled_insert [OF d, where st = "\<lparr> cr_request = request, cr_respond_to = c \<rparr>" and i = i]
        rx_ok_mono [OF rx1, of "hc_insert i \<lparr> cr_request = request, cr_respond_to = c \<rparr> w1" "{}"]
      by (simp add: hc_inv_def)
  qed
  have hd: "hc_inv (w2\<lparr> hc_tasks := hc_tasks w2 @ [HeadTask c rxs] \<rparr>)"
    if "head_requests send w1 sender request peers = (rxs, w2, sender2)" for peers rxs w2 sender2
  proof -
    note h = head_requests_spec [OF own1 that]
    let ?w = "w2\<lparr> hc_tasks := hc_tasks w2 @ [HeadTask c rxs] \<rparr>"
    have "settled ?w = settled w2" by (auto simp: settled_def req_chans_def)
    then have "rx_ok ?w" using h by (intro rx_ok_mono [OF rx1, of ?w "{HeadTask c rxs}"]) auto
    then show ?thesis using own_push_task [of "{c}" w2 "HeadTask c rxs"] h by (simp add: hc_inv_def)
  qed
  show ?thesis using run sent ins hd
    by (fastforce simp: on_send_request_def send_request_def send_head_request_def Let_def split: if_splits option.splits prod.splits)
qed

lemma on_response_received_inv:
  assumes inv: "hc_inv w"
  shows "hc_inv (on_response_received w i rs)"
proof (cases "map_of (hc_reqs w) i")
  case (Some st)
  have own: "hc_own {} w" and rx: "rx_ok w" and d: "distinct (map fst (hc_reqs w))" using inv by (auto simp: hc_inv_def hc_own_def)
  let ?w1 = "w\<lparr> hc_reqs := AList.delete i (hc_reqs w) \<rparr>" and ?t = "DecodeTask (cr_request st) rs (cr_respond_to st)"
  let ?w2 = "?w1\<lparr> hc_tasks := hc_tasks ?w1 @ [?t] \<rparr>"
  have "on_response_received w i rs = ?w2" using Some by (simp add: on_response_received_def)
  moreover have "hc_own {} ?w2" using own_push_task [OF own_take_req [OF own Some], of ?t] by simp
  moreover have "settled ?w2 = insert (cr_respond_to st) (settled ?w1)" by (auto simp: settled_def req_chans_def)
  then have "settled w \<subseteq> settled ?w2" using settled_take_req [OF d Some] by simp
  then have "rx_ok ?w2" by (rule rx_ok_mono [OF rx, where D = "{?t}"]) auto
  ultimately show ?thesis by (simp add: hc_inv_def)
qed (use inv in \<open>simp add: on_response_received_def\<close>)

lemma hc_on_failure_inv:
  assumes inv: "hc_inv w"
  shows "hc_inv (hc_on_failure w i)"
proof (cases "map_of (hc_reqs w) i")
  case (Some st)
  have own: "hc_own {} w" and rx: "rx_ok w" and d: "distinct (map fst (hc_reqs w))" using inv by (auto simp: hc_inv_def hc_own_def)
  let ?w1 = "w\<lparr> hc_reqs := AList.delete i (hc_reqs w) \<rparr>"
  let ?w2 = "maybe_send (cr_respond_to st) (Inl (HeaderEx OutboundFailure)) ?w1"
  have "hc_on_failure w i = ?w2" using Some by (simp add: hc_on_failure_def)
  moreover have "hc_own {} ?w2" using own_send [OF own_take_req [OF own Some], of "cr_respond_to st"] by simp
  moreover have "rx_ok ?w2"
    by (rule rx_ok_mono [OF rx, where D = "{}"]) (use settled_take_req [OF d Some] in \<open>auto simp: settled_send\<close>, simp add: maybe_send_def)
  ultimately show ?thesis by (simp add: hc_inv_def)
qed (use inv in \<open>simp add: hc_on_failure_def\<close>)

lemma settled_take_task:
  assumes "i < length (hc_tasks w)"
  shows "settled w \<subseteq> insert (task_chan (hc_tasks w ! i)) (settled (w\<lparr> hc_tasks := take i (hc_tasks w) @ drop (Suc i) (hc_tasks w) \<rparr>))"
proof -
  have "set (hc_tasks w) = insert (hc_tasks w ! i) (set (take i (hc_tasks w) @ drop (Suc i) (hc_tasks w)))"
    by (subst id_take_nth_drop [OF assms]) auto
  then have m: "DecodeTask q rs c = hc_tasks w ! i \<or> DecodeTask q rs c \<in> set (take i (hc_tasks w) @ drop (Suc i) (hc_tasks w))"
    if "DecodeTask q rs c \<in> set (hc_tasks w)" for q rs c using that by blast
  show ?thesis
  proof
    fix c assume "c \<in> settled w"
    then show "c \<in> insert (task_chan (hc_tasks w ! i)) (settled (w\<lparr> hc_tasks := take i (hc_tasks w) @ drop (Suc i) (hc_tasks w) \<rparr>))"
      using m unfolding settled_def req_chans_def by (auto dest!: m) (metis task_chan.simps(2))
  qed
qed

lemma hc_poll_inv:
  assumes inv: "hc_inv w"
  shows "hc_inv (hc_poll env decode i w)"
proof (cases "i < length (hc_tasks w) \<and> task_ready w (hc_tasks w ! i)")
  case True
  have own: "hc_own {} w" and rx: "rx_ok w" using inv by (auto simp: hc_inv_def)
  let ?w1 = "w\<lparr> hc_tasks := take i (hc_tasks w) @ drop (Suc i) (hc_tasks w) \<rparr>" and ?c = "task_chan (hc_tasks w ! i)"
  let ?w2 = "maybe_send ?c (task_answer env decode w (hc_tasks w ! i)) ?w1"
  have "hc_poll env decode i w = ?w2" using True by (simp add: hc_poll_def Let_def)
  moreover have "hc_own {} ?w2" using own_send [OF own_take_task [OF own, of i], of ?c] True by simp
  moreover have "rx_ok ?w2"
  proof (rule rx_ok_mono [OF rx, where D = "{}"])
    show "settled w \<subseteq> settled ?w2" using settled_take_task True by (simp add: settled_send)
    show "set (hc_tasks ?w2) \<subseteq> set (hc_tasks w) \<union> {}"
      by (auto simp: maybe_send_def dest: in_set_takeD in_set_dropD)
  qed simp
  ultimately show ?thesis by (simp add: hc_inv_def)
qed (use inv in \<open>auto simp: hc_poll_def\<close>)

lemma fold_send:
  "fold (\<lambda>c. maybe_send c r) cs w = w\<lparr> hc_chans := (\<lambda>c. if c \<in> set cs then Some r else hc_chans w c) \<rparr>"
  by (induction cs arbitrary: w) (auto simp: maybe_send_def fun_eq_iff)

lemma hc_on_stop_eq:
  "hc_on_stop w = w\<lparr> hc_cancelled := True, hc_tasks := [], hc_reqs := [],
     hc_chans := (\<lambda>c. if c \<in># holders w then Some (Inl (HeaderEx RequestCancelled)) else hc_chans w c) \<rparr>"
  by (auto simp: hc_on_stop_def Let_def fold_send holders_def req_chans_def fun_eq_iff)

lemma hc_on_stop_inv:
  assumes "hc_inv w"
  shows "hc_inv (hc_on_stop w)"
proof -
  have own: "hc_own {} w" using assms by (simp add: hc_inv_def)
  have h: "set_mset (holders w) = open_chans w" using own_disjoint(2) [OF own] by simp
  have "open_chans (hc_on_stop w) = {}" using h by (auto simp: hc_on_stop_eq open_chans_def)
  moreover have "dom (hc_chans (hc_on_stop w)) \<subseteq> {..<hc_next w}"
  proof
    fix c assume "c \<in> dom (hc_chans (hc_on_stop w))"
    then have "c \<in> dom (hc_chans w) \<or> c \<in> open_chans w" using h by (auto simp: hc_on_stop_eq split: if_splits)
    then show "c \<in> {..<hc_next w}" using own unfolding hc_own_def open_chans_def by blast
  qed
  ultimately show ?thesis by (simp add: hc_inv_def hc_own_def holders_def req_chans_def hc_on_stop_eq rx_ok_def)
qed

lemma hc_step_inv:
  assumes "hc_step env decode shuffle send s s'" "hc_inv (fst s)"
  shows "hc_inv (fst s')"
  using assms
  by (cases rule: hc_step.cases)
    (auto simp: on_response_received_inv hc_on_failure_inv hc_poll_inv hc_on_stop_inv dest: on_send_request_inv)

lemma hc_reachable_inv: "(hc_step env decode shuffle send)\<^sup>*\<^sup>* (hc_new, sender) s \<Longrightarrow> hc_inv (fst s)"
proof (induction rule: rtranclp_induct)
  case base
  show ?case by (simp add: hc_inv_def hc_own_def rx_ok_def hc_new_def holders_def req_chans_def open_chans_def)
qed (rule hc_step_inv)

section \<open>Answers are final\<close>

lemma send_keeps: "c \<in> X \<Longrightarrow> hc_own X w \<Longrightarrow> hc_chans w \<subseteq>\<^sub>m hc_chans (maybe_send c r w)"
  using own_disjoint(1) [of X w] by (auto simp: map_le_def maybe_send_def open_chans_def)

lemma insert_keeps:
  assumes own: "hc_own X w"
  shows "hc_chans w \<subseteq>\<^sub>m hc_chans (hc_insert i st w)"
proof (cases "map_of (hc_reqs w) i")
  case (Some old)
  have "cr_respond_to old \<in># holders w" using Some by (force simp: holders_def req_chans_def dest: map_of_SomeD)
  then have "hc_chans w (cr_respond_to old) = None" using own_disjoint(2) [OF own] by (auto simp: open_chans_def)
  then show ?thesis using Some by (auto simp: hc_insert_def maybe_send_def map_le_def)
qed (simp add: hc_insert_def)

lemma head_requests_keeps:
  assumes "hc_own X w" "head_requests send w sender request peers = (rxs, w', sender')"
  shows "hc_chans w \<subseteq>\<^sub>m hc_chans w'"
  using assms
proof (induction peers arbitrary: w sender rxs)
  case (Cons peer peers)
  obtain tx w1 where ch: "hc_channel w = (tx, w1)" by fastforce
  obtain i sender1 where s: "send sender peer request = (i, sender1)" by fastforce
  let ?st = "\<lparr> cr_request = request, cr_respond_to = tx \<rparr>"
  obtain rxs' where rec: "head_requests send (hc_insert i ?st w1) sender1 request peers = (rxs', w', sender')"
    using Cons.prems(2) ch s by (auto split: prod.splits)
  note oc = own_channel [OF Cons.prems(1) ch]
  have own: "hc_own X (hc_insert i ?st w1)" using own_insert [OF oc(1), of ?st i] oc(2) by simp
  show ?case using map_le_trans [OF insert_keeps [OF oc(1), of i ?st] Cons.IH [OF own rec]] oc(3) by simp
qed simp

lemma holder_open: "hc_own X w \<Longrightarrow> c \<in># holders w \<Longrightarrow> hc_chans w c = None"
  using own_disjoint(2) [of X w] by (auto simp: open_chans_def)

lemma hc_step_keeps:
  assumes "hc_step env decode shuffle send s s'" "hc_inv (fst s)"
  shows "hc_chans (fst s) \<subseteq>\<^sub>m hc_chans (fst s')"
  using assms(1)
proof cases
  case (request w c w1 tracker sender request w' sender')
  have own: "hc_own {} w" using assms(2) request(1) by (simp add: hc_inv_def)
  note oc = own_channel [OF own request(3)]
  have own1: "hc_own {c} w1" using oc(1) by simp
  have "hc_chans w1 \<subseteq>\<^sub>m hc_chans w'"
    using request(4) send_keeps [OF _ own1, of c] insert_keeps [OF own1] head_requests_keeps [OF own1]
    by (auto simp: on_send_request_def send_request_def send_head_request_def Let_def split: if_splits option.splits prod.splits)
  then show ?thesis using request(1,2) oc(3) by simp
next
  case (response w sender i rs)
  then show ?thesis by (simp add: on_response_received_def split: option.split)
next
  case (failure w sender i)
  have own: "hc_own {} w" using assms(2) failure(1) by (simp add: hc_inv_def)
  show ?thesis
  proof (cases "map_of (hc_reqs w) i")
    case (Some st)
    then have "cr_respond_to st \<in># holders w" by (force simp: holders_def req_chans_def dest: map_of_SomeD)
    then show ?thesis using failure Some holder_open [OF own] by (auto simp: hc_on_failure_def maybe_send_def map_le_def)
  qed (use failure in \<open>simp add: hc_on_failure_def\<close>)
next
  case (task w sender i)
  have own: "hc_own {} w" using assms(2) task(1) by (simp add: hc_inv_def)
  have "i < length (hc_tasks w) \<Longrightarrow> task_chan (hc_tasks w ! i) \<in># holders w" by (simp add: holders_def)
  then show ?thesis using task holder_open [OF own] by (auto simp: hc_poll_def Let_def maybe_send_def map_le_def)
next
  case (stop w sender)
  have own: "hc_own {} w" using assms(2) stop(1) by (simp add: hc_inv_def)
  show ?thesis using stop holder_open [OF own] by (auto simp: hc_on_stop_eq map_le_def)
qed

section \<open>The head\<close>

definition heads :: "answer list \<Rightarrow> extended_header list" where
  "heads results = concat (map (\<lambda>a. case a of Inr [x] \<Rightarrow> [x] | _ \<Rightarrow> []) results)"

lemma fold_head_answer: "fst (fold head_answer results (resps, bad)) = resps @ heads results"
proof (induction results arbitrary: resps bad)
  case (Cons a results)
  show ?case
  proof (cases a)
    case (Inl e)
    then show ?thesis using Cons by (simp add: heads_def)
  next
    case (Inr v)
    then show ?thesis using Cons by (cases v rule: remdups_adj.cases) (simp_all add: heads_def)
  qed
qed (simp add: heads_def)

lemma find_first:
  assumes "sorted_wrt R xs" "find P xs = Some r"
  shows "r \<in> set xs \<and> P r \<and> (\<forall>x \<in> set xs. P x \<longrightarrow> x = r \<or> R r x)"
  using assms by (induction xs) (auto split: if_splits)

lemma sort_heads_sorted:
  "sorted_wrt (\<lambda>a b. height b \<le> height a) (sort_heads resps)" "set (sort_heads resps) = set resps" "sort_heads resps = [] \<longleftrightarrow> resps = []"
proof -
  let ?k = "\<lambda>resp. (height resp, num_of_peers resps resp)"
  have "sorted (map ?k (sort_key ?k resps))" by (rule sorted_sort_key)
  then have "sorted_wrt (\<lambda>a b. ?k a \<le> ?k b) (sort_key ?k resps)" by (simp add: sorted_wrt_map)
  then have "sorted_wrt (\<lambda>a b. height a \<le> height b) (sort_key ?k resps)" by (rule sorted_wrt_mono_rel [rotated]) auto
  then show "sorted_wrt (\<lambda>a b. height b \<le> height a) (sort_heads resps)" by (simp add: sort_heads_def sorted_wrt_rev)
  show s: "set (sort_heads resps) = set resps" by (simp add: sort_heads_def)
  show "sort_heads resps = [] \<longleftrightarrow> resps = []" using s by (metis set_empty)
qed

section \<open>Correctness of the client\<close>

text \<open>
  (C14) No request is lost and none is answered twice. In every state that the client reaches, each channel
  that was handed out is either answered or held by exactly one pending request or task; an answer never
  changes; once no request is pending, some task can finish as long as there are tasks; and stopping the
  client answers every channel.
\<close>

theorem client_answers_once:
  assumes "(hc_step env decode shuffle send)\<^sup>*\<^sup>* (hc_new, sender) (w, sender')"
  shows "(\<forall>c < hc_next w. if hc_chans w c = None then count (holders w) c = 1 else count (holders w) c = 0) \<and>
    (\<forall>w' sender''. hc_step env decode shuffle send (w, sender') (w', sender'') \<longrightarrow> hc_chans w \<subseteq>\<^sub>m hc_chans w') \<and>
    (hc_reqs w = [] \<longrightarrow> hc_tasks w \<noteq> [] \<longrightarrow> (\<exists>t \<in> set (hc_tasks w). task_ready w t)) \<and>
    (\<forall>c < hc_next w. hc_chans (hc_on_stop w) c \<noteq> None)"
proof (intro conjI allI impI)
  have inv: "hc_inv w" using hc_reachable_inv [OF assms] by simp
  then have own: "hc_own {} w" and rx: "rx_ok w" by (auto simp: hc_inv_def)
  have eq: "holders w = mset_set (open_chans w)" using own by (simp add: hc_own_def)
  show "if hc_chans w c = None then count (holders w) c = 1 else count (holders w) c = 0" if "c < hc_next w" for c
    using that unfolding eq by (simp add: open_chans_def)
  show "hc_chans w \<subseteq>\<^sub>m hc_chans w'" if "hc_step env decode shuffle send (w, sender') (w', sender'')" for w' sender''
    using hc_step_keeps [OF that] inv by simp
  show "hc_chans (hc_on_stop w) c \<noteq> None" if "c < hc_next w" for c
    using that unfolding hc_on_stop_eq eq by (simp add: open_chans_def)
  assume reqs: "hc_reqs w = []" and "hc_tasks w \<noteq> []"
  show "\<exists>t \<in> set (hc_tasks w). task_ready w t"
  proof (cases "\<exists>q rs c. DecodeTask q rs c \<in> set (hc_tasks w)")
    case True
    then show ?thesis by force
  next
    case False
    then have "settled w = dom (hc_chans w)" using reqs by (simp add: settled_def req_chans_def)
    obtain t where t: "t \<in> set (hc_tasks w)" using \<open>hc_tasks w \<noteq> []\<close> by (meson list.set_sel(1))
    then obtain c rxs where "t = HeadTask c rxs" using False by (metis client_task.exhaust)
    then have "task_ready w t" using rx t \<open>settled w = dom (hc_chans w)\<close> unfolding rx_ok_def by auto
    then show ?thesis using t by blast
  qed
qed

text \<open>A sender that numbers the requests.\<close>

definition sample_send :: "nat \<Rightarrow> peer_id \<Rightarrow> header_request \<Rightarrow> nat \<times> nat" where
  "sample_send n peer request = (n, Suc n)"

lemma sample_peer: "best_peer (\<lambda>xs. xs) (set_connected pt_new [1] 7 None) = Some [1]"
  by (simp add: best_peer_def set_connected_def Let_def pt_put_def pt_get_def pt_new_def discovered_peer_def
      pi_is_connected_def MAX_PEER_SAMPLE_def)

theorem client_answers_once_witness:
  "\<exists>w n. (hc_step sample_env (dec_header sample_codec) (\<lambda>xs. xs) sample_send)\<^sup>*\<^sup>* (hc_new, 0) (w, n) \<and>
     hc_next w = 1 \<and> hc_chans w 0 = None \<and> count (holders w) 0 = 1 \<and> hc_chans (hc_on_stop w) 0 \<noteq> None"
proof -
  let ?step = "hc_step sample_env (dec_header sample_codec) (\<lambda>xs. xs) sample_send"
  let ?w1 = "hc_new\<lparr> hc_next := 1 \<rparr>"
  let ?w = "?w1\<lparr> hc_reqs := [(0, \<lparr> cr_request = with_origin 7 1, cr_respond_to = 0 \<rparr>)] \<rparr>"
  have "on_send_request (\<lambda>xs. xs) sample_send (set_connected pt_new [1] 7 None) ?w1 0 (with_origin 7 1) 0 = (?w, 1)"
    by (simp add: on_send_request_def send_request_def sample_peer sample_send_def hc_insert_def with_origin_def is_valid_def
        is_head_request_def hc_new_def u64_max_def)
  then have "?step (hc_new, 0) (?w, 1)" by (intro request [of _ 0 ?w1]) (simp_all add: hc_channel_def hc_new_def)
  then have r: "?step\<^sup>*\<^sup>* (hc_new, 0) (?w, 1)" by (rule r_into_rtranclp)
  have n: "hc_next ?w = 1" "hc_chans ?w 0 = None" by (simp_all add: hc_new_def)
  show ?thesis
  proof (intro exI [of _ ?w] exI [of _ 1] conjI)
    show "count (holders ?w) 0 = 1" "hc_chans (hc_on_stop ?w) 0 \<noteq> None"
      using client_answers_once [OF r] n by (metis zero_less_one)+
  qed (use r n in simp_all)
qed



end
