(* ===== verification/Header_Session.thy ===== *)
theory Header_Session
  imports Header_Ex "HOL-Library.Multiset"
begin

text \<open>
  The session that fetches a range of headers in batches from several peers at once, from
  \<^verbatim>\<open>node/src/p2p/header_session.rs\<close>. A task is the request it waits for. The local variable of \<open>run\<close> that
  collects the responses is a field of the state. The answer of the network to a request is an argument,
  and so is the order in which the answers arrive.
\<close>

section \<open>Definitions\<close>

definition MIN_AMOUNT_PER_REQ :: nat where "MIN_AMOUNT_PER_REQ = 8"
definition MAX_AMOUNT_PER_REQ :: nat where "MAX_AMOUNT_PER_REQ = 64"
definition MAX_CONCURRENT_REQS :: nat where "MAX_CONCURRENT_REQS = 8"

record header_session =
  ss_to_fetch :: "block_range option"
  ss_tasks :: "(nat \<times> nat) list"
  ss_batch_size :: nat
  ss_responses :: "extended_header list list"

definition session_new :: "block_range \<Rightarrow> header_session" where
  "session_new range' =
     \<lparr> ss_to_fetch = Some range', ss_tasks = [],
       ss_batch_size = max MIN_AMOUNT_PER_REQ (min MAX_AMOUNT_PER_REQ (div_ceil (range_len range') MAX_CONCURRENT_REQS)),
       ss_responses = [] \<rparr>"

text \<open>The batch that is taken, and what is left to fetch.\<close>

definition take_next_batch :: "block_range option \<Rightarrow> nat \<Rightarrow> block_range option \<times> block_range option" where
  "take_next_batch range_to_fetch limit =
     (case checked_sub limit 1 of
        None \<Rightarrow> (None, range_to_fetch)
      | Some end_offset \<Rightarrow>
        (case range_to_fetch of
           None \<Rightarrow> (None, None)
         | Some to_fetch \<Rightarrow>
             if range_len to_fetch \<le> limit then (Some to_fetch, None)
             else (Some (snd to_fetch - end_offset, snd to_fetch), Some (fst to_fetch, snd to_fetch - limit))))"

definition session_send_request :: "nat \<Rightarrow> nat \<Rightarrow> header_session \<Rightarrow> header_session" where
  "session_send_request h amount self = self\<lparr> ss_tasks := ss_tasks self @ [(h, amount)] \<rparr>"

definition send_next_request :: "header_session \<Rightarrow> header_session" where
  "send_next_request self =
     (let (batch, left_over) = take_next_batch (ss_to_fetch self) (ss_batch_size self);
          self = self\<lparr> ss_to_fetch := left_over \<rparr> in
      case batch of
        None \<Rightarrow> self
      | Some r \<Rightarrow> session_send_request (fst r) (range_len r) self)"

text \<open>The body of the loop, for the answer of the \<open>i\<close>-th task.\<close>

definition on_task_result ::
  "nat \<Rightarrow> (extended_header list, p2p_error) result \<Rightarrow> header_session \<Rightarrow> (unit, p2p_error) result \<times> header_session" where
  "on_task_result i res self =
     (let (h, requested_amount) = ss_tasks self ! i;
          self = self\<lparr> ss_tasks := take i (ss_tasks self) @ drop (Suc i) (ss_tasks self) \<rparr> in
      case res of
        Inr headers \<Rightarrow>
          (let headers_len = length headers;
               self = (if 0 < headers_len then self\<lparr> ss_responses := ss_responses self @ [headers] \<rparr> else self) in
           if headers_len < requested_amount then
             (Inr (), session_send_request (h + headers_len) (requested_amount - headers_len) self)
           else (Inr (), send_next_request self))
      | Inl (HeaderEx _) \<Rightarrow> (Inr (), session_send_request h requested_amount self)
      | Inl e \<Rightarrow> (Inl e, self))"

definition session_finish :: "header_session \<Rightarrow> extended_header list" where
  "session_finish self = concat (sort_key (\<lambda>span. height (hd span)) (ss_responses self))"

definition session_start :: "header_session \<Rightarrow> header_session" where
  "session_start self = (send_next_request ^^ MAX_CONCURRENT_REQS) self"

text \<open>
  The loop of \<open>run\<close>. In its \<open>n\<close>-th round the task that finishes is the one \<open>pick n\<close> points at, with the
  answer \<open>peer n\<close>. A network that never answers well keeps it running.
\<close>

partial_function (option) session_loop ::
  "(nat \<Rightarrow> nat) \<Rightarrow> (nat \<Rightarrow> nat \<times> nat \<Rightarrow> (extended_header list, p2p_error) result) \<Rightarrow> nat \<Rightarrow> header_session \<Rightarrow>
     (extended_header list, p2p_error) result option" where
  "session_loop pick peer n self =
     (if ss_tasks self = [] then Some (Inr (session_finish self))
      else let i = pick n mod length (ss_tasks self) in
        case on_task_result i (peer n (ss_tasks self ! i)) self of
          (Inl e, self) \<Rightarrow> Some (Inl e)
        | (Inr _, self) \<Rightarrow> session_loop pick peer (Suc n) self)"

definition session_run ::
  "(nat \<Rightarrow> nat) \<Rightarrow> (nat \<Rightarrow> nat \<times> nat \<Rightarrow> (extended_header list, p2p_error) result) \<Rightarrow> block_range \<Rightarrow>
     (extended_header list, p2p_error) result option" where
  "session_run pick peer r = session_loop pick peer 0 (session_start (session_new r))"

section \<open>Every height is fetched once\<close>

definition task_heights :: "nat \<times> nat \<Rightarrow> nat list" where
  "task_heights t = [fst t..<fst t + snd t]"

definition left_heights :: "block_range option \<Rightarrow> nat list" where
  "left_heights to_fetch = (case to_fetch of None \<Rightarrow> [] | Some r \<Rightarrow> [fst r..<Suc (snd r)])"

definition all_heights :: "header_session \<Rightarrow> nat multiset" where
  "all_heights s = mset (left_heights (ss_to_fetch s)) + mset (concat (map task_heights (ss_tasks s))) +
     mset (map height (concat (ss_responses s)))"

definition ss_inv :: "block_range \<Rightarrow> header_session \<Rightarrow> bool" where
  "ss_inv r s \<longleftrightarrow> all_heights s = mset [fst r..<Suc (snd r)] \<and> 0 < ss_batch_size s \<and>
     (\<forall>t \<in> set (ss_tasks s). 0 < snd t) \<and>
     (\<forall>q. ss_to_fetch s = Some q \<longrightarrow> valid_range q \<and> snd q \<le> u64_max) \<and>
     (\<forall>span \<in> set (ss_responses s). span \<noteq> [] \<and> (\<exists>a. map height span = [a..<a + length span]))"

lemma upt_split: "a \<le> b \<Longrightarrow> b \<le> c \<Longrightarrow> [a..<c] = [a..<b] @ [b..<c]"
  by (metis le_add_diff_inverse upt_add_eq_append)

lemma take_next_batch_spec:
  assumes "0 < limit" "valid_range q" "snd q \<le> u64_max"
  obtains b where "take_next_batch (Some q) limit = (Some b, None)" "b = q"
  | b q' where "take_next_batch (Some q) limit = (Some b, Some q')" "valid_range b" "valid_range q'"
      "fst q' = fst q" "Suc (snd q') = fst b" "snd b = snd q" "range_len b = limit"
proof (cases "range_len q \<le> limit")
  case True
  then show ?thesis using that(1) assms(1) by (simp add: take_next_batch_def checked_sub_def)
next
  case False
  have len: "range_len q = snd q - fst q + 1" by (rule range_len_eq [OF assms(2,3)])
  have b: "valid_range (snd q - (limit - 1), snd q)" "valid_range (fst q, snd q - limit)"
    using False assms(1,2) len by (auto simp: valid_range_def)
  show ?thesis
  proof (rule that(2))
    show "take_next_batch (Some q) limit = (Some (snd q - (limit - 1), snd q), Some (fst q, snd q - limit))"
      using False assms(1) by (simp add: take_next_batch_def checked_sub_def)
    show "range_len (snd q - (limit - 1), snd q) = limit"
      using range_len_eq [OF b(1)] assms False len by (auto simp: valid_range_def)
  qed (use b False assms len in \<open>auto simp: valid_range_def\<close>)
qed

lemma send_next_request_inv:
  assumes inv: "ss_inv r s"
  shows "ss_inv r (send_next_request s) \<and> ss_responses (send_next_request s) = ss_responses s \<and>
    length (ss_tasks (send_next_request s)) = length (ss_tasks s) + of_bool (ss_to_fetch s \<noteq> None) \<and>
    (ss_tasks (send_next_request s) = [] \<longrightarrow> ss_to_fetch (send_next_request s) = None)"
proof (cases "ss_to_fetch s")
  case None
  have "0 < ss_batch_size s" using inv by (simp add: ss_inv_def)
  with None have "send_next_request s = s" by (simp add: send_next_request_def take_next_batch_def checked_sub_def)
  then show ?thesis using inv None by simp
next
  case (Some q)
  have q: "0 < ss_batch_size s" "valid_range q" "snd q \<le> u64_max" using inv Some by (auto simp: ss_inv_def)
  show ?thesis
  proof (rule take_next_batch_spec [OF q])
    fix b assume b: "take_next_batch (Some q) (ss_batch_size s) = (Some b, None)" "b = q"
    have "range_len q = Suc (snd q) - fst q" using range_len_eq [OF q(2,3)] q(2) by (auto simp: valid_range_def)
    then show ?thesis using inv b Some q
      by (auto simp: send_next_request_def session_send_request_def ss_inv_def all_heights_def left_heights_def task_heights_def
          valid_range_def ac_simps simp del: upt_Suc)
  next
    fix b q' assume b: "take_next_batch (Some q) (ss_batch_size s) = (Some b, Some q')" "valid_range b" "valid_range q'"
      "fst q' = fst q" "Suc (snd q') = fst b" "snd b = snd q" "range_len b = ss_batch_size s"
    have l: "range_len b = Suc (snd b) - fst b" using range_len_eq [OF b(2)] b(2,6) q(3) by (auto simp: valid_range_def)
    have "[fst q..<Suc (snd q)] = [fst q..<Suc (snd q')] @ [fst b..<Suc (snd b)]"
      using b(2-6) upt_split [of "fst q" "Suc (snd q')" "Suc (snd q)"] by (auto simp: valid_range_def simp del: upt_Suc)
    moreover have "send_next_request s = s\<lparr> ss_to_fetch := Some q', ss_tasks := ss_tasks s @ [(fst b, range_len b)] \<rparr>"
      using b(1) Some by (simp add: send_next_request_def session_send_request_def)
    moreover have "fst b + range_len b = Suc (snd b)" using l b(2) by (auto simp: valid_range_def)
    moreover have "snd q' \<le> u64_max" using b(2,5,6) q(3) by (auto simp: valid_range_def)
    ultimately show ?thesis using inv b Some q(1)
      by (auto simp: ss_inv_def all_heights_def left_heights_def task_heights_def ac_simps simp del: upt_Suc)
  qed
qed

text \<open>What the client of the exchange guarantees of an answer, and that it is not fatal.\<close>

definition valid_answer :: "nat \<times> nat \<Rightarrow> (extended_header list, p2p_error) result \<Rightarrow> bool" where
  "valid_answer t res \<longleftrightarrow> (case res of
     Inr hs \<Rightarrow> length hs \<le> snd t \<and> map height hs = [fst t..<fst t + length hs]
   | Inl e \<Rightarrow> \<exists>x. e = HeaderEx x)"

lemma remove_task:
  assumes "i < length ts"
  shows "mset (concat (map task_heights ts)) =
    mset (task_heights (ts ! i)) + mset (concat (map task_heights (take i ts @ drop (Suc i) ts)))"
  by (subst id_take_nth_drop [OF assms]) simp

lemma remove_task_inv:
  assumes "ss_inv r s" "i < length (ss_tasks s)" "ss_tasks s ! i = (h, a)"
  defines "s1 \<equiv> s\<lparr> ss_tasks := take i (ss_tasks s) @ drop (Suc i) (ss_tasks s) \<rparr>"
  shows "all_heights s1 + mset [h..<h + a] = mset [fst r..<Suc (snd r)]" "0 < a" "\<forall>t \<in> set (ss_tasks s1). 0 < snd t"
    "length (ss_tasks s1) = length (ss_tasks s) - 1"
proof -
  show "all_heights s1 + mset [h..<h + a] = mset [fst r..<Suc (snd r)]"
    using assms remove_task [OF assms(2)] by (simp add: ss_inv_def all_heights_def s1_def task_heights_def ac_simps del: upt_Suc)
  show "0 < a" using assms(1-3) nth_mem [OF assms(2)] by (auto simp: ss_inv_def)
  show "\<forall>t \<in> set (ss_tasks s1). 0 < snd t"
    using assms(1) by (auto simp: ss_inv_def s1_def dest: in_set_takeD in_set_dropD)
  show "length (ss_tasks s1) = length (ss_tasks s) - 1" using assms(2) by (simp add: s1_def)
qed

lemma all_heights_send: "all_heights (session_send_request h a s) = all_heights s + mset [h..<h + a]"
  by (simp add: session_send_request_def all_heights_def task_heights_def ac_simps)

lemma on_task_result_inv:
  assumes inv: "ss_inv r s" and i: "i < length (ss_tasks s)" and t: "ss_tasks s ! i = (h, a)" and v: "valid_answer (h, a) res"
  shows "\<exists>s'. on_task_result i res s = (Inr (), s') \<and> ss_inv r s' \<and> length (ss_tasks s') \<le> length (ss_tasks s) \<and>
    (ss_tasks s' = [] \<longrightarrow> ss_to_fetch s' = None) \<and>
    length (concat (ss_responses s')) = length (concat (ss_responses s)) + (case res of Inr hs \<Rightarrow> length hs | Inl _ \<Rightarrow> 0)"
proof -
  let ?s1 = "s\<lparr> ss_tasks := take i (ss_tasks s) @ drop (Suc i) (ss_tasks s) \<rparr>"
  note rt = remove_task_inv [OF inv i t]
  have old: "0 < ss_batch_size s" "\<forall>q. ss_to_fetch s = Some q \<longrightarrow> valid_range q \<and> snd q \<le> u64_max"
    "\<forall>span \<in> set (ss_responses s). span \<noteq> [] \<and> (\<exists>a. map height span = [a..<a + length span])"
    using inv by (auto simp: ss_inv_def)
  show ?thesis
  proof (cases res)
    case (Inl e)
    then obtain x where "e = HeaderEx x" using v by (auto simp: valid_answer_def)
    then have "on_task_result i res s = (Inr (), session_send_request h a ?s1)" using Inl t by (simp add: on_task_result_def)
    moreover have "ss_inv r (session_send_request h a ?s1)"
      unfolding ss_inv_def all_heights_send rt(1) using rt(2,3) old by (auto simp: session_send_request_def)
    ultimately show ?thesis using Inl i by (simp add: session_send_request_def)
  next
    case (Inr hs)
    have len: "length hs \<le> a" and hts: "map height hs = [h..<h + length hs]" using v Inr by (auto simp: valid_answer_def)
    define s2 where "s2 = (if 0 < length hs then ?s1\<lparr> ss_responses := ss_responses ?s1 @ [hs] \<rparr> else ?s1)"
    have "mset [h..<h + length hs] = image_mset height (mset hs)" unfolding hts [symmetric] by simp
    then have s2: "all_heights s2 = all_heights ?s1 + mset [h..<h + length hs]" "ss_tasks s2 = ss_tasks ?s1"
      "length (concat (ss_responses s2)) = length (concat (ss_responses s)) + length hs" "ss_batch_size s2 = ss_batch_size s"
      "ss_to_fetch s2 = ss_to_fetch s"
      by (cases hs; simp add: s2_def all_heights_def ac_simps)+
    have resp: "\<forall>span \<in> set (ss_responses s2). span \<noteq> [] \<and> (\<exists>a. map height span = [a..<a + length span])"
      using old(3) hts by (auto simp: s2_def)
    have up: "[h..<h + a] = [h..<h + length hs] @ [h + length hs..<h + a]" using len by (intro upt_split) simp_all
    show ?thesis
    proof (cases "length hs < a")
      case True
      define s3 where "s3 = session_send_request (h + length hs) (a - length hs) s2"
      have "on_task_result i res s = (Inr (), s3)" using Inr t True by (simp add: on_task_result_def Let_def s2_def s3_def)
      moreover have "all_heights s3 = mset [fst r..<Suc (snd r)]"
      proof -
        have "all_heights s3 = all_heights ?s1 + mset [h..<h + length hs] + mset [h + length hs..<h + a]"
          unfolding s3_def all_heights_send s2(1) using True by simp
        also have "\<dots> = all_heights ?s1 + mset [h..<h + a]" unfolding up by (simp only: mset_append add.assoc)
        finally show ?thesis using rt(1) by simp
      qed
      moreover have s3: "ss_tasks s3 = ss_tasks ?s1 @ [(h + length hs, a - length hs)]" "ss_responses s3 = ss_responses s2"
        "ss_batch_size s3 = ss_batch_size s" "ss_to_fetch s3 = ss_to_fetch s"
        using s2 by (simp_all add: s3_def session_send_request_def)
      ultimately have "ss_inv r s3" unfolding ss_inv_def s3 using rt(3) old(1,2) resp True by simp
      moreover have "length (ss_tasks s3) = length (ss_tasks s)" unfolding s3(1) using i by simp
      ultimately show ?thesis using \<open>on_task_result i res s = (Inr (), s3)\<close> s3 s2(3) Inr by simp
    next
      case False
      then have la: "length hs = a" using len by simp
      have run: "on_task_result i res s = (Inr (), send_next_request s2)"
        using Inr t False by (simp add: on_task_result_def Let_def s2_def)
      have "ss_inv r s2" unfolding ss_inv_def s2 using rt(1,3) la old(1,2) resp by simp
      from send_next_request_inv [OF this] show ?thesis using run Inr i s2(2,3) rt(4) by simp
    qed
  qed
qed

section \<open>Putting the spans together\<close>

lemma sorted_concat_spans:
  assumes "\<forall>xs \<in> set xss. \<exists>a n. 0 < n \<and> xs = [a..<a + n]" "sorted (map hd xss)" "distinct (concat xss)"
  shows "sorted (concat xss)"
  using assms
proof (induction xss)
  case (Cons xs xss)
  from Cons.prems(1) obtain a n where xs: "0 < n" "xs = [a..<a + n]" by auto
  have "x \<le> y" if x: "x \<in> set xs" and y: "y \<in> set (concat xss)" for x y
  proof -
    obtain ys where ys: "ys \<in> set xss" "y \<in> set ys" using y by auto
    have "\<exists>b m. 0 < m \<and> ys = [b..<b + m]" using bspec [OF Cons.prems(1), of ys] ys(1) by simp
    then obtain b m where b: "0 < m" "ys = [b..<b + m]" by (elim exE conjE) (rule that)
    have "a \<le> b" using Cons.prems(2) ys(1) xs b by auto
    moreover have "b \<notin> set xs"
    proof -
      have "b \<in> set (concat xss)" using ys(1) b by (simp add: bexI [of _ ys])
      then show ?thesis using Cons.prems(3) by (metis IntI concat.simps(2) distinct_append empty_iff)
    qed
    ultimately have "a + n \<le> b" using xs by (simp add: not_less)
    then show ?thesis using x ys(2) xs b by auto
  qed
  moreover have "sorted (concat xss)" using Cons by auto
  ultimately show ?case using xs(2) by (auto simp: sorted_append simp del: upt_Suc)
qed simp

lemma finish_heights:
  assumes inv: "ss_inv r s" and fin: "ss_tasks s = []" "ss_to_fetch s = None"
  shows "map height (session_finish s) = [fst r..<Suc (snd r)]"
proof -
  let ?spans = "sort_key (\<lambda>span. height (hd span)) (ss_responses s)"
  have spans: "\<forall>span \<in> set ?spans. span \<noteq> [] \<and> (\<exists>a. map height span = [a..<a + length span])" using inv by (simp add: ss_inv_def)
  have m: "mset (concat (map (map height) ?spans)) = mset [fst r..<Suc (snd r)]"
  proof -
    have "mset (concat ?spans) = mset (concat (ss_responses s))" by (simp add: mset_concat flip: sum_mset_sum_list)
    then show ?thesis using inv fin
      by (simp add: ss_inv_def all_heights_def left_heights_def flip: map_concat del: upt_Suc)
  qed
  have "sorted (concat (map (map height) ?spans))"
  proof (rule sorted_concat_spans)
    show "\<forall>xs \<in> set (map (map height) ?spans). \<exists>a n. 0 < n \<and> xs = [a..<a + n]" using spans by fastforce
    have "map hd (map (map height) ?spans) = map (\<lambda>span. height (hd span)) ?spans" using spans by (simp add: hd_map)
    then show "sorted (map hd (map (map height) ?spans))" by (simp only: sorted_sort_key)
    show "distinct (concat (map (map height) ?spans))" using m mset_eq_imp_distinct_iff by (metis distinct_upt)
  qed
  moreover have "sorted [fst r..<Suc (snd r)]" by (rule sorted_upt)
  ultimately have "concat (map (map height) ?spans) = [fst r..<Suc (snd r)]" using m by (metis properties_for_sort)
  then show ?thesis by (simp add: session_finish_def map_concat)
qed

section \<open>The loop\<close>

definition session_ok :: "block_range \<Rightarrow> header_session \<Rightarrow> bool" where
  "session_ok r s \<longleftrightarrow> ss_inv r s \<and> (ss_tasks s = [] \<longrightarrow> ss_to_fetch s = None)"

lemma session_start_ok:
  assumes "valid_range r" "snd r \<le> u64_max"
  shows "session_ok r (session_start (session_new r))" "length (ss_tasks (session_start (session_new r))) \<le> MAX_CONCURRENT_REQS"
proof -
  have new: "ss_inv r (session_new r)" using assms
    by (simp add: ss_inv_def session_new_def all_heights_def left_heights_def MIN_AMOUNT_PER_REQ_def)
  have n: "ss_inv r ((send_next_request ^^ n) (session_new r)) \<and> length (ss_tasks ((send_next_request ^^ n) (session_new r))) \<le> n" for n
  proof (induction n)
    case (Suc n)
    then show ?case using send_next_request_inv [of r "(send_next_request ^^ n) (session_new r)"] by auto
  qed (use new in \<open>simp add: session_new_def\<close>)
  show "length (ss_tasks (session_start (session_new r))) \<le> MAX_CONCURRENT_REQS"
    using n [of MAX_CONCURRENT_REQS] by (simp add: session_start_def)
  have "(send_next_request ^^ MAX_CONCURRENT_REQS) (session_new r) = send_next_request ((send_next_request ^^ 7) (session_new r))"
    using funpow.simps(2) [of 7 send_next_request] by (simp add: MAX_CONCURRENT_REQS_def)
  then show "session_ok r (session_start (session_new r))"
    using n [of 7] send_next_request_inv [of r "(send_next_request ^^ 7) (session_new r)"]
    unfolding session_ok_def session_start_def by simp
qed

text \<open>What the session may rely on for the requests it makes, which all lie in its range.\<close>

definition task_within :: "block_range \<Rightarrow> nat \<times> nat \<Rightarrow> bool" where
  "task_within r t \<longleftrightarrow> 0 < snd t \<and> fst r \<le> fst t \<and> fst t + snd t \<le> Suc (snd r)"

lemma ss_inv_task_within:
  assumes "ss_inv r s" "t \<in> set (ss_tasks s)"
  shows "task_within r t"
proof -
  obtain h a where t: "t = (h, a)" by fastforce
  have a: "0 < a" using assms t by (auto simp: ss_inv_def)
  have "set (task_heights t) \<subseteq> set_mset (all_heights s)" using assms(2) by (auto simp: all_heights_def)
  then have "set [h..<h + a] \<subseteq> set [fst r..<Suc (snd r)]"
    using assms(1) t unfolding ss_inv_def task_heights_def by (metis fst_conv set_mset_mset snd_conv)
  moreover have "h \<in> set [h..<h + a]" "h + a - 1 \<in> set [h..<h + a]" using a by auto
  ultimately have "h \<in> set [fst r..<Suc (snd r)]" "h + a - 1 \<in> set [fst r..<Suc (snd r)]" by blast+
  then show ?thesis using a t unfolding set_upt by (auto simp: task_within_def)
qed

lemma on_task_result_responses:
  "set (ss_responses (snd (on_task_result i res s))) \<subseteq> set (ss_responses s) \<union> {hs. res = Inr hs}"
  by (auto simp: on_task_result_def Let_def session_send_request_def send_next_request_def
      split: prod.splits sum.splits if_splits option.splits p2p_error.splits)

lemma session_step_ok:
  assumes ok: "session_ok r s" and ne: "ss_tasks s \<noteq> []" and v: "\<forall>t. task_within r t \<longrightarrow> valid_answer t (peer t)"
  obtains t s' where "t = ss_tasks s ! (k mod length (ss_tasks s))" "task_within r t"
    "on_task_result (k mod length (ss_tasks s)) (peer t) s = (Inr (), s')" "session_ok r s'"
    "length (concat (ss_responses s')) = length (concat (ss_responses s)) + (case peer t of Inr hs \<Rightarrow> length hs | Inl _ \<Rightarrow> 0)"
    "set (ss_responses s') \<subseteq> set (ss_responses s) \<union> {hs. peer t = Inr hs}"
proof -
  let ?i = "k mod length (ss_tasks s)"
  obtain h a where t: "ss_tasks s ! ?i = (h, a)" by fastforce
  have i: "?i < length (ss_tasks s)" using ne by simp
  have inv: "ss_inv r s" using ok by (simp add: session_ok_def)
  have w: "task_within r (h, a)" using ss_inv_task_within [OF inv nth_mem [OF i]] t by simp
  from on_task_result_inv [OF inv i t v [rule_format, OF w]] obtain s' where
    s': "on_task_result ?i (peer (h, a)) s = (Inr (), s')" "ss_inv r s'" "ss_tasks s' = [] \<longrightarrow> ss_to_fetch s' = None"
      "length (concat (ss_responses s')) = length (concat (ss_responses s)) + (case peer (h, a) of Inr hs \<Rightarrow> length hs | Inl _ \<Rightarrow> 0)"
    by (elim exE conjE) (rule that)
  have "set (ss_responses s') \<subseteq> set (ss_responses s) \<union> {hs. peer (h, a) = Inr hs}"
    using on_task_result_responses [of ?i "peer (h, a)" s] s'(1) by simp
  then show ?thesis using that [of "(h, a)" s'] t w s' by (simp add: session_ok_def)
qed

lemma responses_bounded: "ss_inv r s \<Longrightarrow> length (concat (ss_responses s)) \<le> Suc (snd r) - fst r"
proof -
  assume "ss_inv r s"
  then have "size (all_heights s) = Suc (snd r) - fst r" by (simp add: ss_inv_def del: upt_Suc)
  then show ?thesis by (simp add: all_heights_def del: length_concat)
qed

text \<open>Once every answer brings at least one header, the loop ends.\<close>

lemma session_loop_ends:
  assumes v: "\<forall>n t. task_within r t \<longrightarrow> valid_answer t (peer n t)"
    and good: "\<forall>n \<ge> N. \<forall>t. task_within r t \<longrightarrow> (\<exists>hs. peer n t = Inr hs \<and> hs \<noteq> [])"
    and ok: "session_ok r s"
  shows "session_loop pick peer n s \<noteq> None"
  using ok
proof (induction "(N - n) + (Suc (snd r) - fst r - length (concat (ss_responses s)))" arbitrary: n s rule: less_induct)
  case less
  show ?case
  proof (cases "ss_tasks s = []")
    case True
    then show ?thesis by (simp add: session_loop.simps [of pick peer n s])
  next
    case False
    obtain t s' where s': "t = ss_tasks s ! (pick n mod length (ss_tasks s))" "task_within r t"
      "on_task_result (pick n mod length (ss_tasks s)) (peer n t) s = (Inr (), s')" "session_ok r s'"
      "length (concat (ss_responses s')) = length (concat (ss_responses s)) + (case peer n t of Inr hs \<Rightarrow> length hs | Inl _ \<Rightarrow> 0)"
      by (rule session_step_ok [where r = r and s = s and peer = "peer n" and k = "pick n"]) (use less.prems False v in auto)
    have b: "length (concat (ss_responses s')) \<le> Suc (snd r) - fst r"
      using s'(4) responses_bounded by (simp add: session_ok_def)
    have "(N - Suc n) + (Suc (snd r) - fst r - length (concat (ss_responses s'))) <
        (N - n) + (Suc (snd r) - fst r - length (concat (ss_responses s)))"
    proof (cases "n < N")
      case True
      then show ?thesis using s'(5) by linarith
    next
      case False
      then obtain hs where "peer n t = Inr hs" "hs \<noteq> []" using good s'(2) by (metis not_less)
      then have "length (concat (ss_responses s)) < length (concat (ss_responses s'))" using s'(5) by simp
      then show ?thesis using b by linarith
    qed
    from less.hyps [OF this s'(4)] show ?thesis
      using False s'(1,3) by (simp add: session_loop.simps [of pick peer n s] Let_def)
  qed
qed

lemma session_loop_sound:
  assumes "session_loop pick peer n s = Some res" "\<forall>n t. task_within r t \<longrightarrow> valid_answer t (peer n t)"
    "\<forall>n t hs. peer n t = Inr hs \<longrightarrow> (\<forall>h \<in> set hs. P h)" "session_ok r s" "\<forall>hs \<in> set (ss_responses s). \<forall>h \<in> set hs. P h"
  shows "\<exists>out. res = Inr out \<and> map height out = [fst r..<Suc (snd r)] \<and> (\<forall>h \<in> set out. P h)"
proof -
  let ?Q = "\<lambda>s. session_ok r s \<and> (\<forall>hs \<in> set (ss_responses s). \<forall>h \<in> set hs. P h)"
  let ?R = "\<lambda>res. \<exists>out. res = Inr out \<and> map height out = [fst r..<Suc (snd r)] \<and> (\<forall>h \<in> set out. P h)"
  have "pick' = pick \<longrightarrow> peer' = peer \<longrightarrow> ?Q s' \<longrightarrow> ?R res'" if "session_loop pick' peer' n' s' = Some res'" for pick' peer' n' s' res'
  proof (rule session_loop.raw_induct [where P = "\<lambda>pick' peer' n' s' res'. pick' = pick \<longrightarrow> peer' = peer \<longrightarrow> ?Q s' \<longrightarrow> ?R res'", OF _ that],
      intro impI)
    fix loop pick' peer' n' s' res'
    assume IH: "\<And>a b n s res. loop a b n s = Some res \<Longrightarrow> a = pick \<longrightarrow> b = peer \<longrightarrow> ?Q s \<longrightarrow> ?R res"
      and run: "(if ss_tasks s' = [] then Some (Inr (session_finish s'))
        else let i = pick' n' mod length (ss_tasks s') in
          case on_task_result i (peer' n' (ss_tasks s' ! i)) s' of
            (Inl e, self) \<Rightarrow> Some (Inl e) | (Inr _, self) \<Rightarrow> loop pick' peer' (Suc n') self) = Some res'"
      and eq: "pick' = pick" "peer' = peer" and Q: "?Q s'"
    show "?R res'"
    proof (cases "ss_tasks s' = []")
      case True
      then have "map height (session_finish s') = [fst r..<Suc (snd r)]"
        using Q by (intro finish_heights) (auto simp: session_ok_def)
      moreover have "\<forall>h \<in> set (session_finish s'). P h" using Q by (auto simp: session_finish_def)
      moreover have "res' = Inr (session_finish s')" using True run by simp
      ultimately show ?thesis by (intro exI [of _ "session_finish s'"] conjI)
    next
      case False
      obtain t s2 where s2: "t = ss_tasks s' ! (pick n' mod length (ss_tasks s'))"
        "on_task_result (pick n' mod length (ss_tasks s')) (peer n' t) s' = (Inr (), s2)" "session_ok r s2"
        "set (ss_responses s2) \<subseteq> set (ss_responses s') \<union> {hs. peer n' t = Inr hs}"
        by (rule session_step_ok [OF conjunct1 [OF Q] False spec [OF assms(2), of n'], of "pick n'"])
      have "loop pick peer (Suc n') s2 = Some res'" using run False s2(1,2) eq by (simp add: Let_def)
      moreover have "\<forall>hs \<in> set (ss_responses s2). \<forall>h \<in> set hs. P h" using s2(4) assms(3) Q by blast
      ultimately show ?thesis using IH s2(3) by blast
    qed
  qed
  with assms(1,4,5) show ?thesis by blast
qed

section \<open>The session over the client\<close>

text \<open>
  The answer of the client of the exchange to a request by height: what the peer sent passes the check of
  the responses, and a failed request is an error of the exchange.
\<close>

definition session_answer ::
  "tm_env \<Rightarrow> (bytes \<Rightarrow> extended_header option) \<Rightarrow> (nat \<Rightarrow> nat \<times> nat \<Rightarrow> header_response list option) \<Rightarrow>
     nat \<Rightarrow> nat \<times> nat \<Rightarrow> (extended_header list, p2p_error) result" where
  "session_answer env decode wire n t =
     (case wire n t of
        None \<Rightarrow> Inl (HeaderEx OutboundFailure)
      | Some rs \<Rightarrow> map_err HeaderEx (decode_and_verify_responses env decode (with_origin (fst t) (snd t)) rs))"

lemma session_answer_valid:
  assumes "valid_range r" "snd r < u64_max" "task_within r t"
  shows "valid_answer t (session_answer env decode wire n t)"
proof (cases "session_answer env decode wire n t")
  case (Inl e)
  then show ?thesis by (auto simp: valid_answer_def session_answer_def map_err_def split: option.splits sum.splits)
next
  case (Inr hs)
  then obtain rs where "decode_and_verify_responses env decode (with_origin (fst t) (snd t)) rs = Inr hs"
    by (auto simp: session_answer_def map_err_def split: option.splits sum.splits)
  from check_response_sound [OF this] show ?thesis
    using Inr assms by (auto simp: valid_answer_def with_origin_def task_within_def valid_range_def)
qed

lemma session_answer_validates:
  "session_answer env decode wire n t = Inr hs \<Longrightarrow> \<forall>h \<in> set hs. eh_validate env h = Inr ()"
  using check_response_sound
  by (fastforce simp: session_answer_def map_err_def split: option.splits sum.splits)

lemma session_answer_nonempty: "session_answer env decode wire n t = Inr hs \<Longrightarrow> hs \<noteq> []"
  using check_response_sound
  by (fastforce simp: session_answer_def map_err_def split: option.splits sum.splits)

lemma session_start_responses: "ss_responses (session_start (session_new r)) = []"
proof -
  have send: "ss_responses (send_next_request s) = ss_responses s" for s
    by (simp add: send_next_request_def session_send_request_def Let_def split: prod.split option.split)
  have "ss_responses ((send_next_request ^^ n) (session_new r)) = []" for n
    by (induction n) (simp_all add: session_new_def send)
  then show ?thesis by (simp add: session_start_def)
qed


definition sample_wire :: "nat \<Rightarrow> nat \<times> nat \<Rightarrow> header_response list option" where
  "sample_wire n t =
     (if n = 0 then None else Some [to_header_response (enc_header sample_codec) (sample_header (fst t))])"

lemma sample_answer:
  assumes "0 < n" "task_within (1, 2) t"
  shows "session_answer sample_env (dec_header sample_codec) sample_wire n t = Inr [sample_header (fst t)]"
proof -
  have "fst t = 1 \<or> fst t = 2" "0 < snd t" using assms(2) by (auto simp: task_within_def)
  then show ?thesis using assms(1) sample_validates_1_2
    by (auto simp: session_answer_def sample_wire_def decode_and_verify_responses_def with_origin_def
        to_validated_extended_header_def to_header_response_def decode_and_validate_def sample_codec_def
        wrapping_add_def wrap64_def Let_def res_simps)
qed


end
