(* ===== verification/Share.thy ===== *)
theory Share
  imports Nmt Shwap_Ids
begin

text \<open>
  Shares, the chunks of 512 bytes a block consists of, and their info byte, from
  \<^verbatim>\<open>types/src/share.rs\<close> and \<^verbatim>\<open>types/src/share/info_byte.rs\<close>. The hash of the leaves of a namespaced Merkle
  tree, which the content identifier of a share contains, is an argument: it is code of the crate \<open>nmt_rs\<close>.
\<close>

section \<open>The info byte\<close>

unbundle bit_operations_syntax

datatype info_byte = InfoByte (as_u8: byte)

definition ib_new :: "byte \<Rightarrow> bool \<Rightarrow> (info_byte, types_error) result" where
  "ib_new version sequence_start =
     (if MAX_SHARE_VERSION < version then Inl (MaxShareVersionExceeded version)
      else let prefix = push_bit 1 version; start = (if sequence_start then 1 else 0) in
        Inr (InfoByte (prefix + start)))"

definition ib_version :: "info_byte \<Rightarrow> byte" where
  "ib_version self = drop_bit 1 (as_u8 self)"

definition is_sequence_start :: "info_byte \<Rightarrow> bool" where
  "is_sequence_start self \<longleftrightarrow> as_u8 self mod 2 = 1"

definition ib_from_raw :: "byte \<Rightarrow> (info_byte, types_error) result" where
  "ib_from_raw byte =
     (let version = drop_bit 1 byte in
      if MAX_SHARE_VERSION < version then Inl (MaxShareVersionExceeded version) else Inr (InfoByte byte))"

definition ib_from_raw_unchecked :: "byte \<Rightarrow> info_byte" where
  "ib_from_raw_unchecked byte = InfoByte byte"

section \<open>Shares\<close>

definition SHARE_SEQUENCE_LENGTH_OFFSET :: nat where
  "SHARE_SEQUENCE_LENGTH_OFFSET = NS_SIZE + SHARE_INFO_BYTES"

record share =
  sh_data :: bytes
  sh_parity :: bool

definition share_from_raw :: "bytes \<Rightarrow> (share, types_error) result" where
  "share_from_raw data =
     (if length data \<noteq> SHARE_SIZE then Inl (InvalidShareSize (length data))
      else try_bind (from_raw (take NS_SIZE data)) (\<lambda>_.
        try_bind (ib_from_raw (data ! NS_SIZE)) (\<lambda>_.
        Inr \<lparr> sh_data = data, sh_parity = False \<rparr>)))"

definition share_parity :: "bytes \<Rightarrow> (share, types_error) result" where
  "share_parity data =
     (if length data \<noteq> SHARE_SIZE then Inl (InvalidShareSize (length data))
      else Inr \<lparr> sh_data = data, sh_parity = True \<rparr>)"

definition is_parity :: "share \<Rightarrow> bool" where
  "is_parity self = sh_parity self"

definition share_namespace :: "share \<Rightarrow> namespace" where
  "share_namespace self = (if \<not> sh_parity self then Namespace (take NS_SIZE (sh_data self)) else PARITY_SHARE)"

definition share_info_byte :: "share \<Rightarrow> info_byte option" where
  "share_info_byte self = (if \<not> is_parity self then Some (ib_from_raw_unchecked (sh_data self ! NS_SIZE)) else None)"

definition sequence_length :: "share \<Rightarrow> nat option" where
  "sequence_length self =
     Option.bind (share_info_byte self) (\<lambda>info_byte.
       if is_sequence_start info_byte then
         Some (get_be (take SEQUENCE_LEN_BYTES (drop SHARE_SEQUENCE_LENGTH_OFFSET (sh_data self))))
       else None)"

definition payload :: "share \<Rightarrow> bytes option" where
  "payload self =
     Option.bind (share_info_byte self) (\<lambda>info_byte.
       let start = (if is_sequence_start info_byte then SHARE_SEQUENCE_LENGTH_OFFSET + SEQUENCE_LEN_BYTES
                    else SHARE_SEQUENCE_LENGTH_OFFSET) in
       Some (drop start (sh_data self)))"

definition share_to_vec :: "share \<Rightarrow> bytes" where
  "share_to_vec self = sh_data self"

definition NMT_MULTIHASH_CODE :: nat where "NMT_MULTIHASH_CODE = 0x7700"
definition NMT_CODEC :: nat where "NMT_CODEC = 0x7701"

definition share_cid :: "(bytes \<Rightarrow> bytes) \<Rightarrow> share \<Rightarrow> cid_generic" where
  "share_cid hash_leaf self =
     \<lparr> cid_codec = NMT_CODEC, cid_mh_code = NMT_MULTIHASH_CODE, cid_digest = hash_leaf (share_to_vec self) \<rparr>"

section \<open>Well-formed shares\<close>

definition share_ok :: "share \<Rightarrow> bool" where
  "share_ok s \<longleftrightarrow> length (sh_data s) = SHARE_SIZE \<and> (\<not> sh_parity s \<longrightarrow> valid_namespace (take NS_SIZE (sh_data s)))"

lemma drop_bit_byte: "drop_bit 1 b \<le> (127 :: byte)"
proof -
  have "unat (drop_bit 1 b) = unat b div 2" by (simp add: drop_bit_eq_div unat_div)
  moreover have "unat b div 2 \<le> 127" using unat_byte_less [of b] by linarith
  ultimately have "unat (drop_bit 1 b) \<le> unat (127 :: byte)" by simp
  then show ?thesis by (simp only: word_le_nat_alt)
qed

text \<open>The highest version is the highest that fits, so the check of a raw info byte never fails.\<close>

lemma ib_from_raw_total: "ib_from_raw b = Inr (InfoByte b)"
  using drop_bit_byte [of b] by (simp add: ib_from_raw_def MAX_SHARE_VERSION_def not_less Let_def)

lemma ib_new_fields:
  assumes "v \<le> MAX_SHARE_VERSION"
  obtains ib where "ib_new v st = Inr ib" "ib_version ib = v" "is_sequence_start ib = st"
proof -
  let ?b = "push_bit 1 v + (if st then 1 else 0)"
  have v: "unat v \<le> 127" using assms by (simp add: MAX_SHARE_VERSION_def word_le_nat_alt)
  have "unat (push_bit 1 v) = 2 * unat v" using v by (simp add: push_bit_eq_mult unat_word_ariths)
  then have b: "unat ?b = 2 * unat v + (if st then 1 else 0)" using v by (simp add: unat_word_ariths)
  have "unat (drop_bit 1 ?b) = unat ?b div 2" by (simp only: drop_bit_eq_div unat_div) simp
  then have "unat (drop_bit 1 ?b) = unat v" unfolding b by simp
  then have "drop_bit 1 ?b = v" by (simp only: word_unat_eq_iff)
  moreover have "unat (?b mod 2) = unat ?b mod 2" by (simp only: unat_mod) simp
  then have "unat (?b mod 2) = (if st then 1 else 0)" unfolding b by simp
  then have "?b mod 2 = 1 \<longleftrightarrow> st" by (metis unat_1 unat_eq_zero word_unat_eq_iff zero_neq_one)
  ultimately show ?thesis using that [of "InfoByte ?b"] assms
    by (simp add: ib_new_def Let_def ib_version_def is_sequence_start_def not_less)
qed

lemma share_from_raw_iff:
  "share_from_raw data = Inr s \<longleftrightarrow>
     length data = SHARE_SIZE \<and> valid_namespace (take NS_SIZE data) \<and> s = \<lparr> sh_data = data, sh_parity = False \<rparr>"
  by (auto simp: share_from_raw_def ib_from_raw_total try_bind_Inr_iff from_raw_Inr_iff)

lemma share_ok_raw: "share_from_raw data = Inr s \<Longrightarrow> share_ok s"
  by (simp add: share_from_raw_iff share_ok_def)

lemma parity_reserved: "is_reserved PARITY_SHARE"
  by code_simp

lemma share_from_namespace:
  assumes "share_ok s" "\<not> sh_parity s"
  shows "from_raw (as_bytes (share_namespace s)) = Inr (share_namespace s)"
  using assms by (simp add: share_ok_def share_namespace_def from_raw_Inr_iff)

end
