(* ===== verification/Eds.thy ===== *)
theory Eds
  imports Share Dah
begin

text \<open>
  The extended data square, from \<^verbatim>\<open>types/src/eds.rs\<close>, and the header that is computed from it
  (\<open>from_eds\<close> of \<^verbatim>\<open>types/src/data_availability_header.rs\<close>). The namespaced Merkle tree of the crate \<open>nmt_rs\<close>
  is the record \<open>nmt_lib\<close> of its operations, the Reed-Solomon code of \<open>leopard_codec\<close> the argument \<open>encode\<close>.
\<close>

section \<open>Definitions\<close>

definition axis_try_from :: "int \<Rightarrow> (axis_type, types_error) result" where
  "axis_try_from value =
     (if value = 0 then Inr Row else if value = 1 then Inr Col else Inl (InvalidAxis value))"

record eds =
  eds_data_square :: "share list"
  eds_codec :: string
  eds_square_width :: nat

definition is_ods_square :: "nat \<Rightarrow> nat \<Rightarrow> nat \<Rightarrow> bool" where
  "is_ods_square row column square_width = (let ods_width = square_width div 2 in row < ods_width \<and> column < ods_width)"

definition flatten_index :: "nat \<Rightarrow> nat \<Rightarrow> nat \<Rightarrow> nat" where
  "flatten_index row col square_width = row * square_width + col"

text \<open>\<open>f64::sqrt(n as f64) as usize\<close>, exact for the numbers of shares that are accepted.\<close>

definition floor_sqrt :: "nat \<Rightarrow> nat" where
  "floor_sqrt n = last (filter (\<lambda>s. s * s \<le> n) [0..<Suc n])"

definition count_ones :: "nat \<Rightarrow> nat" where
  "count_ones n = length (filter (bit n) [0..<16])"

text \<open>The closure of \<open>new\<close> that makes a share and compares its namespace with the one before it.\<close>

definition check_share ::
  "bytes list \<Rightarrow> nat \<Rightarrow> nat \<Rightarrow> nat \<Rightarrow> namespace option \<Rightarrow> (share, types_error) result" where
  "check_share shares square_width row col prev_ns =
     (let idx = flatten_index row col square_width in
      try_bind (if is_ods_square row col square_width then share_from_raw (shares ! idx) else share_parity (shares ! idx)) (\<lambda>share.
      if (case prev_ns of None \<Rightarrow> False | Some prev \<Rightarrow> share_namespace share < prev) then
        Inl (Validation (ValidationOther ''Shares of {axis} {axis_idx} are not sorted by their namespace''))
      else Inr share))"

text \<open>The inner loop over one axis, with the namespace of the previous share.\<close>

fun check_axis ::
  "(nat \<Rightarrow> namespace option \<Rightarrow> (share, types_error) result) \<Rightarrow> namespace option \<Rightarrow> nat list \<Rightarrow> (share list, types_error) result" where
  "check_axis check prev_ns [] = Inr []" |
  "check_axis check prev_ns (i # is) =
     try_bind (check i prev_ns) (\<lambda>share.
     try_bind (check_axis check (Some (share_namespace share)) is) (\<lambda>shares. Inr (share # shares)))"

definition eds_new :: "bytes list \<Rightarrow> string \<Rightarrow> app_version \<Rightarrow> (eds, types_error) result" where
  "eds_new shares codec app_version =
     (let min_shares = MIN_EXTENDED_SQUARE_WIDTH * MIN_EXTENDED_SQUARE_WIDTH;
          max_shares = max_extended_square_width app_version * max_extended_square_width app_version in
      if length shares < min_shares then Inl (Validation (ValidationOther ''shares len ({}) < MIN_SHARES ({})''))
      else if max_shares < length shares then Inl (Validation (ValidationOther ''shares len ({}) > max shares ({})''))
      else let square_width = floor_sqrt (length shares) in
      if square_width * square_width \<noteq> length shares then Inl EdsInvalidDimentions
      else if u16_max < square_width then Inl EdsInvalidDimentions
      else if count_ones square_width \<noteq> 1 then Inl EdsInvalidDimentions
      else
        try_bind (try_map (\<lambda>col. check_axis (\<lambda>row. check_share shares square_width row col) None [0..<square_width]) [0..<square_width]) (\<lambda>_.
        try_bind (try_map (\<lambda>row. check_axis (check_share shares square_width row) None [0..<square_width]) [0..<square_width]) (\<lambda>rows.
        Inr \<lparr> eds_data_square = concat rows, eds_codec = codec, eds_square_width = square_width \<rparr>)))"

record raw_eds =
  re_data_square :: "bytes list"
  re_codec :: string

definition eds_from_raw :: "raw_eds \<Rightarrow> app_version \<Rightarrow> (eds, types_error) result" where
  "eds_from_raw raw app_version = eds_new (re_data_square raw) (re_codec raw) app_version"

definition eds_into_raw :: "eds \<Rightarrow> raw_eds" where
  "eds_into_raw eds = \<lparr> re_data_square = map share_to_vec (eds_data_square eds), re_codec = eds_codec eds \<rparr>"

subsection \<open>Encoding\<close>

text \<open>\<open>chunks_mut\<close>: a row is encoded in place.\<close>

definition encode_row ::
  "(bytes list \<Rightarrow> nat \<Rightarrow> (bytes list, unit) result) \<Rightarrow> nat \<Rightarrow> nat \<Rightarrow> bytes list \<Rightarrow> nat \<Rightarrow> (bytes list, types_error) result" where
  "encode_row encode eds_width ods_width shares row =
     try_bind (map_err (\<lambda>_. LeopardCodec) (encode (take eds_width (drop (row * eds_width) shares)) ods_width)) (\<lambda>encoded.
     Inr (take (row * eds_width) shares @ encoded @ drop ((row + 1) * eds_width) shares))"

text \<open>A column: every \<open>eds_width\<close>-th share, written back to where it came from.\<close>

definition encode_col ::
  "(bytes list \<Rightarrow> nat \<Rightarrow> (bytes list, unit) result) \<Rightarrow> nat \<Rightarrow> nat \<Rightarrow> bytes list \<Rightarrow> nat \<Rightarrow> (bytes list, types_error) result" where
  "encode_col encode eds_width ods_width shares col =
     try_bind (map_err (\<lambda>_. LeopardCodec)
       (encode (map (\<lambda>row. shares ! flatten_index row col eds_width) [0..<eds_width]) ods_width)) (\<lambda>encoded.
     Inr (map (\<lambda>i. if i mod eds_width = col then encoded ! (i div eds_width) else shares ! i) [0..<length shares]))"

fun encode_all :: "(bytes list \<Rightarrow> nat \<Rightarrow> (bytes list, types_error) result) \<Rightarrow> nat list \<Rightarrow> bytes list \<Rightarrow> (bytes list, types_error) result" where
  "encode_all step [] shares = Inr shares" |
  "encode_all step (i # is) shares = try_bind (step shares i) (encode_all step is)"

definition from_ods ::
  "(bytes list \<Rightarrow> nat \<Rightarrow> (bytes list, unit) result) \<Rightarrow> bytes list \<Rightarrow> app_version \<Rightarrow> (eds, types_error) result" where
  "from_ods encode ods_shares app_version =
     (let ods_width = floor_sqrt (length ods_shares) in
      if ods_width * ods_width \<noteq> length ods_shares then Inl EdsInvalidDimentions
      else let eds_width = ods_width * 2; zero = replicate SHARE_SIZE (0 :: byte);
          eds_shares = concat (map (\<lambda>row. take ods_width (drop (row * ods_width) ods_shares) @ replicate ods_width zero) [0..<ods_width]);
          eds_shares = eds_shares @ replicate (eds_width * eds_width - length eds_shares) zero in
        if eds_width = 0 then Inl (Panic ''chunk size must be non-zero'') else
        try_bind (encode_all (encode_row encode eds_width ods_width) [0..<ods_width] eds_shares) (\<lambda>eds_shares.
        try_bind (encode_all (encode_col encode eds_width ods_width) [0..<ods_width] eds_shares) (\<lambda>eds_shares.
        try_bind (encode_all (encode_row encode eds_width ods_width) [ods_width..<eds_width] eds_shares) (\<lambda>eds_shares.
        eds_new eds_shares ''Leopard'' app_version))))"

definition eds_empty :: "(bytes list \<Rightarrow> nat \<Rightarrow> (bytes list, unit) result) \<Rightarrow> (eds, types_error) result" where
  "eds_empty encode =
     (case ib_new 0 True of
        Inl _ \<Rightarrow> Inl (Panic ''unwrap'')
      | Inr info_byte \<Rightarrow>
          let ods = [as_bytes TAIL_PADDING @ [as_u8 info_byte] @ replicate (SHARE_SIZE - NS_SIZE - 1) 0] in
          map_err (\<lambda>_. Panic ''invalid EDS'') (from_ods encode ods V1))"

subsection \<open>Access\<close>

definition eds_share :: "eds \<Rightarrow> nat \<Rightarrow> nat \<Rightarrow> (share, types_error) result" where
  "eds_share self row column =
     (let index = row * eds_square_width self + column in
      ok_or (EdsIndexOutOfRange row column) (list_get (eds_data_square self) index))"

definition axis_coords :: "axis_type \<Rightarrow> nat \<Rightarrow> nat \<Rightarrow> nat \<times> nat" where
  "axis_coords axis index i = (case axis of Row \<Rightarrow> (index, i) | Col \<Rightarrow> (i, index))"

definition eds_axis :: "eds \<Rightarrow> axis_type \<Rightarrow> nat \<Rightarrow> (share list, types_error) result" where
  "eds_axis self axis index =
     try_map (\<lambda>i. let (row, col) = axis_coords axis index i in eds_share self row col) [0..<eds_square_width self]"

definition eds_row :: "eds \<Rightarrow> nat \<Rightarrow> (share list, types_error) result" where
  "eds_row self index = eds_axis self Row index"

definition eds_column :: "eds \<Rightarrow> nat \<Rightarrow> (share list, types_error) result" where
  "eds_column self index = eds_axis self Col index"


subsection \<open>Namespaced Merkle trees\<close>

text \<open>
  The proofs of \<open>nmt_rs\<close> as the wrapper in \<^verbatim>\<open>types/src/nmt/namespace_proof.rs\<close> takes them apart, and the
  operations of the tree that the code calls.
\<close>

record range_proof =
  np_siblings :: "namespaced_hash list"
  np_start :: nat
  np_end :: nat

datatype namespace_proof =
    PresenceProof (np_proof: range_proof) (max_ns_ignored: bool)
  | AbsenceProof (np_proof: range_proof) (max_ns_ignored: bool) "namespaced_hash option"

fun is_of_absence :: "namespace_proof \<Rightarrow> bool" where
  "is_of_absence (AbsenceProof _ _ _) = True" |
  "is_of_absence (PresenceProof _ _) = False"

record 't nmt_lib =
  nl_default :: 't
  nl_push_leaf :: "'t \<Rightarrow> bytes \<Rightarrow> namespace \<Rightarrow> ('t, string) result"
  nl_root :: "'t \<Rightarrow> namespaced_hash"
  nl_range_proof :: "'t \<Rightarrow> nat \<Rightarrow> nat \<Rightarrow> range_proof"
  nl_namespace_proof :: "'t \<Rightarrow> namespace \<Rightarrow> namespace_proof"
  nl_contains :: "namespaced_hash \<Rightarrow> namespace \<Rightarrow> bool"
  nl_verify_range :: "namespace_proof \<Rightarrow> namespaced_hash \<Rightarrow> bytes list \<Rightarrow> namespace \<Rightarrow> bool"
  nl_verify_complete :: "namespace_proof \<Rightarrow> namespaced_hash \<Rightarrow> bytes list \<Rightarrow> namespace \<Rightarrow> bool"
  nl_to_absence :: "namespace_proof \<Rightarrow> namespaced_hash \<Rightarrow> namespace_proof"

text \<open>The loops that push shares to a tree.\<close>

fun push_shares :: "'t nmt_lib \<Rightarrow> 't \<Rightarrow> share list \<Rightarrow> ('t, types_error) result" where
  "push_shares lib tree [] = Inr tree" |
  "push_shares lib tree (share # shares) =
     try_bind (map_err Nmt (nl_push_leaf lib tree (share_to_vec share) (share_namespace share))) (\<lambda>tree.
     push_shares lib tree shares)"

fun axis_nmt_loop :: "'t nmt_lib \<Rightarrow> eds \<Rightarrow> axis_type \<Rightarrow> nat \<Rightarrow> 't \<Rightarrow> nat list \<Rightarrow> ('t, types_error) result" where
  "axis_nmt_loop lib self axis index tree [] = Inr tree" |
  "axis_nmt_loop lib self axis index tree (i # is) =
     (let (row, col) = axis_coords axis index i in
      try_bind (eds_share self row col) (\<lambda>share.
      try_bind (map_err Nmt (nl_push_leaf lib tree (share_to_vec share) (share_namespace share))) (\<lambda>tree.
      axis_nmt_loop lib self axis index tree is)))"

definition axis_nmt :: "'t nmt_lib \<Rightarrow> eds \<Rightarrow> axis_type \<Rightarrow> nat \<Rightarrow> ('t, types_error) result" where
  "axis_nmt lib self axis index = axis_nmt_loop lib self axis index (nl_default lib) [0..<eds_square_width self]"

definition row_nmt :: "'t nmt_lib \<Rightarrow> eds \<Rightarrow> nat \<Rightarrow> ('t, types_error) result" where
  "row_nmt lib self index = axis_nmt lib self Row index"

definition column_nmt :: "'t nmt_lib \<Rightarrow> eds \<Rightarrow> nat \<Rightarrow> ('t, types_error) result" where
  "column_nmt lib self index = axis_nmt lib self Col index"

definition nmt_root_or_panic :: "'t nmt_lib \<Rightarrow> ('t, types_error) result \<Rightarrow> (namespaced_hash, types_error) result" where
  "nmt_root_or_panic lib r =
     (case r of Inl _ \<Rightarrow> Inl (Panic ''EDS validated on construction'') | Inr tree \<Rightarrow> Inr (nl_root lib tree))"

fun from_eds_loop ::
  "'t nmt_lib \<Rightarrow> eds \<Rightarrow> nat list \<Rightarrow> data_availability_header \<Rightarrow> (data_availability_header, types_error) result" where
  "from_eds_loop lib eds [] dah = Inr dah" |
  "from_eds_loop lib eds (i # is) dah =
     try_bind (nmt_root_or_panic lib (row_nmt lib eds i)) (\<lambda>r.
     try_bind (nmt_root_or_panic lib (column_nmt lib eds i)) (\<lambda>c.
     from_eds_loop lib eds is \<lparr> row_roots = row_roots dah @ [r], column_roots = column_roots dah @ [c] \<rparr>))"

definition dah_from_eds :: "'t nmt_lib \<Rightarrow> eds \<Rightarrow> (data_availability_header, types_error) result" where
  "dah_from_eds lib eds = from_eds_loop lib eds [0..<eds_square_width eds] \<lparr> row_roots = [], column_roots = [] \<rparr>"

subsection \<open>Namespaced data\<close>

record row_namespace_data =
  rnd_proof :: namespace_proof
  rnd_shares :: "share list"

text \<open>The search of a row stops at the first namespace that is higher.\<close>

fun collect_namespace :: "eds \<Rightarrow> namespace \<Rightarrow> nat \<Rightarrow> nat list \<Rightarrow> (share list, types_error) result" where
  "collect_namespace self ns row [] = Inr []" |
  "collect_namespace self ns row (col # cols) =
     try_bind (eds_share self row col) (\<lambda>share.
     if share_namespace share < ns then collect_namespace self ns row cols
     else if share_namespace share = ns then
       try_bind (collect_namespace self ns row cols) (\<lambda>shares. Inr (share # shares))
     else Inr [])"

fun namespace_data_loop ::
  "'t nmt_lib \<Rightarrow> eds \<Rightarrow> namespace \<Rightarrow> data_availability_header \<Rightarrow> nat \<Rightarrow> nat list \<Rightarrow>
     ((row_namespace_data_id \<times> row_namespace_data) list, types_error) result" where
  "namespace_data_loop lib self ns dah h [] = Inr []" |
  "namespace_data_loop lib self ns dah h (row # rows) =
     (case row_root dah row of
        None \<Rightarrow> Inr []
      | Some root \<Rightarrow>
        if \<not> nl_contains lib root ns then namespace_data_loop lib self ns dah h rows
        else
          try_bind (collect_namespace self ns row [0..<eds_square_width self]) (\<lambda>shares.
          try_bind (row_nmt lib self row) (\<lambda>tree.
          try_bind (namespace_data_id_new ns row h) (\<lambda>id.
          try_bind (namespace_data_loop lib self ns dah h rows) (\<lambda>data.
          Inr ((id, \<lparr> rnd_proof = nl_namespace_proof lib tree ns, rnd_shares = shares \<rparr>) # data))))))"

definition get_namespace_data ::
  "'t nmt_lib \<Rightarrow> eds \<Rightarrow> namespace \<Rightarrow> data_availability_header \<Rightarrow> nat \<Rightarrow>
     ((row_namespace_data_id \<times> row_namespace_data) list, types_error) result" where
  "get_namespace_data lib self ns dah h = namespace_data_loop lib self ns dah h [0..<eds_square_width self]"

section \<open>Squares\<close>

lemma floor_sqrt_square: "floor_sqrt (w * w) = w"
proof -
  have w: "w \<le> w * w" by (cases w) auto
  then have "[0..<Suc (w * w)] = [0..<Suc w] @ [Suc w..<Suc (w * w)]"
    using upt_add_eq_append [of 0 "Suc w" "w * w - w"] by simp
  moreover have "filter (\<lambda>s. s * s \<le> w * w) [0..<Suc w] = [0..<Suc w]"
    by (rule filter_True) (auto intro: mult_le_mono simp del: upt_Suc)
  moreover have "filter (\<lambda>s. s * s \<le> w * w) [Suc w..<Suc (w * w)] = []"
  proof (rule filter_False, intro ballI)
    fix s assume "s \<in> set [Suc w..<Suc (w * w)]"
    then have "w < s" by (simp del: upt_Suc)
    then have "w * w < s * s" by (intro mult_strict_mono) auto
    then show "\<not> s * s \<le> w * w" by simp
  qed
  ultimately show ?thesis by (simp add: floor_sqrt_def)
qed

lemma count_ones_power: "i < 16 \<Longrightarrow> count_ones (2 ^ i) = 1"
proof -
  assume i: "i < 16"
  have "filter (bit ((2 :: nat) ^ i)) [0..<16] = filter (\<lambda>j. j = i) [0..<16]"
    by (rule filter_cong) (auto simp: bit_2_iff bit_exp_iff)
  moreover have "filter (\<lambda>j. j = i) [0..<16] = [i]"
  proof -
    have "[0..<16] = [0..<i] @ i # [Suc i..<16]" using i upt_conv_Cons [OF i] upt_add_eq_append [of 0 i "16 - i"] by simp
    then show ?thesis by (simp add: filter_empty_conv)
  qed
  ultimately show ?thesis by (simp add: count_ones_def)
qed

lemma count_ones_iff:
  assumes "w \<le> 256"
  shows "count_ones w = 1 \<longleftrightarrow> (\<exists>i \<le> 8. w = 2 ^ i)"
proof
  assume "count_ones w = 1"
  then obtain i where f: "filter (bit w) [0..<16] = [i]" by (auto simp: count_ones_def length_Suc_conv)
  have "bit w j \<longleftrightarrow> j = i" for j
  proof (cases "j < 16")
    case True
    then have "bit w j \<longleftrightarrow> j \<in> set (filter (bit w) [0..<16])" by simp
    then show ?thesis unfolding f by simp
  next
    case False
    have "i \<in> set (filter (bit w) [0..<16])" unfolding f by simp
    then have "i < 16" by simp
    moreover have "w < 2 ^ j" using assms False power_increasing [of 16 j "2 :: nat"] by simp
    then have "\<not> bit w j" by (simp add: bit_iff_odd)
    ultimately show ?thesis using False by auto
  qed
  then have w: "w = 2 ^ i" by (intro bit_eqI) (auto simp: bit_exp_iff)
  have "i \<le> 8"
  proof (rule ccontr)
    assume "\<not> i \<le> 8"
    then have "(2 :: nat) ^ 9 \<le> 2 ^ i" by (intro power_increasing) auto
    then show False using assms w by simp
  qed
  then show "\<exists>i \<le> 8. w = 2 ^ i" using w by blast
qed (auto simp: count_ones_power)

lemma nth_concat_uniform:
  assumes "\<forall>row \<in> set rows. length row = w" "r < length rows" "c < w"
  shows "concat rows ! (r * w + c) = rows ! r ! c"
  using assms
proof (induction rows arbitrary: r)
  case (Cons row rows)
  then show ?case by (cases r) (auto simp: nth_append)
qed simp

lemma length_concat_uniform: "\<forall>row \<in> set rows. length row = w \<Longrightarrow> length (concat rows) = length rows * w"
  by (induction rows) auto

lemma index_less: "r < w \<Longrightarrow> c < w \<Longrightarrow> r * w + c < w * (w :: nat)"
proof -
  assume r: "r < w" and "c < w"
  then have "r * w + c < Suc r * w" by simp
  also have "\<dots> \<le> w * w" using r by (intro mult_le_mono1) simp
  finally show ?thesis .
qed

lemma check_axis_iff:
  assumes "\<And>i prev. check i prev = try_bind (mk i) (\<lambda>s. if (case prev of None \<Rightarrow> False | Some p \<Rightarrow> share_namespace s < p) then Inl err else Inr s)"
  shows "check_axis check prev is = Inr ss \<longleftrightarrow> list_all2 (\<lambda>i s. mk i = Inr s) is ss \<and>
    sorted (map share_namespace ss) \<and> (\<forall>p s. prev = Some p \<longrightarrow> s \<in> set ss \<longrightarrow> p \<le> share_namespace s)"
proof (induction "is" arbitrary: prev ss)
  case (Cons i "is")
  show ?case
  proof
    assume "check_axis check prev (i # is) = Inr ss"
    then obtain s ss' where s: "mk i = Inr s" "ss = s # ss'" "check_axis check (Some (share_namespace s)) is = Inr ss'"
      "\<forall>p. prev = Some p \<longrightarrow> p \<le> share_namespace s"
      by (auto simp: assms try_bind_Inr_iff not_less split: if_splits option.splits)
    note ih = iffD1 [OF Cons.IH s(3)]
    show "list_all2 (\<lambda>i s. mk i = Inr s) (i # is) ss \<and> sorted (map share_namespace ss) \<and>
        (\<forall>p s. prev = Some p \<longrightarrow> s \<in> set ss \<longrightarrow> p \<le> share_namespace s)"
      using s ih by (auto intro: order_trans)
  next
    assume r: "list_all2 (\<lambda>i s. mk i = Inr s) (i # is) ss \<and> sorted (map share_namespace ss) \<and>
        (\<forall>p s. prev = Some p \<longrightarrow> s \<in> set ss \<longrightarrow> p \<le> share_namespace s)"
    then obtain s ss' where s: "mk i = Inr s" "ss = s # ss'" "list_all2 (\<lambda>i s. mk i = Inr s) is ss'"
      by (auto simp: list_all2_Cons1)
    have "check_axis check (Some (share_namespace s)) is = Inr ss'" using r s Cons.IH by auto
    moreover have "check i prev = Inr s" using r s by (auto simp: assms not_less split: option.split)
    ultimately show "check_axis check prev (i # is) = Inr ss" using s(2) by simp
  qed
qed auto

text \<open>The share in a cell, and what makes a square well formed.\<close>

definition cell :: "eds \<Rightarrow> nat \<Rightarrow> nat \<Rightarrow> share" where
  "cell e r c = eds_data_square e ! (r * eds_square_width e + c)"

definition width_ok :: "nat \<Rightarrow> bool" where
  "width_ok w \<longleftrightarrow> (\<exists>i. 1 \<le> i \<and> i \<le> 8 \<and> w = 2 ^ i)"

definition eds_ok :: "eds \<Rightarrow> bool" where
  "eds_ok e \<longleftrightarrow> (let w = eds_square_width e in
     width_ok w \<and> length (eds_data_square e) = w * w \<and>
     (\<forall>r < w. \<forall>c < w. share_ok (cell e r c) \<and> sh_parity (cell e r c) = (\<not> (r < w div 2 \<and> c < w div 2))) \<and>
     (\<forall>r < w. sorted (map (\<lambda>c. share_namespace (cell e r c)) [0..<w])) \<and>
     (\<forall>c < w. sorted (map (\<lambda>r. share_namespace (cell e r c)) [0..<w])))"

lemma mk_share_iff:
  "(if is_ods_square r c w then share_from_raw d else share_parity d) = Inr s \<longleftrightarrow>
     share_ok s \<and> sh_data s = d \<and> sh_parity s = (\<not> (r < w div 2 \<and> c < w div 2))"
  by (cases s) (auto simp: is_ods_square_def share_from_raw_iff share_parity_def share_ok_def)


lemma index_split: "k < w * w \<Longrightarrow> k div w < w \<and> k mod w < w \<and> k = k div w * w + k mod (w :: nat)"
  by (cases "w = 0") (auto simp: less_mult_imp_div_less)

lemma square_rows:
  assumes "length xs = w * w"
  shows "concat (map (\<lambda>r. map (\<lambda>c. xs ! (r * w + c)) [0..<w]) [0..<w]) = xs" (is "concat ?rows = xs")
proof (rule nth_equalityI)
  have u: "\<forall>row \<in> set ?rows. length row = w" by auto
  show len: "length (concat ?rows) = length xs" using assms length_concat_uniform [OF u] by simp
  fix k assume "k < length (concat ?rows)"
  then have k: "k div w < w" "k mod w < w" "k = k div w * w + k mod w" using index_split len assms by auto
  have "concat ?rows ! (k div w * w + k mod w) = ?rows ! (k div w) ! (k mod w)" using k u by (intro nth_concat_uniform) auto
  then show "concat ?rows ! k = xs ! k" using k by simp
qed

lemma check_share_axis:
  "check_axis (\<lambda>i. check_share shares w (f i) (g i)) None [0..<n] = Inr ss \<longleftrightarrow> length ss = n \<and>
     (\<forall>i < n. share_ok (ss ! i) \<and> sh_data (ss ! i) = shares ! (f i * w + g i) \<and>
        sh_parity (ss ! i) = (\<not> (f i < w div 2 \<and> g i < w div 2))) \<and> sorted (map share_namespace ss)"
proof -
  let ?mk = "\<lambda>i. if is_ods_square (f i) (g i) w then share_from_raw (shares ! (f i * w + g i)) else share_parity (shares ! (f i * w + g i))"
  have c: "check_share shares w (f i) (g i) prev = try_bind (?mk i) (\<lambda>s. if (case prev of None \<Rightarrow> False | Some p \<Rightarrow> share_namespace s < p)
      then Inl (Validation (ValidationOther ''Shares of {axis} {axis_idx} are not sorted by their namespace'')) else Inr s)" for i prev
    by (simp add: check_share_def flatten_index_def Let_def)
  show ?thesis unfolding check_axis_iff [where mk = ?mk, OF c]
    by (auto simp: list_all2_conv_all_nth mk_share_iff)
qed

lemma share_cell_unique:
  "sh_data s = sh_data t \<Longrightarrow> sh_parity s = sh_parity t \<Longrightarrow> s = (t :: share)"
  by simp

text \<open>The loops over the square accept exactly the shares of a well-formed square.\<close>

lemma square_width_iff: "width_ok w \<longleftrightarrow> 2 \<le> w \<and> w \<le> 256 \<and> count_ones w = 1"
proof
  assume "width_ok w"
  then obtain i where i: "1 \<le> i" "i \<le> 8" "w = 2 ^ i" unfolding width_ok_def by blast
  have "(2 :: nat) ^ 1 \<le> 2 ^ i" by (rule power_increasing) (use i in auto)
  moreover have "(2 :: nat) ^ i \<le> 2 ^ 8" by (rule power_increasing) (use i in auto)
  ultimately show "2 \<le> w \<and> w \<le> 256 \<and> count_ones w = 1" using i count_ones_power [of i] by simp
next
  assume w: "2 \<le> w \<and> w \<le> 256 \<and> count_ones w = 1"
  then obtain i where i: "i \<le> 8" "w = 2 ^ i" using count_ones_iff by blast
  moreover have "i \<noteq> 0" by (rule notI) (use w i in simp)
  ultimately show "width_ok w" unfolding width_ok_def by (intro exI [of _ i]) auto
qed

lemma square_bounds: "4 \<le> w * w \<and> w * w \<le> 65536 \<longleftrightarrow> 2 \<le> w \<and> w \<le> (256 :: nat)"
proof -
  have "2 * 2 \<le> w * w \<longleftrightarrow> 2 \<le> w" "w * w \<le> 256 * 256 \<longleftrightarrow> w \<le> 256"
    by (metis power2_eq_square power2_nat_le_eq_le)+
  then show ?thesis by simp
qed


lemma eds_new_width:
  "eds_new shares codec v = Inr e \<longleftrightarrow> (\<exists>w cols rows. length shares = w * w \<and> width_ok w \<and>
     try_map (\<lambda>col. check_axis (\<lambda>row. check_share shares w row col) None [0..<w]) [0..<w] = Inr cols \<and>
     try_map (\<lambda>row. check_axis (check_share shares w row) None [0..<w]) [0..<w] = Inr rows \<and>
     e = \<lparr> eds_data_square = concat rows, eds_codec = codec, eds_square_width = w \<rparr>)" (is "?new \<longleftrightarrow> (\<exists>w cols rows. ?P w cols rows)")
proof
  assume ?new
  then have w: "4 \<le> length shares" "length shares \<le> 65536" "floor_sqrt (length shares) * floor_sqrt (length shares) = length shares"
    "count_ones (floor_sqrt (length shares)) = 1"
    by (auto simp: eds_new_def Let_def MIN_EXTENDED_SQUARE_WIDTH_def split: if_splits)
  then have "2 \<le> floor_sqrt (length shares) \<and> floor_sqrt (length shares) \<le> 256" using square_bounds by metis
  then have "width_ok (floor_sqrt (length shares))" using w(4) square_width_iff by blast
  then show "\<exists>w cols rows. ?P w cols rows" using \<open>?new\<close> w
    by (intro exI [of _ "floor_sqrt (length shares)"]) (auto simp: eds_new_def Let_def try_bind_Inr_iff split: if_splits)
next
  assume "\<exists>w cols rows. ?P w cols rows"
  then obtain w cols rows where p: "?P w cols rows" by blast
  then have w: "2 \<le> w" "w \<le> 256" "count_ones w = 1" "length shares = w * w" using square_width_iff by blast+
  then have "4 \<le> length shares" "length shares \<le> 65536" using square_bounds [of w] by auto
  then show ?new using p w floor_sqrt_square [of w]
    by (simp add: eds_new_def Let_def MIN_EXTENDED_SQUARE_WIDTH_def u16_max_def)
qed

lemma eds_new_ok:
  assumes "eds_new shares codec v = Inr e"
  shows "eds_ok e \<and> map sh_data (eds_data_square e) = shares \<and> eds_codec e = codec"
proof -
  obtain w cols rows where p: "length shares = w * w" "width_ok w"
    "try_map (\<lambda>col. check_axis (\<lambda>row. check_share shares w row col) None [0..<w]) [0..<w] = Inr cols"
    "try_map (\<lambda>row. check_axis (check_share shares w row) None [0..<w]) [0..<w] = Inr rows"
    "e = \<lparr> eds_data_square = concat rows, eds_codec = codec, eds_square_width = w \<rparr>"
    using assms unfolding eds_new_width by (elim exE conjE) (rule that)
  let ?good = "\<lambda>r c s. share_ok s \<and> sh_data s = shares ! (r * w + c) \<and> sh_parity s = (\<not> (r < w div 2 \<and> c < w div 2))"
  have len: "length rows = w" "length cols = w" using p(3,4) by (auto simp: try_map_Inr_iff dest: list_all2_lengthD)
  have rows: "length (rows ! r) = w" "\<forall>c < w. ?good r c (rows ! r ! c)" "sorted (map share_namespace (rows ! r))" if "r < w" for r
  proof -
    have "check_axis (check_share shares w r) None [0..<w] = Inr (rows ! r)"
      using list_all2_nthD [OF p(4) [unfolded try_map_Inr_iff], of r] that by simp
    from this [unfolded check_share_axis] show "length (rows ! r) = w" "\<forall>c < w. ?good r c (rows ! r ! c)"
      "sorted (map share_namespace (rows ! r))" by auto
  qed
  have cols: "length (cols ! c) = w" "\<forall>r < w. ?good r c (cols ! c ! r)" "sorted (map share_namespace (cols ! c))" if "c < w" for c
  proof -
    have "check_axis (\<lambda>row. check_share shares w row c) None [0..<w] = Inr (cols ! c)"
      using list_all2_nthD [OF p(3) [unfolded try_map_Inr_iff], of c] that by simp
    from this [unfolded check_share_axis] show "length (cols ! c) = w" "\<forall>r < w. ?good r c (cols ! c ! r)"
      "sorted (map share_namespace (cols ! c))" by auto
  qed
  have u: "\<forall>row \<in> set rows. length row = w" using rows(1) len(1) by (auto simp: in_set_conv_nth)
  have cell: "cell e r c = rows ! r ! c" if "r < w" "c < w" for r c
    using nth_concat_uniform [OF u, of r c] that len(1) p(5) by (simp add: cell_def)
  have same: "cols ! c ! r = cell e r c" if "r < w" "c < w" for r c
    using rows(2) [OF that(1)] cols(2) [OF that(2)] cell [OF that] that by (simp add: share_cell_unique)
  have "sorted (map (\<lambda>c. share_namespace (cell e r c)) [0..<w])" if "r < w" for r
  proof -
    have "map (\<lambda>c. share_namespace (cell e r c)) [0..<w] = map share_namespace (rows ! r)"
      by (rule nth_equalityI) (use rows(1) cell that in auto)
    then show ?thesis using rows(3) [OF that] by simp
  qed
  moreover have "sorted (map (\<lambda>r. share_namespace (cell e r c)) [0..<w])" if "c < w" for c
  proof -
    have "map (\<lambda>r. share_namespace (cell e r c)) [0..<w] = map share_namespace (cols ! c)"
      by (rule nth_equalityI) (use cols(1) same that in auto)
    then show ?thesis using cols(3) [OF that] by simp
  qed
  moreover have lsq: "length (eds_data_square e) = w * w" using length_concat_uniform [OF u] len p(5) by simp
  moreover have "map sh_data (eds_data_square e) = shares"
  proof (rule nth_equalityI)
    show "length (map sh_data (eds_data_square e)) = length shares" using lsq p(1) by simp
    fix k assume "k < length (map sh_data (eds_data_square e))"
    then have kw: "k < w * w" using lsq by simp
    then have k: "k div w < w" "k mod w < w" "k = k div w * w + k mod w" using index_split by blast+
    have "eds_data_square e ! k = cell e (k div w) (k mod w)" using k(3) p(5) by (simp add: cell_def)
    then show "map sh_data (eds_data_square e) ! k = shares ! k"
      using rows(2) [OF k(1)] cell [OF k(1,2)] k kw lsq by simp
  qed
  ultimately show ?thesis using p(2,5) rows(2) cell unfolding eds_ok_def by simp
qed

text \<open>Conversely, the shares of a well-formed square are accepted and give that square.\<close>

lemma eds_ok_new:
  assumes "eds_ok e"
  shows "eds_new (map sh_data (eds_data_square e)) (eds_codec e) v = Inr e"
proof -
  let ?w = "eds_square_width e" and ?shares = "map sh_data (eds_data_square e)"
  have ok: "width_ok ?w" "length (eds_data_square e) = ?w * ?w"
    "\<forall>r < ?w. \<forall>c < ?w. share_ok (cell e r c) \<and> sh_parity (cell e r c) = (\<not> (r < ?w div 2 \<and> c < ?w div 2))"
    "\<forall>r < ?w. sorted (map (\<lambda>c. share_namespace (cell e r c)) [0..<?w])"
    "\<forall>c < ?w. sorted (map (\<lambda>r. share_namespace (cell e r c)) [0..<?w])"
    using assms by (simp_all add: eds_ok_def Let_def)
  have data: "sh_data (cell e r c) = ?shares ! (r * ?w + c)" if "r < ?w" "c < ?w" for r c
    using index_less [OF that] ok(2) by (simp add: cell_def)
  have "check_axis (check_share ?shares ?w r) None [0..<?w] = Inr (map (cell e r) [0..<?w])" if "r < ?w" for r
    unfolding check_share_axis using that ok(3,4) data by (simp add: comp_def)
  then have rows: "try_map (\<lambda>r. check_axis (check_share ?shares ?w r) None [0..<?w]) [0..<?w] = Inr (map (\<lambda>r. map (cell e r) [0..<?w]) [0..<?w])"
    by (intro try_map_ok) auto
  have "check_axis (\<lambda>row. check_share ?shares ?w row c) None [0..<?w] = Inr (map (\<lambda>r. cell e r c) [0..<?w])" if "c < ?w" for c
    unfolding check_share_axis using that ok(3,5) data by (simp add: comp_def)
  then have cols: "try_map (\<lambda>c. check_axis (\<lambda>row. check_share ?shares ?w row c) None [0..<?w]) [0..<?w] = Inr (map (\<lambda>c. map (\<lambda>r. cell e r c) [0..<?w]) [0..<?w])"
    by (intro try_map_ok) auto
  have "concat (map (\<lambda>r. map (cell e r) [0..<?w]) [0..<?w]) = eds_data_square e"
    using square_rows [OF ok(2)] by (simp add: cell_def [abs_def])
  then show ?thesis unfolding eds_new_width using ok(1,2) rows cols by (intro exI [of _ ?w] exI conjI) auto
qed

text \<open>
  (C17) Raw shares make an extended data square exactly if they are the shares, row by row, of a square whose
  width is a power of two from 2 to 256, with well-formed shares in the first quadrant, parity shares in the
  others, and namespaces that do not descend along any row or column; and the square is that one. So
  every square survives its raw form.
\<close>

theorem eds_new_iff:
  "eds_new shares codec v = Inr e \<longleftrightarrow> eds_ok e \<and> eds_into_raw e = \<lparr> re_data_square = shares, re_codec = codec \<rparr>"
  using eds_new_ok [of shares codec v e] eds_ok_new [of e v] by (auto simp: eds_into_raw_def share_to_vec_def [abs_def])


section \<open>Rows and columns\<close>

definition axis_cells :: "eds \<Rightarrow> axis_type \<Rightarrow> nat \<Rightarrow> share list" where
  "axis_cells e axis i = map (\<lambda>j. case axis of Row \<Rightarrow> cell e i j | Col \<Rightarrow> cell e j i) [0..<eds_square_width e]"

lemma eds_okD:
  assumes "eds_ok e"
  shows "width_ok (eds_square_width e)" "length (eds_data_square e) = eds_square_width e * eds_square_width e"
    "r < eds_square_width e \<Longrightarrow> c < eds_square_width e \<Longrightarrow> share_ok (cell e r c)"
    "r < eds_square_width e \<Longrightarrow> c < eds_square_width e \<Longrightarrow>
       sh_parity (cell e r c) = (\<not> (r < eds_square_width e div 2 \<and> c < eds_square_width e div 2))"
    "i < eds_square_width e \<Longrightarrow> sorted (map share_namespace (axis_cells e axis i))"
  using assms by (cases axis; simp add: eds_ok_def Let_def axis_cells_def comp_def)+

lemma eds_share_cell:
  assumes "eds_ok e" "r < eds_square_width e" "c < eds_square_width e"
  shows "eds_share e r c = Inr (cell e r c)"
  using index_less [OF assms(2,3)] eds_okD(2) [OF assms(1)] by (simp add: eds_share_def list_get_def cell_def Let_def)

lemma eds_axis_cells: "eds_ok e \<Longrightarrow> i < eds_square_width e \<Longrightarrow> eds_axis e axis i = Inr (axis_cells e axis i)"
  unfolding eds_axis_def axis_cells_def
  by (rule try_map_ok) (auto simp: axis_coords_def eds_share_cell split: axis_type.split)

lemma axis_nmt_push:
  assumes "eds_ok e" "i < eds_square_width e"
  shows "axis_nmt lib e axis i = push_shares lib (nl_default lib) (axis_cells e axis i)"
proof -
  have "axis_nmt_loop lib e axis i t js = push_shares lib t (map (\<lambda>j. case axis of Row \<Rightarrow> cell e i j | Col \<Rightarrow> cell e j i) js)"
    if "\<forall>j \<in> set js. j < eds_square_width e" for t js
    using that
  proof (induction js arbitrary: t)
    case (Cons j js)
    then have "(let (row, col) = axis_coords axis i j in eds_share e row col) = Inr (case axis of Row \<Rightarrow> cell e i j | Col \<Rightarrow> cell e j i)"
      using assms by (cases axis) (simp_all add: axis_coords_def eds_share_cell)
    then show ?case using Cons by (cases axis) (simp_all add: axis_coords_def)
  qed simp
  then show ?thesis by (simp add: axis_nmt_def axis_cells_def)
qed

text \<open>What the code relies on of \<open>nmt_rs\<close>: leaves in order are accepted, and the proofs of a tree verify against its root.\<close>

fun tree_of :: "'t nmt_lib \<Rightarrow> 't \<Rightarrow> (bytes \<times> namespace) list \<Rightarrow> ('t, string) result" where
  "tree_of lib t [] = Inr t" |
  "tree_of lib t ((d, n) # leaves) = try_bind (nl_push_leaf lib t d n) (\<lambda>t. tree_of lib t leaves)"

definition nmt_laws :: "'t nmt_lib \<Rightarrow> bool" where
  "nmt_laws lib \<longleftrightarrow>
     (\<forall>leaves. sorted (map snd leaves) \<longrightarrow> is_ok (tree_of lib (nl_default lib) leaves)) \<and>
     (\<forall>leaves t. tree_of lib (nl_default lib) leaves = Inr t \<longrightarrow>
        (\<forall>i < length leaves. nl_verify_range lib (PresenceProof (nl_range_proof lib t i (i + 1)) True) (nl_root lib t)
           [fst (leaves ! i)] (snd (leaves ! i))) \<and>
        (\<forall>ns. ns \<noteq> PARITY_SHARE \<longrightarrow> ns \<in> snd ` set leaves \<longrightarrow> nl_contains lib (nl_root lib t) ns) \<and>
        (\<forall>ns. ns \<noteq> PARITY_SHARE \<longrightarrow> nl_contains lib (nl_root lib t) ns \<longrightarrow>
           (is_of_absence (nl_namespace_proof lib t ns) \<longleftrightarrow> ns \<notin> snd ` set leaves) \<and>
           nl_verify_complete lib (nl_namespace_proof lib t ns) (nl_root lib t) (map fst (filter (\<lambda>l. snd l = ns) leaves)) ns)) \<and>
     (\<forall>p b leaf. nl_to_absence lib (PresenceProof p b) leaf = AbsenceProof p b (Some leaf))"

definition leaf_of :: "share \<Rightarrow> bytes \<times> namespace" where
  "leaf_of s = (share_to_vec s, share_namespace s)"

lemma push_shares_tree: "push_shares lib t ss = map_err Nmt (tree_of lib t (map leaf_of ss))"
  by (induction ss arbitrary: t) (auto simp: leaf_of_def try_bind_def map_err_def split: sum.split)

lemma axis_tree:
  assumes "nmt_laws lib" "eds_ok e" "i < eds_square_width e"
  obtains t where "axis_nmt lib e axis i = Inr t" "tree_of lib (nl_default lib) (map leaf_of (axis_cells e axis i)) = Inr t"
proof -
  have "map snd (map leaf_of (axis_cells e axis i)) = map share_namespace (axis_cells e axis i)" by (simp add: leaf_of_def)
  then have "is_ok (tree_of lib (nl_default lib) (map leaf_of (axis_cells e axis i)))"
    using assms(1) eds_okD(5) [OF assms(2,3)] unfolding nmt_laws_def by metis
  then obtain t where "tree_of lib (nl_default lib) (map leaf_of (axis_cells e axis i)) = Inr t" by (auto simp: is_ok_iff)
  moreover from this have "axis_nmt lib e axis i = Inr t"
    by (simp add: axis_nmt_push [OF assms(2,3)] push_shares_tree)
  ultimately show ?thesis by (rule that [rotated])
qed

lemma from_eds_loop_roots:
  assumes "nmt_laws lib" "eds_ok e" "\<forall>i \<in> set is. i < eds_square_width e"
  shows "\<exists>rs cs. from_eds_loop lib e is d = Inr \<lparr> row_roots = row_roots d @ rs, column_roots = column_roots d @ cs \<rparr> \<and>
    list_all2 (\<lambda>i r. \<exists>t. axis_nmt lib e Row i = Inr t \<and> r = nl_root lib t) is rs \<and>
    list_all2 (\<lambda>i r. \<exists>t. axis_nmt lib e Col i = Inr t \<and> r = nl_root lib t) is cs"
  using assms(3)
proof (induction "is" arbitrary: d)
  case (Cons i "is")
  obtain t where t: "axis_nmt lib e Row i = Inr t" using axis_tree [OF assms(1,2), of i Row] Cons.prems by auto
  obtain u where u: "axis_nmt lib e Col i = Inr u" using axis_tree [OF assms(1,2), of i Col] Cons.prems by auto
  have "from_eds_loop lib e (i # is) d =
      from_eds_loop lib e is \<lparr> row_roots = row_roots d @ [nl_root lib t], column_roots = column_roots d @ [nl_root lib u] \<rparr>"
    using t u by (simp add: row_nmt_def column_nmt_def nmt_root_or_panic_def)
  with Cons.IH [of "\<lparr> row_roots = row_roots d @ [nl_root lib t], column_roots = column_roots d @ [nl_root lib u] \<rparr>"] Cons.prems
  obtain rs cs where "from_eds_loop lib e (i # is) d = Inr \<lparr> row_roots = row_roots d @ nl_root lib t # rs, column_roots = column_roots d @ nl_root lib u # cs \<rparr>"
    "list_all2 (\<lambda>i r. \<exists>t. axis_nmt lib e Row i = Inr t \<and> r = nl_root lib t) is rs"
    "list_all2 (\<lambda>i r. \<exists>t. axis_nmt lib e Col i = Inr t \<and> r = nl_root lib t) is cs" by auto
  then show ?case using t u by (intro exI [of _ "nl_root lib t # rs"] exI [of _ "nl_root lib u # cs"]) simp
qed (cases d; simp)

lemma dah_from_eds_roots:
  assumes "nmt_laws lib" "eds_ok e"
  obtains dah where "dah_from_eds lib e = Inr dah" "length (row_roots dah) = eds_square_width e" "length (column_roots dah) = eds_square_width e"
    "\<forall>i < eds_square_width e. \<forall>axis. \<exists>t. axis_nmt lib e axis i = Inr t \<and>
       tree_of lib (nl_default lib) (map leaf_of (axis_cells e axis i)) = Inr t \<and> axis_root dah axis i = Some (nl_root lib t)"
proof -
  have "\<forall>i \<in> set [0..<eds_square_width e]. i < eds_square_width e" by simp
  from from_eds_loop_roots [OF assms this, of "\<lparr> row_roots = [], column_roots = [] \<rparr>"] obtain rs cs where
    d: "dah_from_eds lib e = Inr \<lparr> row_roots = rs, column_roots = cs \<rparr>"
      "list_all2 (\<lambda>i r. \<exists>t. axis_nmt lib e Row i = Inr t \<and> r = nl_root lib t) [0..<eds_square_width e] rs"
      "list_all2 (\<lambda>i r. \<exists>t. axis_nmt lib e Col i = Inr t \<and> r = nl_root lib t) [0..<eds_square_width e] cs"
    by (auto simp: dah_from_eds_def)
  have len: "length rs = eds_square_width e" "length cs = eds_square_width e" using d(2,3) by (auto dest: list_all2_lengthD)
  show ?thesis
  proof (rule that [OF d(1)])
    show "\<forall>i < eds_square_width e. \<forall>axis. \<exists>t. axis_nmt lib e axis i = Inr t \<and>
       tree_of lib (nl_default lib) (map leaf_of (axis_cells e axis i)) = Inr t \<and>
       axis_root \<lparr> row_roots = rs, column_roots = cs \<rparr> axis i = Some (nl_root lib t)"
    proof (intro allI impI)
      fix i axis assume i: "i < eds_square_width e"
      obtain t where t: "axis_nmt lib e axis i = Inr t" "tree_of lib (nl_default lib) (map leaf_of (axis_cells e axis i)) = Inr t"
        by (rule axis_tree [OF assms i])
      have "axis_root \<lparr> row_roots = rs, column_roots = cs \<rparr> axis i = Some (nl_root lib t)"
        using list_all2_nthD [OF d(2), of i] list_all2_nthD [OF d(3), of i] t(1) i len
        by (cases axis) (auto simp: row_root_def column_root_def list_get_def)
      then show "\<exists>t. axis_nmt lib e axis i = Inr t \<and> tree_of lib (nl_default lib) (map leaf_of (axis_cells e axis i)) = Inr t \<and>
          axis_root \<lparr> row_roots = rs, column_roots = cs \<rparr> axis i = Some (nl_root lib t)" using t by blast
    qed
  qed (use len in simp_all)
qed

text \<open>
  Only the flat index is checked: a column index past the end of its row selects a share of the next row.
\<close>

lemma eds_share_column_overflow:
  assumes "eds_ok e" "r + 1 < eds_square_width e"
  shows "eds_share e r (eds_square_width e) = Inr (cell e (r + 1) 0)"
  using index_less [OF assms(2), of 0] assms eds_okD(2) [OF assms(1)]
  by (simp add: eds_share_def list_get_def cell_def Let_def algebra_simps)

text \<open>The empty square is refused by a panic, \<open>chunks_mut\<close> does not take chunks of length zero.\<close>

lemma from_ods_empty: "from_ods encode [] v = Inl (Panic ''chunk size must be non-zero'')"
  using floor_sqrt_square [of 0] by (simp add: from_ods_def)

lemma eds_share_error:
  assumes "eds_ok e" "eds_square_width e \<le> r"
  shows "eds_share e r c = Inl (EdsIndexOutOfRange r c)"
proof -
  have "eds_square_width e * eds_square_width e \<le> r * eds_square_width e + c" using mult_le_mono1 [OF assms(2)] by (rule trans_le_add1)
  then show ?thesis using eds_okD(2) [OF assms(1)] by (simp add: eds_share_def list_get_def Let_def ok_or_def)
qed

end
