(* ===== verification/Eds_Extension.thy ===== *)
theory Eds_Extension
  imports Eds
begin

text \<open>
  The extension of a square, \<open>ExtendedDataSquare::from_ods\<close> in \<^verbatim>\<open>types/src/eds.rs\<close>: whatever the erasure code does,
  the extended square holds the original shares in its first quadrant, and its rows and its first columns are code
  words. The code itself belongs to \<open>leopard_codec\<close> and is an argument; \<open>encode_laws\<close> is what its documentation says:
  it overwrites the parity shards with a function of the data shards, and refuses more than $2^{16}$ shards.
\<close>

definition encode_laws :: "(bytes list \<Rightarrow> nat \<Rightarrow> (bytes list, unit) result) \<Rightarrow> bool" where
  "encode_laws encode \<longleftrightarrow> (\<forall>shards k. length shards = 2 * k \<longrightarrow> 0 < k \<longrightarrow> (\<forall>s \<in> set shards. length s = SHARE_SIZE) \<longrightarrow>
     (\<exists>parity. length parity = k \<and> (\<forall>s \<in> set parity. length s = SHARE_SIZE) \<and>
        (\<forall>old. length old = k \<longrightarrow> (\<forall>s \<in> set old. length s = SHARE_SIZE) \<longrightarrow>
           encode (take k shards @ old) k = (if k \<le> 2 ^ 15 then Inr (take k shards @ parity) else Inl ()))))"

definition codeword :: "(bytes list \<Rightarrow> nat \<Rightarrow> (bytes list, unit) result) \<Rightarrow> nat \<Rightarrow> bytes list \<Rightarrow> bool" where
  "codeword encode k l \<longleftrightarrow> encode (take k l @ replicate k (replicate SHARE_SIZE 0)) k = Inr l"

definition good_line :: "nat \<Rightarrow> bytes list \<Rightarrow> bool" where
  "good_line n l \<longleftrightarrow> length l = n \<and> (\<forall>s \<in> set l. length s = SHARE_SIZE)"

lemma encode_parity:
  assumes "encode_laws encode" "good_line (2 * k) l" "0 < k"
  obtains parity where "good_line k parity" "encode l k = (if k \<le> 2 ^ 15 then Inr (take k l @ parity) else Inl ())"
    "k \<le> 2 ^ 15 \<longrightarrow> codeword encode k (take k l @ parity)"
proof -
  obtain parity where p: "length parity = k" "\<forall>s \<in> set parity. length s = SHARE_SIZE"
    "\<forall>old. length old = k \<longrightarrow> (\<forall>s \<in> set old. length s = SHARE_SIZE) \<longrightarrow>
       encode (take k l @ old) k = (if k \<le> 2 ^ 15 then Inr (take k l @ parity) else Inl ())"
    using assms(1) [unfolded encode_laws_def, THEN spec, THEN spec, of l k] assms(2,3) unfolding good_line_def by blast
  have "length (drop k l) = k" "\<forall>s \<in> set (drop k l). length s = SHARE_SIZE"
    using assms(2) by (auto simp: good_line_def dest: in_set_dropD)
  then have "encode (take k l @ drop k l) k = (if k \<le> 2 ^ 15 then Inr (take k l @ parity) else Inl ())" using p(3) by blast
  moreover have t: "take k (take k l @ parity) = take k l" using assms(2) by (simp add: good_line_def)
  have "k \<le> 2 ^ 15 \<longrightarrow> codeword encode k (take k l @ parity)"
    using p(3) [THEN spec, of "replicate k (replicate SHARE_SIZE 0)"] unfolding codeword_def t by simp
  ultimately show ?thesis using p(1,2) by (intro that [of parity]) (simp_all add: good_line_def)
qed

lemma encode_codeword:
  assumes "encode_laws encode" "good_line (2 * k) l" "0 < k" "k \<le> 2 ^ 15" "encode l k = Inr l'"
  shows "codeword encode k l'" "good_line (2 * k) l'" "take k l' = take k l"
proof -
  obtain parity where p: "good_line k parity" "encode l k = (if k \<le> 2 ^ 15 then Inr (take k l @ parity) else Inl ())"
    "k \<le> 2 ^ 15 \<longrightarrow> codeword encode k (take k l @ parity)" by (rule encode_parity [OF assms(1-3)])
  have l': "l' = take k l @ parity" using p(2) assms(4,5) by simp
  show "codeword encode k l'" using p(3) assms(4) l' by blast
  show "good_line (2 * k) l'" "take k l' = take k l" using l' p(1) assms(2)
    by (auto simp: good_line_def dest: in_set_takeD)
qed

lemma encode_bound:
  assumes "encode_laws encode" "good_line (2 * k) l" "0 < k"
  shows "is_ok (encode l k) \<longleftrightarrow> k \<le> 2 ^ 15"
  by (rule encode_parity [OF assms]) (auto simp: is_ok_iff)

section \<open>Lines of a flat square\<close>

definition row_line :: "nat \<Rightarrow> 'a list \<Rightarrow> nat \<Rightarrow> 'a list" where
  "row_line w s r = map (\<lambda>c. s ! (r * w + c)) [0..<w]"

definition col_line :: "nat \<Rightarrow> 'a list \<Rightarrow> nat \<Rightarrow> 'a list" where
  "col_line w s c = map (\<lambda>r. s ! (r * w + c)) [0..<w]"

lemma line_nth [simp]: "c < w \<Longrightarrow> row_line w s r ! c = s ! (r * w + c)" "r < w \<Longrightarrow> col_line w s c ! r = s ! (r * w + c)"
  by (simp_all add: row_line_def col_line_def)

lemma line_length [simp]: "length (row_line w s r) = w" "length (col_line w s c) = w"
  by (simp_all add: row_line_def col_line_def)

lemma chunk_row_line: "r < w \<Longrightarrow> length s = w * w \<Longrightarrow> take w (drop (r * w) s) = row_line w s r"
proof -
  assume a: "r < w" "length s = w * w"
  have "(r + 1) * w \<le> w * w" using a(1) by (intro mult_le_mono1) simp
  then show ?thesis using a by (intro nth_equalityI) auto
qed

lemma good_lines:
  assumes "good_line (w * w) s" "i < w"
  shows "good_line w (row_line w s i)" "good_line w (col_line w s i)"
  using assms index_less [of _ w] unfolding good_line_def by (auto simp: row_line_def col_line_def)

lemma encode_row_line:
  assumes "encode_laws encode" "0 < k" "k \<le> 2 ^ 15" "good_line (w * w) s" "r < w" "encode_row encode w k s r = Inr s'" "w = 2 * k"
  shows "good_line (w * w) s'" "encode (row_line w s r) k = Inr (row_line w s' r)"
    "\<forall>j < w. j \<noteq> r \<longrightarrow> row_line w s' j = row_line w s j"
proof -
  have len: "length s = w * w" using assms(4) by (simp add: good_line_def)
  obtain enc where e: "encode (row_line w s r) k = Inr enc" "s' = take (r * w) s @ enc @ drop ((r + 1) * w) s"
    using assms(6) chunk_row_line [OF assms(5) len] by (auto simp: encode_row_def try_bind_Inr_iff)
  note enc = encode_codeword(2) [OF assms(1) good_lines(1) [OF assms(4,5), unfolded assms(7)] assms(2,3) e(1) [unfolded assms(7)], folded assms(7)]
  have le: "(r + 1) * w \<le> w * w" using assms(5) by (intro mult_le_mono1) simp
  have lens: "length enc = w" "length (take (r * w) s) = r * w" using enc len le by (simp_all add: good_line_def)
  show "good_line (w * w) s'" using e(2) enc assms(4) le
    by (auto simp: good_line_def dest: in_set_takeD in_set_dropD)
  have nth: "s' ! (j * w + c) = (if j = r then enc ! c else s ! (j * w + c))" if "j < w" "c < w" for j c
  proof -
    consider "j < r" | "j = r" | "r < j" by linarith
    then show ?thesis
    proof cases
      case 1
      then have "(j + 1) * w \<le> r * w" by (intro mult_le_mono1) simp
      then have "j * w + c < r * w" using that(2) by simp
      then show ?thesis using 1 lens e(2) by (simp add: nth_append)
    next
      case 2 then show ?thesis using lens that(2) e(2) by (simp add: nth_append)
    next
      case 3
      then have a: "(r + 1) * w \<le> j * w" by (intro mult_le_mono1) simp
      have "j * w + c < length s" using index_less [OF that] len by simp
      moreover have "drop ((r + 1) * w) s ! (j * w + c - r * w - w) = s ! (j * w + c)"
        using a len le by (subst nth_drop) (simp_all add: algebra_simps)
      moreover have "\<not> j * w + c - r * w < w" "\<not> j * w + c < r * w" using a by (simp_all add: algebra_simps)
      ultimately show ?thesis using 3 lens unfolding e(2) nth_append by simp
    qed
  qed
  have "row_line w s' r = enc" by (rule nth_equalityI) (use nth assms(5) lens(1) in simp_all)
  then show "encode (row_line w s r) k = Inr (row_line w s' r)" using e(1) by simp
  show "\<forall>j < w. j \<noteq> r \<longrightarrow> row_line w s' j = row_line w s j"
    by (intro allI impI nth_equalityI) (use nth in simp_all)
qed

lemma encode_col_line:
  assumes "encode_laws encode" "0 < k" "k \<le> 2 ^ 15" "good_line (w * w) s" "c < w" "encode_col encode w k s c = Inr s'" "w = 2 * k"
  shows "good_line (w * w) s'" "encode (col_line w s c) k = Inr (col_line w s' c)"
    "\<forall>j < w. j \<noteq> c \<longrightarrow> col_line w s' j = col_line w s j"
proof -
  have len: "length s = w * w" using assms(4) by (simp add: good_line_def)
  have col: "map (\<lambda>row. s ! flatten_index row c w) [0..<w] = col_line w s c" by (simp add: col_line_def flatten_index_def)
  obtain enc where e: "encode (col_line w s c) k = Inr enc"
    "s' = map (\<lambda>i. if i mod w = c then enc ! (i div w) else s ! i) [0..<length s]"
    using assms(6) unfolding encode_col_def col by (auto simp: try_bind_Inr_iff)
  note enc = encode_codeword(2) [OF assms(1) good_lines(2) [OF assms(4,5), unfolded assms(7)] assms(2,3) e(1) [unfolded assms(7)], folded assms(7)]
  show "good_line (w * w) s'" unfolding good_line_def
  proof (intro conjI ballI)
    show "length s' = w * w" using e(2) len by simp
    fix x assume "x \<in> set s'"
    then obtain i where i: "i < w * w" "x = (if i mod w = c then enc ! (i div w) else s ! i)" using e(2) len by auto
    then have "i div w < w" using index_split by blast
    then show "length x = SHARE_SIZE" using i enc assms(4) unfolding good_line_def by (cases "i mod w = c") simp_all
  qed
  have nth: "s' ! (r * w + j) = (if j = c then enc ! r else s ! (r * w + j))" if "r < w" "j < w" for r j
  proof -
    have "r * w + j < length s" using index_less [OF that] len by simp
    moreover have "(r * w + j) mod w = j" "(r * w + j) div w = r" using that(2) by simp_all
    ultimately show ?thesis unfolding e(2) by auto
  qed
  have "col_line w s' c = enc" by (rule nth_equalityI) (use nth assms(5) enc in \<open>simp_all add: good_line_def\<close>)
  then show "encode (col_line w s c) k = Inr (col_line w s' c)" using e(1) by simp
  show "\<forall>j < w. j \<noteq> c \<longrightarrow> col_line w s' j = col_line w s j"
    by (intro allI impI nth_equalityI) (use nth in simp_all)
qed

lemma encode_all_lines:
  assumes "\<And>s i s'. P s \<Longrightarrow> i < w \<Longrightarrow> step s i = Inr s' \<Longrightarrow>
      P s' \<and> enc (line s i) = Inr (line s' i) \<and> (\<forall>j < w. j \<noteq> i \<longrightarrow> line s' j = line s j)"
    and "distinct is" "\<forall>i \<in> set is. i < (w :: nat)" "P s" "encode_all step is s = Inr s'"
  shows "P s' \<and> (\<forall>i \<in> set is. enc (line s i) = Inr (line s' i)) \<and> (\<forall>j < w. j \<notin> set is \<longrightarrow> line s' j = line s j)"
  using assms(2-5)
proof (induction "is" arbitrary: s)
  case (Cons i "is")
  obtain u where u: "step s i = Inr u" "encode_all step is u = Inr s'" using Cons.prems by (auto simp: try_bind_Inr_iff)
  from assms(1) [OF Cons.prems(3) _ u(1)] Cons.prems(2)
  have p: "P u" "enc (line s i) = Inr (line u i)" "\<forall>j < w. j \<noteq> i \<longrightarrow> line u j = line s j" by auto
  have "P s' \<and> (\<forall>j \<in> set is. enc (line u j) = Inr (line s' j)) \<and> (\<forall>j < w. j \<notin> set is \<longrightarrow> line s' j = line u j)"
    using Cons.IH [OF _ _ p(1) u(2)] Cons.prems by simp
  then show ?case using p Cons.prems by fastforce
qed simp

section \<open>Extending a square\<close>

definition padded_square :: "nat \<Rightarrow> bytes list \<Rightarrow> bytes list" where
  "padded_square k ods =
     (let rows = concat (map (\<lambda>row. take k (drop (row * k) ods) @ replicate k (replicate SHARE_SIZE 0)) [0..<k]) in
      rows @ replicate (k * 2 * (k * 2) - length rows) (replicate SHARE_SIZE 0))"

lemma padded_square:
  assumes "good_line (k * k) ods" "w = 2 * k"
  shows "good_line (w * w) (padded_square k ods)" "r < k \<Longrightarrow> c < k \<Longrightarrow> padded_square k ods ! (r * w + c) = ods ! (r * k + c)"
proof -
  let ?rows = "map (\<lambda>row. take k (drop (row * k) ods) @ replicate k (replicate SHARE_SIZE (0 :: byte))) [0..<k]"
  have len: "length ods = k * k" using assms(1) by (simp add: good_line_def)
  have chunk: "take k (drop (row * k) ods) = row_line k ods row" if "row < k" for row using chunk_row_line [OF that len] .
  have u: "\<forall>row \<in> set ?rows. length row = w" using chunk assms(2) by auto
  have lr: "length (concat ?rows) = k * w" using length_concat_uniform [OF u] by simp
  have le: "k * w \<le> w * w" using assms(2) by simp
  have ww: "k * 2 * (k * 2) = w * w" using assms(2) by simp
  show "good_line (w * w) (padded_square k ods)" using lr le ww assms(1) unfolding good_line_def padded_square_def Let_def
    by (auto dest: in_set_takeD in_set_dropD)
  assume rc: "r < k" "c < k"
  have "r * w + c < k * w"
  proof -
    have "(r + 1) * w \<le> k * w" using rc(1) by (intro mult_le_mono1) simp
    then show ?thesis using rc(2) assms(2) by simp
  qed
  then have "padded_square k ods ! (r * w + c) = concat ?rows ! (r * w + c)"
    using lr unfolding padded_square_def Let_def by (subst nth_append) simp
  also have "\<dots> = ?rows ! r ! c" using rc assms(2) by (intro nth_concat_uniform [OF u]) auto
  also have "\<dots> = ods ! (r * k + c)" using rc chunk [OF rc(1)] by (simp add: nth_append)
  finally show "padded_square k ods ! (r * w + c) = ods ! (r * k + c)" .
qed

lemma from_ods_steps:
  assumes "from_ods encode ods v = Inr e"
  obtains k s1 s2 s3 where "length ods = k * k"
    "encode_all (encode_row encode (k * 2) k) [0..<k] (padded_square k ods) = Inr s1"
    "encode_all (encode_col encode (k * 2) k) [0..<k] s1 = Inr s2"
    "encode_all (encode_row encode (k * 2) k) [k..<k * 2] s2 = Inr s3" "eds_new s3 ''Leopard'' v = Inr e"
proof -
  let ?k = "floor_sqrt (length ods)"
  have "?k * ?k = length ods" using assms by (auto simp: from_ods_def Let_def split: if_splits)
  then show ?thesis using assms that [of ?k]
    by (auto simp: from_ods_def Let_def padded_square_def [unfolded Let_def] try_bind_Inr_iff split: if_splits)
qed

lemma row_phase:
  assumes "encode_laws encode" "0 < k" "k \<le> 2 ^ 15" "w = 2 * k" "good_line (w * w) s"
    "distinct is" "\<forall>i \<in> set is. i < w" "encode_all (encode_row encode w k) is s = Inr s'"
  shows "good_line (w * w) s'" "\<forall>i \<in> set is. codeword encode k (row_line w s' i)"
    "r < w \<Longrightarrow> c < w \<Longrightarrow> r \<notin> set is \<or> c < k \<Longrightarrow> s' ! (r * w + c) = s ! (r * w + c)"
proof -
  have p: "good_line (w * w) s' \<and> (\<forall>i \<in> set is. encode (row_line w s i) k = Inr (row_line w s' i)) \<and>
      (\<forall>j < w. j \<notin> set is \<longrightarrow> row_line w s' j = row_line w s j)"
    by (rule encode_all_lines [where P = "good_line (w * w)" and enc = "\<lambda>l. encode l k", OF _ assms(6,7,5,8)])
      (use encode_row_line [OF assms(1-3) _ _ _ assms(4)] in blast)
  have cw: "codeword encode k (row_line w s' i)" "take k (row_line w s' i) = take k (row_line w s i)" if "i \<in> set is" for i
    using encode_codeword [OF assms(1) good_lines(1) [OF assms(5), of i, unfolded assms(4)] assms(2,3), folded assms(4)] p that assms(7)
    by auto
  show "good_line (w * w) s'" "\<forall>i \<in> set is. codeword encode k (row_line w s' i)" using p cw(1) by auto
  assume rc: "r < w" "c < w" "r \<notin> set is \<or> c < k"
  have "row_line w s' r ! c = row_line w s r ! c"
  proof (cases "r \<in> set is")
    case True
    then have "take k (row_line w s' r) ! c = take k (row_line w s r) ! c" using cw(2) by simp
    then show ?thesis using rc True by simp
  qed (use p rc in simp)
  then show "s' ! (r * w + c) = s ! (r * w + c)" using rc by simp
qed

lemma col_phase:
  assumes "encode_laws encode" "0 < k" "k \<le> 2 ^ 15" "w = 2 * k" "good_line (w * w) s"
    "distinct is" "\<forall>i \<in> set is. i < w" "encode_all (encode_col encode w k) is s = Inr s'"
  shows "good_line (w * w) s'" "\<forall>i \<in> set is. codeword encode k (col_line w s' i)"
    "r < w \<Longrightarrow> c < w \<Longrightarrow> c \<notin> set is \<or> r < k \<Longrightarrow> s' ! (r * w + c) = s ! (r * w + c)"
proof -
  have p: "good_line (w * w) s' \<and> (\<forall>i \<in> set is. encode (col_line w s i) k = Inr (col_line w s' i)) \<and>
      (\<forall>j < w. j \<notin> set is \<longrightarrow> col_line w s' j = col_line w s j)"
    by (rule encode_all_lines [where P = "good_line (w * w)" and enc = "\<lambda>l. encode l k", OF _ assms(6,7,5,8)])
      (use encode_col_line [OF assms(1-3) _ _ _ assms(4)] in blast)
  have cw: "codeword encode k (col_line w s' i)" "take k (col_line w s' i) = take k (col_line w s i)" if "i \<in> set is" for i
    using encode_codeword [OF assms(1) good_lines(2) [OF assms(5), of i, unfolded assms(4)] assms(2,3), folded assms(4)] p that assms(7)
    by auto
  show "good_line (w * w) s'" "\<forall>i \<in> set is. codeword encode k (col_line w s' i)" using p cw(1) by auto
  assume rc: "r < w" "c < w" "c \<notin> set is \<or> r < k"
  have "col_line w s' c ! r = col_line w s c ! r"
  proof (cases "c \<in> set is")
    case True
    then have "take k (col_line w s' c) ! r = take k (col_line w s c) ! r" using cw(2) by simp
    then show ?thesis using rc True by simp
  qed (use p rc in simp)
  then show "s' ! (r * w + c) = s ! (r * w + c)" using rc by simp
qed

lemma square_lines:
  assumes "encode_laws encode" "0 < k" "k \<le> 2 ^ 15" "w = 2 * k" "good_line (w * w) s0"
    "encode_all (encode_row encode w k) [0..<k] s0 = Inr s1"
    "encode_all (encode_col encode w k) [0..<k] s1 = Inr s2"
    "encode_all (encode_row encode w k) [k..<w] s2 = Inr s3"
  shows "good_line (w * w) s3" "\<forall>r < w. codeword encode k (row_line w s3 r)" "\<forall>c < k. codeword encode k (col_line w s3 c)"
    "\<forall>r < k. \<forall>c < k. s3 ! (r * w + c) = s0 ! (r * w + c)"
proof -
  have k: "distinct [0..<k]" "\<forall>i \<in> set [0..<k]. i < w" "distinct [k..<w]" "\<forall>i \<in> set [k..<w]. i < w" using assms(4) by auto
  note p1 = row_phase [OF assms(1-5) k(1,2) assms(6)]
  note p2 = col_phase [OF assms(1-4) p1(1) k(1,2) assms(7)]
  note p3 = row_phase [OF assms(1-4) p2(1) k(3,4) assms(8)]
  show "good_line (w * w) s3" by (rule p3(1))
  have "row_line w s3 r = row_line w s1 r" if "r < k" for r
    by (rule nth_equalityI) (use p3(3) p2(3) that assms(4) in auto)
  then show "\<forall>r < w. codeword encode k (row_line w s3 r)" using p1(2) p3(2) by (metis atLeastLessThan_iff not_le set_upt le0)
  have "col_line w s3 c = col_line w s2 c" if "c < k" for c
    by (rule nth_equalityI) (use p3(3) that assms(4) in auto)
  then show "\<forall>c < k. codeword encode k (col_line w s3 c)" using p2(2) by simp
  show "\<forall>r < k. \<forall>c < k. s3 ! (r * w + c) = s0 ! (r * w + c)"
    using p1(3) p2(3) p3(3) assms(4) by simp
qed

lemma row_bytes:
  assumes "eds_ok e" "i < eds_square_width e" "map sh_data (eds_data_square e) = s"
  shows "map share_to_vec (axis_cells e Row i) = row_line (eds_square_width e) s i"
    "map share_to_vec (axis_cells e Col i) = col_line (eds_square_width e) s i"
    "j < eds_square_width e \<Longrightarrow> share_to_vec (cell e i j) = s ! (i * eds_square_width e + j)"
proof -
  have n: "share_to_vec (cell e r c) = s ! (r * eds_square_width e + c)" if "r < eds_square_width e" "c < eds_square_width e" for r c
    using index_less [OF that] eds_okD(2) [OF assms(1)] assms(3) by (auto simp: cell_def share_to_vec_def)
  show "map share_to_vec (axis_cells e Row i) = row_line (eds_square_width e) s i"
    "map share_to_vec (axis_cells e Col i) = col_line (eds_square_width e) s i"
    using n assms(2) by (auto simp: axis_cells_def row_line_def col_line_def)
  show "j < eds_square_width e \<Longrightarrow> share_to_vec (cell e i j) = s ! (i * eds_square_width e + j)" using n assms(2) by simp
qed

lemma from_ods_square:
  assumes "encode_laws encode" "\<forall>s \<in> set ods. length s = SHARE_SIZE" "from_ods encode ods v = Inr e"
  obtains k where "eds_ok e" "eds_square_width e = 2 * k" "length ods = k * k" "0 < k" "k \<le> 128"
    "\<forall>r < k. \<forall>c < k. share_to_vec (cell e r c) = ods ! (r * k + c)"
    "\<forall>i < 2 * k. codeword encode k (map share_to_vec (axis_cells e Row i))"
    "\<forall>i < k. codeword encode k (map share_to_vec (axis_cells e Col i))"
proof -
  obtain k s1 s2 s3 where s: "length ods = k * k"
    "encode_all (encode_row encode (k * 2) k) [0..<k] (padded_square k ods) = Inr s1"
    "encode_all (encode_col encode (k * 2) k) [0..<k] s1 = Inr s2"
    "encode_all (encode_row encode (k * 2) k) [k..<k * 2] s2 = Inr s3" "eds_new s3 ''Leopard'' v = Inr e"
    by (rule from_ods_steps [OF assms(3)])
  have e: "eds_ok e" "map sh_data (eds_data_square e) = s3" using eds_new_ok [OF s(5)] by auto
  note steps = s(2-4) [unfolded mult.commute [of k 2]]
  have good: "good_line (k * k) ods" using s(1) assms(2) by (simp add: good_line_def)
  note pad = padded_square [OF good refl]
  have k0: "0 < k"
  proof (rule ccontr)
    assume "\<not> 0 < k"
    then have "s3 = []" using s(2-4) by (simp add: padded_square_def)
    then show False using s(5) by (simp add: eds_new_def MIN_EXTENDED_SQUARE_WIDTH_def)
  qed
  have "\<exists>u. encode_row encode (2 * k) k (padded_square k ods) 0 = Inr u"
    using steps(1) unfolding upt_conv_Cons [OF k0] by (auto simp: try_bind_Inr_iff)
  then have "is_ok (encode (row_line (2 * k) (padded_square k ods) 0) k)"
    using chunk_row_line [of 0 "2 * k" "padded_square k ods"] pad(1) k0
    by (auto simp: encode_row_def try_bind_Inr_iff good_line_def is_ok_iff)
  then have k15: "k \<le> 2 ^ 15" using encode_bound [OF assms(1) good_lines(1) [OF pad(1)] k0, of 0] k0 by simp
  note sq = square_lines [OF assms(1) k0 k15 refl pad(1) steps]
  have w: "eds_square_width e = 2 * k"
  proof -
    have "eds_square_width e * eds_square_width e = 2 * k * (2 * k)"
      using eds_okD(2) [OF e(1)] e(2) sq(1) unfolding good_line_def by (metis length_map)
    then show ?thesis by (metis floor_sqrt_square)
  qed
  note bytes = row_bytes [OF e(1) _ e(2), unfolded w]
  have "2 * k \<le> 256" using eds_okD(1) [OF e(1)] w by (simp add: square_width_iff)
  then show ?thesis using bytes sq(2-4) pad(2) by (intro that [OF e(1) w s(1) k0]) auto
qed

section \<open>Which squares can be extended\<close>

text \<open>The original square: a power of two wide, its shares with valid namespaces in order along rows and columns.\<close>

definition ods_namespace :: "nat \<Rightarrow> bytes list \<Rightarrow> nat \<Rightarrow> nat \<Rightarrow> namespace" where
  "ods_namespace k ods r c = Namespace (take NS_SIZE (ods ! (r * k + c)))"

definition ods_ok :: "nat \<Rightarrow> bytes list \<Rightarrow> bool" where
  "ods_ok k ods \<longleftrightarrow> width_ok (2 * k) \<and> length ods = k * k \<and> (\<forall>d \<in> set ods. valid_namespace (take NS_SIZE d)) \<and>
     (\<forall>r < k. sorted (map (\<lambda>c. ods_namespace k ods r c) [0..<k])) \<and> (\<forall>c < k. sorted (map (\<lambda>r. ods_namespace k ods r c) [0..<k]))"

lemma lex_le_max: "length xs \<le> n \<Longrightarrow> lexordp_eq xs (replicate n (255 :: byte))"
proof (induction xs arbitrary: n)
  case (Cons x xs)
  then obtain m where m: "n = Suc m" "length xs \<le> m" by (cases n) auto
  have "unat (255 :: byte) = 255" by simp
  then have "unat x \<le> unat (255 :: byte)" using unat_byte_less [of x] by linarith
  then have "x \<le> 255" unfolding word_le_nat_alt .
  then have "x < 255 \<or> x = 255" by (auto simp: order_le_less)
  then show ?case using Cons.IH [OF m(2)] m(1) by auto
qed simp

lemma parity_greatest: "length (as_bytes ns) \<le> 29 \<Longrightarrow> ns \<le> PARITY_SHARE"
  using lex_le_max [of "as_bytes ns" 29]
  by (simp add: less_eq_namespace_def PARITY_SHARE_def const_v255_def numeral_eq_Suc)

lemma sorted_then_max:
  assumes "sorted (map g [0..<k])" "\<forall>c < k. g c \<le> (m :: 'a :: linorder)"
  shows "sorted (map (\<lambda>c. if c < k then g c else m) [0..<n])"
proof (unfold sorted_iff_nth_mono, intro allI impI)
  fix i j assume ij: "i \<le> j" "j < length (map (\<lambda>c. if c < k then g c else m) [0..<n])"
  have "g i \<le> g j" if "j < k" using assms(1) ij(1) that by (auto simp: sorted_iff_nth_mono)
  then show "map (\<lambda>c. if c < k then g c else m) [0..<n] ! i \<le> map (\<lambda>c. if c < k then g c else m) [0..<n] ! j"
    using ij assms(2) by auto
qed

lemma encode_all_ok:
  assumes "\<And>s i. P s \<Longrightarrow> i \<in> set is \<Longrightarrow> \<exists>s'. step s i = Inr s' \<and> P s'" "P s"
  shows "\<exists>s'. encode_all step is s = Inr s' \<and> P s'"
  using assms
proof (induction "is" arbitrary: s)
  case (Cons i "is")
  obtain u where "step s i = Inr u" "P u" using Cons.prems by (meson list.set_intros(1))
  then show ?case using Cons.IH [of u] Cons.prems(1) by simp
qed simp

lemma encode_rows_ok:
  assumes "encode_laws encode" "0 < k" "k \<le> 2 ^ 15" "w = 2 * k" "good_line (w * w) s" "\<forall>i \<in> set is. i < w"
  shows "\<exists>s'. encode_all (encode_row encode w k) is s = Inr s' \<and> good_line (w * w) s'"
    "\<exists>s'. encode_all (encode_col encode w k) is s = Inr s' \<and> good_line (w * w) s'"
proof -
  have "\<exists>s'. encode_row encode w k s i = Inr s' \<and> good_line (w * w) s'" if "good_line (w * w) s" "i \<in> set is" for s i
  proof -
    have i: "i < w" using assms(6) that(2) by blast
    have "is_ok (encode (row_line w s i) k)"
      using encode_bound [OF assms(1) good_lines(1) [OF that(1) i, unfolded assms(4)] assms(2)] assms(3,4) by simp
    moreover have "take w (drop (i * w) s) = row_line w s i" using chunk_row_line [OF i, of s] that(1) by (simp add: good_line_def)
    ultimately obtain s' where "encode_row encode w k s i = Inr s'" by (auto simp: encode_row_def is_ok_iff)
    then show ?thesis using encode_row_line(1) [OF assms(1-3) that(1) i _ assms(4)] by blast
  qed
  then show "\<exists>s'. encode_all (encode_row encode w k) is s = Inr s' \<and> good_line (w * w) s'"
    by (rule encode_all_ok [where P = "good_line (w * w)", OF _ assms(5)])
  have "\<exists>s'. encode_col encode w k s i = Inr s' \<and> good_line (w * w) s'" if "good_line (w * w) s" "i \<in> set is" for s i
  proof -
    have i: "i < w" using assms(6) that(2) by blast
    have col: "map (\<lambda>row. s ! flatten_index row i w) [0..<w] = col_line w s i" by (simp add: col_line_def flatten_index_def)
    have "is_ok (encode (col_line w s i) k)"
      using encode_bound [OF assms(1) good_lines(2) [OF that(1) i, unfolded assms(4)] assms(2)] assms(3,4) by simp
    then obtain s' where "encode_col encode w k s i = Inr s'" unfolding encode_col_def col by (auto simp: is_ok_iff)
    then show ?thesis using encode_col_line(1) [OF assms(1-3) that(1) i _ assms(4)] by blast
  qed
  then show "\<exists>s'. encode_all (encode_col encode w k) is s = Inr s' \<and> good_line (w * w) s'"
    by (rule encode_all_ok [where P = "good_line (w * w)", OF _ assms(5)])
qed

lemma square_accepted:
  assumes "ods_ok k ods" "w = 2 * k" "good_line (w * w) s" "\<forall>r < k. \<forall>c < k. s ! (r * w + c) = ods ! (r * k + c)"
  shows "is_ok (eds_new s codec v)"
proof -
  let ?sh = "\<lambda>i. \<lparr> sh_data = s ! i, sh_parity = \<not> (i div w < k \<and> i mod w < k) \<rparr>"
  let ?e = "\<lparr> eds_data_square = map ?sh [0..<w * w], eds_codec = codec, eds_square_width = w \<rparr>"
  have len: "length s = w * w" and lens: "\<forall>x \<in> set s. length x = SHARE_SIZE" using assms(3) by (auto simp: good_line_def)
  have cell: "cell ?e r c = \<lparr> sh_data = s ! (r * w + c), sh_parity = \<not> (r < k \<and> c < k) \<rparr>" if "r < w" "c < w" for r c
    using index_less [OF that] that by (simp add: cell_def)
  have k: "k * k = length ods" "\<forall>d \<in> set ods. valid_namespace (take NS_SIZE d)" using assms(1) by (auto simp: ods_ok_def)
  have valid: "valid_namespace (take NS_SIZE (s ! (r * w + c)))" if "r < k" "c < k" for r c
    using k index_less [OF that] assms(4) that by auto
  have ok: "share_ok (cell ?e r c)" if "r < w" "c < w" for r c
    using cell [OF that] valid [of r c] lens len index_less [OF that] by (simp add: share_ok_def)
  have ns: "share_namespace (cell ?e r c) = (if r < k \<and> c < k then ods_namespace k ods r c else PARITY_SHARE)" if "r < w" "c < w" for r c
    using cell [OF that] assms(4) by (simp add: share_namespace_def ods_namespace_def)
  have max: "ods_namespace k ods r c \<le> PARITY_SHARE" for r c by (rule parity_greatest) (simp add: ods_namespace_def)
  have "sorted (map (\<lambda>c. share_namespace (cell ?e r c)) [0..<w])" if "r < w" for r
  proof -
    have "map (\<lambda>c. share_namespace (cell ?e r c)) [0..<w] =
        (if r < k then map (\<lambda>c. if c < k then ods_namespace k ods r c else PARITY_SHARE) [0..<w] else replicate w PARITY_SHARE)"
      by (rule nth_equalityI) (use ns that in auto)
    then show ?thesis using sorted_then_max [of "ods_namespace k ods r" k PARITY_SHARE w] assms(1) max by (auto simp: ods_ok_def)
  qed
  moreover have "sorted (map (\<lambda>r. share_namespace (cell ?e r c)) [0..<w])" if "c < w" for c
  proof -
    have "map (\<lambda>r. share_namespace (cell ?e r c)) [0..<w] =
        (if c < k then map (\<lambda>r. if r < k then ods_namespace k ods r c else PARITY_SHARE) [0..<w] else replicate w PARITY_SHARE)"
      by (rule nth_equalityI) (use ns that in auto)
    then show ?thesis using sorted_then_max [of "\<lambda>r. ods_namespace k ods r c" k PARITY_SHARE w] assms(1) max by (auto simp: ods_ok_def)
  qed
  ultimately have "eds_ok ?e" using ok cell assms(1,2) unfolding eds_ok_def by (simp add: ods_ok_def)
  moreover have "map sh_data (eds_data_square ?e) = s" using len by (simp add: comp_def) (metis map_nth)
  ultimately show ?thesis using eds_ok_new [of ?e v] by (simp add: is_ok_iff)
qed

lemma square_original:
  assumes "eds_ok e" "eds_square_width e = 2 * k" "length ods = k * k" "\<forall>r < k. \<forall>c < k. share_to_vec (cell e r c) = ods ! (r * k + c)"
  shows "ods_ok k ods"
proof -
  have data: "share_namespace (cell e r c) = ods_namespace k ods r c" "valid_namespace (take NS_SIZE (ods ! (r * k + c)))" if "r < k" "c < k" for r c
    using eds_okD(3,4) [OF assms(1), of r c] that assms(2,4)
    by (auto simp: share_namespace_def ods_namespace_def share_to_vec_def share_ok_def)
  have "sorted (map (\<lambda>c. ods_namespace k ods r c) [0..<k]) \<and> sorted (map (\<lambda>c. ods_namespace k ods c r) [0..<k])" if "r < k" for r
  proof -
    have "take k (map share_namespace (axis_cells e Row r)) = map (\<lambda>c. ods_namespace k ods r c) [0..<k]"
      "take k (map share_namespace (axis_cells e Col r)) = map (\<lambda>c. ods_namespace k ods c r) [0..<k]"
      using data(1) that assms(2) by (auto simp: axis_cells_def take_map)
    then show ?thesis using eds_okD(5) [OF assms(1), of r] that assms(2) by (metis sorted_wrt_take trans_less_add1 mult_2)
  qed
  moreover have "\<forall>d \<in> set ods. valid_namespace (take NS_SIZE d)"
    unfolding all_set_conv_all_nth assms(3) using data(2) index_split by metis
  ultimately show ?thesis using eds_okD(1) [OF assms(1)] assms(2,3) by (simp add: ods_ok_def)
qed

lemma from_ods_ok:
  assumes "encode_laws encode" "\<forall>s \<in> set ods. length s = SHARE_SIZE" "ods_ok k ods"
  shows "is_ok (from_ods encode ods v)"
proof -
  have k: "length ods = k * k" "2 * k \<le> 256" "0 < k" using assms(3) by (auto simp: ods_ok_def square_width_iff)
  then have good: "good_line (k * k) ods" and k15: "k \<le> 2 ^ 15" using assms(2) by (simp_all add: good_line_def)
  note pad = padded_square [OF good refl]
  note phases = encode_rows_ok [OF assms(1) k(3) k15 refl]
  obtain s1 where s1: "encode_all (encode_row encode (2 * k) k) [0..<k] (padded_square k ods) = Inr s1" "good_line (2 * k * (2 * k)) s1"
    using phases(1) [OF pad(1), of "[0..<k]"] by auto
  obtain s2 where s2: "encode_all (encode_col encode (2 * k) k) [0..<k] s1 = Inr s2" "good_line (2 * k * (2 * k)) s2"
    using phases(2) [OF s1(2), of "[0..<k]"] by auto
  obtain s3 where s3: "encode_all (encode_row encode (2 * k) k) [k..<2 * k] s2 = Inr s3"
    using phases(1) [OF s2(2), of "[k..<2 * k]"] by auto
  note sq = square_lines [OF assms(1) k(3) k15 refl pad(1) s1(1) s2(1) s3]
  have "is_ok (eds_new s3 ''Leopard'' v)" using sq(1,4) pad(2) by (intro square_accepted [OF assms(3) refl]) auto
  then show ?thesis using s1(1) s2(1) s3 k(1,3)
    by (simp add: from_ods_def floor_sqrt_square padded_square_def Let_def mult.commute [of k 2])
qed

text \<open>
  (C15) Extending a square, \<open>ExtendedDataSquare::from_ods\<close>: it succeeds exactly for the shares of a square whose width is a
  power of two up to 128, with valid namespaces that do not decrease along rows and columns. The result is a well-formed
  extended square with the original shares in its first quadrant, in which every row and every column of the first half
  is a code word of the erasure code.
\<close>

theorem from_ods_extends:
  assumes "encode_laws encode" "\<forall>s \<in> set ods. length s = SHARE_SIZE"
  shows "(is_ok (from_ods encode ods v) \<longleftrightarrow> (\<exists>k. ods_ok k ods)) \<and>
    (\<forall>e. from_ods encode ods v = Inr e \<longrightarrow> (\<exists>k. eds_ok e \<and> eds_square_width e = 2 * k \<and> length ods = k * k \<and>
       (\<forall>r < k. \<forall>c < k. share_to_vec (cell e r c) = ods ! (r * k + c)) \<and>
       (\<forall>i < 2 * k. codeword encode k (map share_to_vec (axis_cells e Row i))) \<and>
       (\<forall>i < k. codeword encode k (map share_to_vec (axis_cells e Col i)))))"
proof (intro conjI iffI allI impI)
  show "\<exists>k. ods_ok k ods" if ok: "is_ok (from_ods encode ods v)"
  proof -
    obtain e where "from_ods encode ods v = Inr e" using ok by (auto simp: is_ok_iff)
    then show ?thesis using from_ods_square [OF assms, of v e] square_original by metis
  qed
  show "is_ok (from_ods encode ods v)" if "\<exists>k. ods_ok k ods"
    using that from_ods_ok [OF assms] by blast
  show "\<exists>k. eds_ok e \<and> eds_square_width e = 2 * k \<and> length ods = k * k \<and>
       (\<forall>r < k. \<forall>c < k. share_to_vec (cell e r c) = ods ! (r * k + c)) \<and>
       (\<forall>i < 2 * k. codeword encode k (map share_to_vec (axis_cells e Row i))) \<and>
       (\<forall>i < k. codeword encode k (map share_to_vec (axis_cells e Col i)))" if "from_ods encode ods v = Inr e" for e
    by (rule from_ods_square [OF assms that]) blast
qed

text \<open>The code that leaves parity shards of zeros has the laws, and extends a square of one share.\<close>

definition zero_encode :: "bytes list \<Rightarrow> nat \<Rightarrow> (bytes list, unit) result" where
  "zero_encode shards k = (if k \<le> 2 ^ 15 then Inr (take k shards @ replicate k (replicate SHARE_SIZE 0)) else Inl ())"

lemma zero_encode_laws: "encode_laws zero_encode"
  unfolding encode_laws_def
proof (intro allI impI)
  fix shards :: "bytes list" and k
  assume "length shards = 2 * k" "0 < k" "\<forall>s \<in> set shards. length s = SHARE_SIZE"
  then show "\<exists>parity. length parity = k \<and> (\<forall>s \<in> set parity. length s = SHARE_SIZE) \<and>
        (\<forall>old. length old = k \<longrightarrow> (\<forall>s \<in> set old. length s = SHARE_SIZE) \<longrightarrow>
           zero_encode (take k shards @ old) k = (if k \<le> 2 ^ 15 then Inr (take k shards @ parity) else Inl ()))"
    by (intro exI [of _ "replicate k (replicate SHARE_SIZE 0)"]) (auto simp: zero_encode_def)
qed

definition sample_ods :: "bytes list" where
  "sample_ods = [as_bytes TAIL_PADDING @ replicate 483 0]"

lemma sample_ods_ok: "ods_ok 1 sample_ods"
  by (auto simp: ods_ok_def sample_ods_def width_ok_def TAIL_PADDING_def const_v255_def valid_namespace_def numeral_eq_Suc
      intro: exI [of _ 1])

theorem from_ods_extends_witness:
  "\<exists>e. from_ods zero_encode sample_ods V1 = Inr e \<and> eds_square_width e = 2 \<and> share_to_vec (cell e 0 0) = sample_ods ! 0"
proof -
  have l: "\<forall>s \<in> set sample_ods. length s = SHARE_SIZE" by (simp add: sample_ods_def TAIL_PADDING_def const_v255_def)
  note t = from_ods_extends [OF zero_encode_laws l, of V1]
  obtain e where e: "from_ods zero_encode sample_ods V1 = Inr e" using t sample_ods_ok by (auto simp: is_ok_iff)
  then obtain k where "eds_square_width e = 2 * k" "length sample_ods = k * k"
    "\<forall>r < k. \<forall>c < k. share_to_vec (cell e r c) = sample_ods ! (r * k + c)" using t by blast
  moreover from this(2) have "k = 1" by (simp add: sample_ods_def)
  ultimately show ?thesis using e by simp
qed

end
