(* ===== verification/Shwap_Data.thy ===== *)
theory Shwap_Data
  imports Eds_Extension
begin

text \<open>
  The containers a light node receives: rows (\<^verbatim>\<open>types/src/row.rs\<close>), samples (\<^verbatim>\<open>types/src/sample.rs\<close>) and the
  shares of a namespace in a row (\<^verbatim>\<open>types/src/row_namespace_data.rs\<close>), with the proofs they carry
  (\<^verbatim>\<open>types/src/nmt/namespace_proof.rs\<close>). A container taken from a square verifies against the header of the
  square, and still does after it went over the wire. The protobuf messages are the records \<open>raw_row\<close>,
  \<open>raw_sample\<close>, \<open>raw_namespace_data\<close> and \<open>raw_proof\<close>; their encoding is code of \<open>prost\<close>, the tree is code of
  \<open>nmt_rs\<close> (the record \<open>nmt_lib\<close>) and the erasure code is code of \<open>leopard_codec\<close>: all three are arguments.
\<close>

section \<open>Proofs\<close>

record raw_proof =
  rp_start :: int
  rp_end :: int
  rp_nodes :: "bytes list"
  rp_leaf_hash :: bytes
  rp_is_max_namespace_ignored :: bool

fun proof_leaf :: "namespace_proof \<Rightarrow> namespaced_hash option" where
  "proof_leaf (AbsenceProof _ _ leaf) = leaf" |
  "proof_leaf (PresenceProof _ _) = None"

text \<open>\<open>saturating_sub\<close> is subtraction of naturals; the shift of a \<open>usize\<close> keeps the lowest six bits of the distance.\<close>

definition total_leaves :: "namespace_proof \<Rightarrow> nat option" where
  "total_leaves self =
     (if np_end (np_proof self) - np_start (np_proof self) = 1
      then Some (2 ^ (length (np_siblings (np_proof self)) mod 64)) else None)"

text \<open>The casts of an \<open>i64\<close> to \<open>u32\<close> keep the lowest 32 bits.\<close>

definition as_u32 :: "int \<Rightarrow> nat" where
  "as_u32 x = nat (x mod 2 ^ 32)"

definition proof_try_from ::
  "'t nmt_lib \<Rightarrow> (bytes \<Rightarrow> namespaced_hash option) \<Rightarrow> raw_proof \<Rightarrow> (namespace_proof, types_error) result" where
  "proof_try_from lib parse value =
     try_bind (try_map (hash_from_raw parse) (rp_nodes value)) (\<lambda>siblings.
     let proof = PresenceProof
           \<lparr> np_siblings = siblings, np_start = as_u32 (rp_start value), np_end = as_u32 (rp_end value) \<rparr>
           (rp_is_max_namespace_ignored value) in
     if rp_leaf_hash value \<noteq> [] then
       try_bind (hash_from_raw parse (rp_leaf_hash value)) (\<lambda>leaf. Inr (nl_to_absence lib proof leaf))
     else Inr proof)"

definition proof_into_raw :: "namespace_proof \<Rightarrow> raw_proof" where
  "proof_into_raw value =
     \<lparr> rp_start = int (np_start (np_proof value)), rp_end = int (np_end (np_proof value)),
       rp_nodes = map to_array (np_siblings (np_proof value)),
       rp_leaf_hash = (case proof_leaf value of Some hash \<Rightarrow> to_array hash | None \<Rightarrow> []),
       rp_is_max_namespace_ignored = max_ns_ignored value \<rparr>"

text \<open>The proof message of \<open>celestia.core\<close> has 32-bit bounds and no flag.\<close>

record raw_nmt_proof =
  rn_start :: int
  rn_end :: int
  rn_nodes :: "bytes list"
  rn_leaf_hash :: bytes

definition proof_try_from_nmt ::
  "'t nmt_lib \<Rightarrow> (bytes \<Rightarrow> namespaced_hash option) \<Rightarrow> raw_nmt_proof \<Rightarrow> (namespace_proof, types_error) result" where
  "proof_try_from_nmt lib parse value = proof_try_from lib parse
     \<lparr> rp_start = rn_start value, rp_end = rn_end value, rp_nodes = rn_nodes value,
       rp_leaf_hash = rn_leaf_hash value, rp_is_max_namespace_ignored = True \<rparr>"

definition as_i32 :: "int \<Rightarrow> int" where
  "as_i32 x = (x + 2 ^ 31) mod 2 ^ 32 - 2 ^ 31"

definition proof_into_raw_nmt :: "namespace_proof \<Rightarrow> raw_nmt_proof" where
  "proof_into_raw_nmt value =
     (let raw_proof = proof_into_raw value in
      \<lparr> rn_start = as_i32 (rp_start raw_proof), rn_end = as_i32 (rp_end raw_proof), rn_nodes = rp_nodes raw_proof,
        rn_leaf_hash = rp_leaf_hash raw_proof \<rparr>)"

section \<open>Rows\<close>

record row_data =
  row_shares :: "share list"

definition row_new :: "nat \<Rightarrow> eds \<Rightarrow> (row_data, types_error) result" where
  "row_new index eds = try_bind (eds_row eds index) (\<lambda>shares. Inr \<lparr> row_shares = shares \<rparr>)"

definition row_verify ::
  "'t nmt_lib \<Rightarrow> row_data \<Rightarrow> row_id \<Rightarrow> data_availability_header \<Rightarrow> (unit, types_error) result" where
  "row_verify lib self rid dah =
     (let row = rid_index rid in
      try_bind (push_shares lib (nl_default lib) (row_shares self)) (\<lambda>tree.
      case row_root dah row of
        None \<Rightarrow> Inl (EdsIndexOutOfRange row 0)
      | Some root \<Rightarrow> if ns_hash (nl_root lib tree) \<noteq> ns_hash root then Inl RootMismatch else Inr ()))"

text \<open>The enumeration of the message is an \<open>i32\<close>; values it does not know count as its default.\<close>

datatype half_side = LeftHalf | RightHalf

record raw_row =
  rr_shares_half :: "bytes list"
  rr_half_side :: int

definition get_half_side :: "raw_row \<Rightarrow> half_side" where
  "get_half_side row = (if rr_half_side row = 1 then RightHalf else LeftHalf)"

type_synonym codec_fun = "bytes list \<Rightarrow> nat \<Rightarrow> (bytes list, unit) result"

definition row_share :: "nat \<Rightarrow> nat \<Rightarrow> nat \<times> bytes \<Rightarrow> (share, types_error) result" where
  "row_share row_index data_shares = (\<lambda>(col_index, shr).
     if row_index < data_shares \<and> col_index < data_shares then share_from_raw shr else share_parity shr)"

definition row_from_raw :: "codec_fun \<Rightarrow> codec_fun \<Rightarrow> row_id \<Rightarrow> raw_row \<Rightarrow> (row_data, types_error) result" where
  "row_from_raw encode reconstruct rid row =
     (let data_shares = length (rr_shares_half row) in
      try_bind (case get_half_side row of
          LeftHalf \<Rightarrow> map_err (\<lambda>_. LeopardCodec)
            (encode (rr_shares_half row @ replicate data_shares (replicate SHARE_SIZE 0)) data_shares)
        | RightHalf \<Rightarrow> map_err (\<lambda>_. LeopardCodec)
            (reconstruct (replicate data_shares [] @ rr_shares_half row) data_shares)) (\<lambda>shares.
      try_bind (try_map (row_share (rid_index rid) data_shares) (List.enumerate 0 shares)) (\<lambda>shares.
      Inr \<lparr> row_shares = shares \<rparr>)))"

definition row_into_raw :: "row_data \<Rightarrow> raw_row" where
  "row_into_raw row =
     (let square_width = length (row_shares row) in
      \<lparr> rr_shares_half = take (square_width div 2) (map share_to_vec (row_shares row)), rr_half_side = 0 \<rparr>)"

definition row_encode :: "(raw_row \<Rightarrow> bytes) \<Rightarrow> row_data \<Rightarrow> bytes" where
  "row_encode raw_encode self = raw_encode (row_into_raw self)"

definition row_decode ::
  "codec_fun \<Rightarrow> codec_fun \<Rightarrow> (bytes \<Rightarrow> raw_row option) \<Rightarrow> row_id \<Rightarrow> bytes \<Rightarrow> (row_data, types_error) result" where
  "row_decode encode reconstruct raw_decode rid buffer =
     try_bind (ok_or Protobuf (raw_decode buffer)) (row_from_raw encode reconstruct rid)"

section \<open>Samples\<close>

record sample =
  smp_proof_type :: axis_type
  smp_share :: share
  smp_proof :: namespace_proof

definition sample_new :: "'t nmt_lib \<Rightarrow> nat \<Rightarrow> nat \<Rightarrow> axis_type \<Rightarrow> eds \<Rightarrow> (sample, types_error) result" where
  "sample_new lib row_index column_index proof_type eds =
     try_bind (eds_share eds row_index column_index) (\<lambda>share.
     try_bind (case proof_type of
         Row \<Rightarrow> try_bind (row_nmt lib eds row_index) (\<lambda>tree. Inr (nl_range_proof lib tree column_index (column_index + 1)))
       | Col \<Rightarrow> try_bind (column_nmt lib eds column_index) (\<lambda>tree. Inr (nl_range_proof lib tree row_index (row_index + 1))))
       (\<lambda>range_proof.
     Inr \<lparr> smp_proof_type = proof_type, smp_share = share, smp_proof = PresenceProof range_proof True \<rparr>))"

definition sample_verify ::
  "'t nmt_lib \<Rightarrow> sample \<Rightarrow> sample_id \<Rightarrow> data_availability_header \<Rightarrow> (unit, types_error) result" where
  "sample_verify lib self sid dah =
     try_bind (case smp_proof_type self of
         Row \<Rightarrow> ok_or (EdsIndexOutOfRange (sample_id_row_index sid) 0) (row_root dah (sample_id_row_index sid))
       | Col \<Rightarrow> ok_or (EdsIndexOutOfRange 0 (sid_column_index sid)) (column_root dah (sid_column_index sid))) (\<lambda>root.
     if nl_verify_range lib (smp_proof self) root [share_to_vec (smp_share self)] (share_namespace (smp_share self))
     then Inr () else Inl RangeProofError)"

record raw_sample =
  rs_share :: "bytes option"
  rs_proof :: "raw_proof option"
  rs_proof_type :: int

definition sample_from_raw ::
  "'t nmt_lib \<Rightarrow> (bytes \<Rightarrow> namespaced_hash option) \<Rightarrow> sample_id \<Rightarrow> raw_sample \<Rightarrow> (sample, types_error) result" where
  "sample_from_raw lib parse sid sample =
     (case rs_proof sample of
        None \<Rightarrow> Inl MissingProof
      | Some proof \<Rightarrow>
        try_bind (proof_try_from lib parse proof) (\<lambda>proof.
        try_bind (axis_try_from (rs_proof_type sample)) (\<lambda>proof_type.
        if is_of_absence proof then Inl WrongProofType
        else case rs_share sample of
          None \<Rightarrow> Inl (Validation (ValidationOther ''missing share''))
        | Some share \<Rightarrow>
          (case total_leaves proof of
             None \<Rightarrow> Inl (Validation (ValidationOther ''proof must be for single leaf''))
           | Some square_size \<Rightarrow>
             try_bind (if sample_id_row_index sid < square_size div 2 \<and> sid_column_index sid < square_size div 2
                       then share_from_raw share else share_parity share) (\<lambda>share.
             Inr \<lparr> smp_proof_type = proof_type, smp_share = share, smp_proof = proof \<rparr>)))))"

definition axis_as_i32 :: "axis_type \<Rightarrow> int" where
  "axis_as_i32 axis = (case axis of Row \<Rightarrow> 0 | Col \<Rightarrow> 1)"

definition sample_into_raw :: "sample \<Rightarrow> raw_sample" where
  "sample_into_raw sample =
     \<lparr> rs_share = Some (share_to_vec (smp_share sample)), rs_proof = Some (proof_into_raw (smp_proof sample)),
       rs_proof_type = axis_as_i32 (smp_proof_type sample) \<rparr>"

definition sample_encode :: "(raw_sample \<Rightarrow> bytes) \<Rightarrow> sample \<Rightarrow> bytes" where
  "sample_encode raw_encode self = raw_encode (sample_into_raw self)"

definition sample_decode ::
  "'t nmt_lib \<Rightarrow> (bytes \<Rightarrow> namespaced_hash option) \<Rightarrow> (bytes \<Rightarrow> raw_sample option) \<Rightarrow> sample_id \<Rightarrow> bytes \<Rightarrow>
     (sample, types_error) result" where
  "sample_decode lib parse raw_decode sid buffer =
     try_bind (ok_or Protobuf (raw_decode buffer)) (sample_from_raw lib parse sid)"

section \<open>Namespace data\<close>

definition rnd_verify ::
  "'t nmt_lib \<Rightarrow> row_namespace_data \<Rightarrow> row_namespace_data_id \<Rightarrow> data_availability_header \<Rightarrow> (unit, types_error) result" where
  "rnd_verify lib self nid dah =
     (if (rnd_shares self = [] \<and> \<not> is_of_absence (rnd_proof self)) \<or>
         (rnd_shares self \<noteq> [] \<and> is_of_absence (rnd_proof self))
      then Inl WrongProofType
      else let namespace = nid_namespace nid; row = namespace_data_id_row_index nid in
        try_bind (ok_or (EdsIndexOutOfRange row 0) (row_root dah row)) (\<lambda>root.
        if nl_verify_complete lib (rnd_proof self) root (map share_to_vec (rnd_shares self)) namespace
        then Inr () else Inl RangeProofError))"

record raw_namespace_data =
  rd_shares :: "bytes list"
  rd_proof :: "raw_proof option"

definition rnd_from_raw ::
  "'t nmt_lib \<Rightarrow> (bytes \<Rightarrow> namespaced_hash option) \<Rightarrow> row_namespace_data_id \<Rightarrow> raw_namespace_data \<Rightarrow>
     (row_namespace_data, types_error) result" where
  "rnd_from_raw lib parse nid namespace_data =
     (case rd_proof namespace_data of
        None \<Rightarrow> Inl MissingProof
      | Some proof \<Rightarrow>
        try_bind (try_map (\<lambda>shr. if nid_namespace nid \<noteq> PARITY_SHARE then share_from_raw shr else share_parity shr)
          (rd_shares namespace_data)) (\<lambda>shares.
        if \<not> list_all (\<lambda>shr. share_namespace shr = nid_namespace nid) shares
        then Inl (Validation (ValidationOther ''Namespace data must have equal namespaces''))
        else try_bind (proof_try_from lib parse proof) (\<lambda>proof.
          Inr \<lparr> rnd_proof = proof, rnd_shares = shares \<rparr>)))"

definition rnd_into_raw :: "row_namespace_data \<Rightarrow> raw_namespace_data" where
  "rnd_into_raw namespaced_data =
     \<lparr> rd_shares = map share_to_vec (rnd_shares namespaced_data), rd_proof = Some (proof_into_raw (rnd_proof namespaced_data)) \<rparr>"

text \<open>The conversion that has no identifier to go by reads every share as a data share.\<close>

definition rnd_try_from ::
  "'t nmt_lib \<Rightarrow> (bytes \<Rightarrow> namespaced_hash option) \<Rightarrow> raw_namespace_data \<Rightarrow> (row_namespace_data, types_error) result" where
  "rnd_try_from lib parse value =
     (case rd_proof value of
        None \<Rightarrow> Inl MissingProof
      | Some proof \<Rightarrow>
        try_bind (proof_try_from lib parse proof) (\<lambda>proof.
        try_bind (try_map share_from_raw (rd_shares value)) (\<lambda>shares.
        Inr \<lparr> rnd_proof = proof, rnd_shares = shares \<rparr>)))"

definition rnd_encode :: "(raw_namespace_data \<Rightarrow> bytes) \<Rightarrow> row_namespace_data \<Rightarrow> bytes" where
  "rnd_encode raw_encode self = raw_encode (rnd_into_raw self)"

definition rnd_decode ::
  "'t nmt_lib \<Rightarrow> (bytes \<Rightarrow> namespaced_hash option) \<Rightarrow> (bytes \<Rightarrow> raw_namespace_data option) \<Rightarrow>
     row_namespace_data_id \<Rightarrow> bytes \<Rightarrow> (row_namespace_data, types_error) result" where
  "rnd_decode lib parse raw_decode nid buffer =
     try_bind (ok_or Protobuf (raw_decode buffer)) (rnd_from_raw lib parse nid)"

section \<open>What the containers rely on\<close>

text \<open>
  The proofs of a tree name the leaves they are for, have nodes of the width of a hash, and a proof for one leaf of a
  perfect tree has a sibling on every level. Parsing a hash inverts printing it.
\<close>

fun proof_ok :: "namespace_proof \<Rightarrow> bool" where
  "proof_ok (PresenceProof p _) \<longleftrightarrow> list_all valid_hash (np_siblings p) \<and> np_start p < 2 ^ 32 \<and> np_end p < 2 ^ 32" |
  "proof_ok (AbsenceProof p _ leaf) \<longleftrightarrow> list_all valid_hash (np_siblings p) \<and> np_start p < 2 ^ 32 \<and> np_end p < 2 ^ 32 \<and>
     (\<exists>h. leaf = Some h \<and> valid_hash h)"

definition nmt_proof_laws :: "'t nmt_lib \<Rightarrow> bool" where
  "nmt_proof_laws lib \<longleftrightarrow>
     (\<forall>leaves t. tree_of lib (nl_default lib) leaves = Inr t \<longrightarrow> length leaves < 2 ^ 32 \<longrightarrow>
        (\<forall>i < length leaves. np_start (nl_range_proof lib t i (i + 1)) = i \<and> np_end (nl_range_proof lib t i (i + 1)) = i + 1 \<and>
           list_all valid_hash (np_siblings (nl_range_proof lib t i (i + 1))) \<and>
           (\<forall>k. length leaves = 2 ^ k \<longrightarrow> length (np_siblings (nl_range_proof lib t i (i + 1))) = k)) \<and>
        (\<forall>ns. ns \<noteq> PARITY_SHARE \<longrightarrow> nl_contains lib (nl_root lib t) ns \<longrightarrow> proof_ok (nl_namespace_proof lib t ns)))"

definition parse_law :: "(bytes \<Rightarrow> namespaced_hash option) \<Rightarrow> bool" where
  "parse_law parse \<longleftrightarrow> (\<forall>h. valid_hash h \<longrightarrow> parse (to_array h) = Some h)"

lemma as_u32_int: "n < 2 ^ 32 \<Longrightarrow> as_u32 (int n) = n"
  by (simp add: as_u32_def)

lemma to_array_nonempty: "valid_hash h \<Longrightarrow> to_array h \<noteq> []"
  using to_array_length [of h] by auto

lemma hashes_from_raw:
  assumes "parse_law parse" "list_all valid_hash hs"
  shows "try_map (hash_from_raw parse) (map to_array hs) = Inr hs"
  using assms by (simp add: try_map_Inr_iff list_all2_conv_all_nth list_all_length hash_from_raw_def parse_law_def)

lemma proof_roundtrip:
  assumes "nmt_laws lib" "parse_law parse" "proof_ok p"
  shows "proof_try_from lib parse (proof_into_raw p) = Inr p"
proof (cases p)
  case (PresenceProof q b)
  then show ?thesis using assms
    by (simp add: proof_try_from_def proof_into_raw_def hashes_from_raw as_u32_int)
next
  case (AbsenceProof q b leaf)
  then obtain h where "leaf = Some h" "valid_hash h" using assms(3) by auto
  then show ?thesis using assms AbsenceProof to_array_nonempty [of h]
    by (simp add: proof_try_from_def proof_into_raw_def hashes_from_raw as_u32_int hash_from_raw_def parse_law_def nmt_laws_def)
qed

text \<open>A proof of absence with no leaf, for a namespace outside of the tree, comes back as a proof of presence.\<close>

lemma absence_without_leaf:
  assumes "parse_law parse" "proof_ok (PresenceProof p b)"
  shows "proof_try_from lib parse (proof_into_raw (AbsenceProof p b None)) = Inr (PresenceProof p b)"
  using assms by (simp add: proof_try_from_def proof_into_raw_def hashes_from_raw as_u32_int)

text \<open>The size of the square is read off the number of siblings, which wraps around from 64 on.\<close>

lemma total_leaves_wraps:
  "length (np_siblings p) = 64 \<Longrightarrow> np_end p = np_start p + 1 \<Longrightarrow> total_leaves (PresenceProof p b) = Some 1"
  by (simp add: total_leaves_def)

lemma cell_from_raw:
  assumes "eds_ok e" "r < eds_square_width e" "c < eds_square_width e"
  shows "(if r < eds_square_width e div 2 \<and> c < eds_square_width e div 2
      then share_from_raw (share_to_vec (cell e r c)) else share_parity (share_to_vec (cell e r c))) = Inr (cell e r c)"
  using mk_share_iff [of r c "eds_square_width e" "share_to_vec (cell e r c)" "cell e r c"] eds_okD(3,4) [OF assms]
  by (auto simp: is_ods_square_def share_to_vec_def Let_def split: if_splits)

lemma axis_cells_nth: "j < eds_square_width e \<Longrightarrow> axis_cells e Row i ! j = cell e i j" "j < eds_square_width e \<Longrightarrow> axis_cells e Col i ! j = cell e j i"
  by (simp_all add: axis_cells_def)

lemma length_axis_cells [simp]: "length (axis_cells e axis i) = eds_square_width e"
  by (simp add: axis_cells_def)

section \<open>Samples of a square\<close>

lemma width_power: "eds_ok e \<Longrightarrow> \<exists>k. eds_square_width e = 2 ^ k \<and> 1 \<le> k \<and> k \<le> 8"
  using eds_okD(1) [of e] by (auto simp: width_ok_def)

lemma law_range:
  assumes "nmt_laws lib" "tree_of lib (nl_default lib) leaves = Inr t" "i < length leaves"
  shows "nl_verify_range lib (PresenceProof (nl_range_proof lib t i (i + 1)) True) (nl_root lib t) [fst (leaves ! i)] (snd (leaves ! i))"
  using assms unfolding nmt_laws_def by blast

lemma law_proof:
  assumes "nmt_proof_laws lib" "tree_of lib (nl_default lib) leaves = Inr t" "length leaves = 2 ^ k" "k < 32" "i < length leaves"
  shows "proof_ok (PresenceProof (nl_range_proof lib t i (i + 1)) b)"
    "total_leaves (PresenceProof (nl_range_proof lib t i (i + 1)) b) = Some (length leaves)"
proof -
  have lt: "length leaves < 2 ^ 32" unfolding assms(3) by (rule power_strict_increasing) (use assms(4) in auto)
  let ?p = "nl_range_proof lib t i (i + 1)"
  have "\<forall>i < length leaves. np_start (nl_range_proof lib t i (i + 1)) = i \<and> np_end (nl_range_proof lib t i (i + 1)) = i + 1 \<and>
           list_all valid_hash (np_siblings (nl_range_proof lib t i (i + 1))) \<and>
           (\<forall>k. length leaves = 2 ^ k \<longrightarrow> length (np_siblings (nl_range_proof lib t i (i + 1))) = k)"
    using assms(1,2) lt unfolding nmt_proof_laws_def by blast
  then have "np_start ?p = i" "np_end ?p = i + 1" "list_all valid_hash (np_siblings ?p)" "length (np_siblings ?p) = k"
    using assms(3,5) by blast+
  then show "proof_ok (PresenceProof ?p b)" "total_leaves (PresenceProof ?p b) = Some (length leaves)"
    using lt assms(3,4,5) by (simp_all add: total_leaves_def)
qed

lemma axis_roots:
  assumes "nmt_laws lib" "eds_ok e" "dah_from_eds lib e = Inr dah" "i < eds_square_width e"
  obtains t where "axis_nmt lib e axis i = Inr t" "tree_of lib (nl_default lib) (map leaf_of (axis_cells e axis i)) = Inr t"
    "axis_root dah axis i = Some (nl_root lib t)"
proof -
  obtain d where d: "dah_from_eds lib e = Inr d" "\<forall>i < eds_square_width e. \<forall>axis. \<exists>t. axis_nmt lib e axis i = Inr t \<and>
       tree_of lib (nl_default lib) (map leaf_of (axis_cells e axis i)) = Inr t \<and> axis_root d axis i = Some (nl_root lib t)"
    using dah_from_eds_roots [OF assms(1,2)] by metis
  then show ?thesis using that assms(3,4) by auto
qed

lemma sample_of_square:
  assumes "nmt_laws lib" "nmt_proof_laws lib" "parse_law parse" "eds_ok e" "dah_from_eds lib e = Inr dah"
    "r < eds_square_width e" "c < eds_square_width e" "sample_id_new r c h = Inr sid"
  obtains s where "sample_new lib r c axis e = Inr s" "smp_share s = cell e r c" "smp_proof_type s = axis"
    "sample_verify lib s sid dah = Inr ()" "sample_from_raw lib parse sid (sample_into_raw s) = Inr s"
proof -
  let ?i = "case axis of Row \<Rightarrow> r | Col \<Rightarrow> c" and ?j = "case axis of Row \<Rightarrow> c | Col \<Rightarrow> r"
  let ?leaves = "map leaf_of (axis_cells e axis ?i)"
  have ij: "?i < eds_square_width e" "?j < eds_square_width e" using assms(6,7) by (auto split: axis_type.split)
  obtain t where t: "axis_nmt lib e axis ?i = Inr t" "tree_of lib (nl_default lib) ?leaves = Inr t"
    "axis_root dah axis ?i = Some (nl_root lib t)" by (rule axis_roots [OF assms(1,4,5) ij(1)])
  let ?p = "PresenceProof (nl_range_proof lib t ?j (?j + 1)) True"
  let ?s = "\<lparr> smp_proof_type = axis, smp_share = cell e r c, smp_proof = ?p \<rparr>"
  have sid: "sample_id_row_index sid = r" "sid_column_index sid = c" using assms(8)
    by (auto simp: sample_id_new_def row_id_new_def sample_id_row_index_def try_bind_Inr_iff split: if_splits)
  have leaf: "?leaves ! ?j = leaf_of (cell e r c)" using assms(6,7) by (cases axis) (simp_all add: axis_cells_nth)
  obtain k where k: "length ?leaves = 2 ^ k" "k < 32" using width_power [OF assms(4)] by auto
  have p: "proof_ok ?p" "total_leaves ?p = Some (eds_square_width e)"
    using law_proof [OF assms(2) t(2) k, of ?j] ij(2) by simp_all
  have "sample_new lib r c axis e = Inr ?s" using t(1) assms(4,6,7)
    by (cases axis) (simp_all add: sample_new_def eds_share_cell row_nmt_def column_nmt_def)
  moreover have "sample_verify lib ?s sid dah = Inr ()"
    using law_range [OF assms(1) t(2), of ?j] ij(2) leaf t(3) sid
    by (cases axis) (simp_all add: sample_verify_def leaf_of_def)
  moreover have "sample_from_raw lib parse sid (sample_into_raw ?s) = Inr ?s"
    using proof_roundtrip [OF assms(1,3) p(1)] p(2) sid cell_from_raw [OF assms(4,6,7)]
    by (cases axis) (simp_all add: sample_from_raw_def sample_into_raw_def axis_as_i32_def axis_try_from_def)
  ultimately show ?thesis by (intro that [of ?s]) simp_all
qed

section \<open>Namespace data of a square\<close>

abbreviation in_namespace :: "namespace \<Rightarrow> share list \<Rightarrow> share list" where
  "in_namespace ns \<equiv> filter (\<lambda>s. share_namespace s = ns)"

lemma collect_namespace_filter:
  assumes "eds_ok e" "r < eds_square_width e" "\<forall>c \<in> set cols. c < eds_square_width e"
    "sorted (map (\<lambda>c. share_namespace (cell e r c)) cols)"
  shows "collect_namespace e ns r cols = Inr (in_namespace ns (map (cell e r) cols))"
  using assms(3,4)
proof (induction cols)
  case (Cons c cols)
  have "in_namespace ns (map (cell e r) cols) = []" if "ns < share_namespace (cell e r c)"
    using that Cons.prems(2) by (auto simp: filter_empty_conv)
  then show ?case using Cons eds_share_cell [OF assms(1,2), of c] by auto
qed simp

lemma collect_row:
  assumes "eds_ok e" "r < eds_square_width e"
  shows "collect_namespace e ns r [0..<eds_square_width e] = Inr (in_namespace ns (axis_cells e Row r))"
  using collect_namespace_filter [OF assms, of "[0..<eds_square_width e]"] eds_okD(5) [OF assms, of Row]
  by (simp add: axis_cells_def comp_def)

lemma law_complete:
  assumes "nmt_laws lib" "tree_of lib (nl_default lib) (map leaf_of ss) = Inr t" "ns \<noteq> PARITY_SHARE"
  shows "in_namespace ns ss \<noteq> [] \<Longrightarrow> nl_contains lib (nl_root lib t) ns"
    "nl_contains lib (nl_root lib t) ns \<Longrightarrow> is_of_absence (nl_namespace_proof lib t ns) \<longleftrightarrow> in_namespace ns ss = []"
    "nl_contains lib (nl_root lib t) ns \<Longrightarrow>
       nl_verify_complete lib (nl_namespace_proof lib t ns) (nl_root lib t) (map share_to_vec (in_namespace ns ss)) ns"
proof -
  have mem: "ns \<in> snd ` set (map leaf_of ss) \<longleftrightarrow> in_namespace ns ss \<noteq> []"
    by (auto simp: leaf_of_def filter_empty_conv image_iff)
  have fil: "map fst (filter (\<lambda>l. snd l = ns) (map leaf_of ss)) = map share_to_vec (in_namespace ns ss)"
    by (induction ss) (auto simp: leaf_of_def)
  show "in_namespace ns ss \<noteq> [] \<Longrightarrow> nl_contains lib (nl_root lib t) ns"
    using assms mem unfolding nmt_laws_def by blast
  assume c: "nl_contains lib (nl_root lib t) ns"
  have "(is_of_absence (nl_namespace_proof lib t ns) \<longleftrightarrow> ns \<notin> snd ` set (map leaf_of ss)) \<and>
      nl_verify_complete lib (nl_namespace_proof lib t ns) (nl_root lib t) (map fst (filter (\<lambda>l. snd l = ns) (map leaf_of ss))) ns"
    using assms c unfolding nmt_laws_def by blast
  then show "is_of_absence (nl_namespace_proof lib t ns) \<longleftrightarrow> in_namespace ns ss = []"
    "nl_verify_complete lib (nl_namespace_proof lib t ns) (nl_root lib t) (map share_to_vec (in_namespace ns ss)) ns"
    using mem fil by simp_all
qed

lemma shares_from_raw:
  assumes "\<forall>s \<in> set ss. share_ok s" "ns \<noteq> PARITY_SHARE"
  shows "try_map share_from_raw (map share_to_vec (in_namespace ns ss)) = Inr (in_namespace ns ss)"
proof -
  have "share_from_raw (share_to_vec s) = Inr s" if "s \<in> set (in_namespace ns ss)" for s
  proof -
    have "share_ok s" "share_namespace s = ns" using that assms(1) by auto
    then have "share_ok s \<and> \<not> sh_parity s" using assms(2) by (auto simp: share_namespace_def)
    then show ?thesis by (simp add: share_from_raw_iff share_ok_def share_to_vec_def)
  qed
  then show ?thesis unfolding try_map_Inr_iff list_all2_map1 by (rule list.rel_refl_strong)
qed

definition good_data ::
  "'t nmt_lib \<Rightarrow> (bytes \<Rightarrow> namespaced_hash option) \<Rightarrow> data_availability_header \<Rightarrow> namespace \<Rightarrow> nat \<Rightarrow>
     row_namespace_data_id \<times> row_namespace_data \<Rightarrow> bool" where
  "good_data lib parse dah ns h = (\<lambda>(nid, d). nid_namespace nid = ns \<and> namespace_data_id_block_height nid = h \<and>
     rnd_verify lib d nid dah = Inr () \<and> rnd_from_raw lib parse nid (rnd_into_raw d) = Inr d)"

lemma row_data_good:
  assumes "nmt_laws lib" "nmt_proof_laws lib" "parse_law parse" "eds_ok e" "r < eds_square_width e" "ns \<noteq> PARITY_SHARE"
    "tree_of lib (nl_default lib) (map leaf_of (axis_cells e Row r)) = Inr t" "row_root dah r = Some (nl_root lib t)"
    "nl_contains lib (nl_root lib t) ns" "namespace_data_id_new ns r h = Inr nid"
  shows "good_data lib parse dah ns h
    (nid, \<lparr> rnd_proof = nl_namespace_proof lib t ns, rnd_shares = in_namespace ns (axis_cells e Row r) \<rparr>)"
proof -
  have nid: "nid_namespace nid = ns" "namespace_data_id_block_height nid = h" "namespace_data_id_row_index nid = r"
    using assms(10) by (auto simp: namespace_data_id_new_def row_id_new_def namespace_data_id_block_height_def
        row_id_block_height_def namespace_data_id_row_index_def try_bind_Inr_iff split: if_splits)
  obtain k where "eds_square_width e = 2 ^ k" "k \<le> 8" using width_power [OF assms(4)] by auto
  then have "eds_square_width e \<le> 2 ^ 8" by (simp add: power_increasing del: power_numeral)
  then have "length (map leaf_of (axis_cells e Row r)) < 2 ^ 32" by simp
  then have ok: "proof_ok (nl_namespace_proof lib t ns)" using assms(2,6,7,9) unfolding nmt_proof_laws_def by blast
  have sok: "\<forall>s \<in> set (axis_cells e Row r). share_ok s" using eds_okD(3) [OF assms(4,5)] by (auto simp: axis_cells_def)
  have "list_all (\<lambda>shr. share_namespace shr = ns) (in_namespace ns (axis_cells e Row r))" by (simp add: list_all_iff)
  then show ?thesis
    using law_complete(2,3) [OF assms(1,7,6)] assms(6,8,9) nid proof_roundtrip [OF assms(1,3) ok] shares_from_raw [OF sok assms(6)]
    by (simp add: good_data_def rnd_verify_def rnd_from_raw_def rnd_into_raw_def)
qed

lemma namespace_data_loop_complete:
  assumes "nmt_laws lib" "nmt_proof_laws lib" "parse_law parse" "eds_ok e" "dah_from_eds lib e = Inr dah" "ns \<noteq> PARITY_SHARE" "0 < h"
    "\<forall>r \<in> set rows. r < eds_square_width e"
  shows "\<exists>data. namespace_data_loop lib e ns dah h rows = Inr data \<and> list_all (good_data lib parse dah ns h) data \<and>
    concat (map (\<lambda>(nid, d). rnd_shares d) data) = concat (map (\<lambda>r. in_namespace ns (axis_cells e Row r)) rows)"
  using assms(8)
proof (induction rows)
  case (Cons r rows)
  then obtain data where data: "namespace_data_loop lib e ns dah h rows = Inr data" "list_all (good_data lib parse dah ns h) data"
    "concat (map (\<lambda>(nid, d). rnd_shares d) data) = concat (map (\<lambda>r. in_namespace ns (axis_cells e Row r)) rows)" by auto
  have r: "r < eds_square_width e" using Cons.prems by simp
  obtain t where t: "axis_nmt lib e Row r = Inr t" "tree_of lib (nl_default lib) (map leaf_of (axis_cells e Row r)) = Inr t"
    "axis_root dah Row r = Some (nl_root lib t)" by (rule axis_roots [OF assms(1,4,5) r])
  have root: "row_root dah r = Some (nl_root lib t)" using t(3) by simp
  show ?case
  proof (cases "nl_contains lib (nl_root lib t) ns")
    case True
    obtain nid where nid: "namespace_data_id_new ns r h = Inr nid"
      using assms(7) by (auto simp: namespace_data_id_new_def row_id_new_def)
    show ?thesis
      using row_data_good [OF assms(1-4) r assms(6) t(2) root True nid] data True nid root t(1) collect_row [OF assms(4) r]
      by (simp add: row_nmt_def)
  next
    case False
    then have "in_namespace ns (axis_cells e Row r) = []" using law_complete(1) [OF assms(1) t(2) assms(6)] by blast
    then show ?thesis using data False root by simp
  qed
qed simp

lemma square_by_rows:
  assumes "eds_ok e"
  shows "concat (map (axis_cells e Row) [0..<eds_square_width e]) = eds_data_square e"
proof -
  have "axis_cells e Row = (\<lambda>r. map (\<lambda>c. eds_data_square e ! (r * eds_square_width e + c)) [0..<eds_square_width e])"
    by (simp add: fun_eq_iff axis_cells_def cell_def)
  then show ?thesis using square_rows [OF eds_okD(2) [OF assms]] by simp
qed


section \<open>Rows of a square\<close>

text \<open>What soundness needs of the hash: trees with the same root have the same leaves.\<close>

definition nmt_binding :: "'t nmt_lib \<Rightarrow> bool" where
  "nmt_binding lib \<longleftrightarrow> (\<forall>l1 l2 t1 t2. tree_of lib (nl_default lib) l1 = Inr t1 \<longrightarrow> tree_of lib (nl_default lib) l2 = Inr t2 \<longrightarrow>
     ns_hash (nl_root lib t1) = ns_hash (nl_root lib t2) \<longrightarrow> l1 = l2)"

text \<open>And of the proofs: what verifies is in the tree, and the data of a namespace that verifies is all there is.\<close>

definition nmt_sound :: "'t nmt_lib \<Rightarrow> bool" where
  "nmt_sound lib \<longleftrightarrow> (\<forall>leaves t. tree_of lib (nl_default lib) leaves = Inr t \<longrightarrow>
     (\<forall>p d ns. nl_verify_range lib p (nl_root lib t) [d] ns \<longrightarrow> (d, ns) \<in> set leaves) \<and>
     (\<forall>p ds ns. ns \<noteq> PARITY_SHARE \<longrightarrow> nl_verify_complete lib p (nl_root lib t) ds ns \<longrightarrow> ds = map fst (filter (\<lambda>l. snd l = ns) leaves)))"

lemma row_verify_leaves:
  assumes "nmt_laws lib" "nmt_binding lib" "eds_ok e" "dah_from_eds lib e = Inr dah" "rid_index rid < eds_square_width e"
  shows "row_verify lib row rid dah = Inr () \<longleftrightarrow> map leaf_of (row_shares row) = map leaf_of (axis_cells e Row (rid_index rid))"
proof -
  obtain t where t: "tree_of lib (nl_default lib) (map leaf_of (axis_cells e Row (rid_index rid))) = Inr t"
    "axis_root dah Row (rid_index rid) = Some (nl_root lib t)" by (rule axis_roots [OF assms(1,3,4,5)])
  show ?thesis
  proof (cases "tree_of lib (nl_default lib) (map leaf_of (row_shares row))")
    case (Inl x)
    then show ?thesis using t by (auto simp: row_verify_def push_shares_tree Let_def)
  next
    case (Inr u)
    then have "ns_hash (nl_root lib u) = ns_hash (nl_root lib t) \<longleftrightarrow>
        map leaf_of (row_shares row) = map leaf_of (axis_cells e Row (rid_index rid))"
      using t(1) assms(2) unfolding nmt_binding_def by auto
    then show ?thesis using t Inr by (simp add: row_verify_def push_shares_tree Let_def)
  qed
qed

lemma row_from_raw_codeword:
  assumes "eds_ok e" "i < eds_square_width e" "rid_index rid = i"
    "encode (take (eds_square_width e div 2) (map share_to_vec (axis_cells e Row i)) @
       replicate (eds_square_width e div 2) (replicate SHARE_SIZE 0)) (eds_square_width e div 2) = Inr (map share_to_vec (axis_cells e Row i))"
  shows "row_from_raw encode reconstruct rid (row_into_raw \<lparr> row_shares = axis_cells e Row i \<rparr>) = Inr \<lparr> row_shares = axis_cells e Row i \<rparr>"
proof -
  have "try_map (row_share i (eds_square_width e div 2)) (List.enumerate 0 (map share_to_vec (axis_cells e Row i))) = Inr (axis_cells e Row i)"
    using cell_from_raw [OF assms(1,2)]
    by (auto simp: try_map_Inr_iff list_all2_conv_all_nth nth_enumerate_eq row_share_def axis_cells_nth)
  moreover have "min (eds_square_width e) (eds_square_width e div 2) = eds_square_width e div 2" by simp
  ultimately show ?thesis using assms(3,4) by (simp add: row_from_raw_def row_into_raw_def get_half_side_def Let_def)
qed

lemma row_new_cells: "eds_ok e \<Longrightarrow> i < eds_square_width e \<Longrightarrow> row_new i e = Inr \<lparr> row_shares = axis_cells e Row i \<rparr>"
  by (simp add: row_new_def eds_row_def eds_axis_cells)

text \<open>
  (C18) Rows, from the original square to the node that receives them: the row taken from an extended square
  (\<open>from_ods\<close>, \<open>Row::new\<close>) is sent as its first half and the receiver recovers it, and against the header of the square
  (\<open>DataAvailabilityHeader::from_eds\<close>) \<open>Row::verify\<close> accepts it and nothing else: any row that verifies under that
  identifier has the same bytes and namespaces.
\<close>

theorem row_verifies_iff:
  assumes "encode_laws encode" "\<forall>s \<in> set ods. length s = SHARE_SIZE" "from_ods encode ods v = Inr e"
    "nmt_laws lib" "nmt_binding lib" "dah_from_eds lib e = Inr dah" "i < eds_square_width e" "row_id_new i h = Inr rid"
  shows "\<exists>row. row_new i e = Inr row \<and> row_from_raw encode reconstruct rid (row_into_raw row) = Inr row \<and>
    (\<forall>other. row_verify lib other rid dah = Inr () \<longleftrightarrow>
       map (\<lambda>s. (share_to_vec s, share_namespace s)) (row_shares other) = map (\<lambda>s. (share_to_vec s, share_namespace s)) (row_shares row))"
proof -
  obtain k where k: "eds_ok e" "eds_square_width e = 2 * k" "\<forall>i < 2 * k. codeword encode k (map share_to_vec (axis_cells e Row i))"
    by (rule from_ods_square [OF assms(1-3)])
  have rid: "rid_index rid = i" using assms(8) by (auto simp: row_id_new_def split: if_splits)
  have "row_from_raw encode reconstruct rid (row_into_raw \<lparr> row_shares = axis_cells e Row i \<rparr>) = Inr \<lparr> row_shares = axis_cells e Row i \<rparr>"
    using k(2,3) assms(7) unfolding codeword_def by (intro row_from_raw_codeword [OF k(1) assms(7) rid]) simp
  moreover have leaf: "leaf_of = (\<lambda>s. (share_to_vec s, share_namespace s))" by (simp add: fun_eq_iff leaf_of_def)
  ultimately show ?thesis
    using row_verify_leaves [OF assms(4,5) k(1) assms(6), of rid, unfolded leaf] row_new_cells [OF k(1) assms(7)] assms(7) rid by auto
qed

text \<open>
  (C20) A sample taken from a square, by row or by column (\<open>Sample::new\<close>), carries the share at its coordinates, verifies
  against the header of the square under its identifier (\<open>Sample::verify\<close>), and the receiver recovers it from its
  message (\<open>Sample::from_raw\<close>), where the size of the square, and with it whether the share is data or parity, is
  read off the number of siblings in the proof.
\<close>

theorem sample_verifies:
  assumes "nmt_laws lib" "nmt_proof_laws lib" "parse_law parse" "eds_ok e" "dah_from_eds lib e = Inr dah"
    "r < eds_square_width e" "c < eds_square_width e" "sample_id_new r c h = Inr sid"
  shows "\<exists>s. sample_new lib r c axis e = Inr s \<and> Inr (smp_share s) = eds_share e r c \<and> smp_proof_type s = axis \<and>
    sample_verify lib s sid dah = Inr () \<and> sample_from_raw lib parse sid (sample_into_raw s) = Inr s"
  by (rule sample_of_square [OF assms, of axis]) (auto simp: eds_share_cell [OF assms(4,6,7)])

section \<open>A tree that has the laws\<close>

text \<open>
  The tree that keeps its leaves, with a root that lists them: every byte is preceded by a one, and a zero ends a word.
\<close>

definition list_word :: "bytes \<Rightarrow> bytes" where
  "list_word d = concat (map (\<lambda>x. [1, x]) d) @ [0]"

definition list_root :: "(bytes \<times> namespace) list \<Rightarrow> bytes" where
  "list_root leaves = concat (map (\<lambda>(d, ns). list_word d @ list_word (as_bytes ns)) leaves)"

fun unword :: "bytes \<Rightarrow> (bytes \<times> bytes) option" where
  "unword [] = None" |
  "unword [b] = (if b = 0 then Some ([], []) else None)" |
  "unword (b # x # r) = (if b = 0 then Some ([], x # r) else map_option (\<lambda>(d, s). (x # d, s)) (unword r))"

fun root_leaves :: "nat \<Rightarrow> bytes \<Rightarrow> (bytes \<times> namespace) list" where
  "root_leaves 0 bs = []" |
  "root_leaves (Suc n) bs =
     (case unword bs of
        None \<Rightarrow> []
      | Some (d, r) \<Rightarrow> (case unword r of None \<Rightarrow> [] | Some (ns, r) \<Rightarrow> (d, Namespace ns) # root_leaves n r))"

definition list_leaves :: "namespaced_hash \<Rightarrow> (bytes \<times> namespace) list" where
  "list_leaves r = root_leaves (length (ns_hash r)) (ns_hash r)"

definition zero_hash :: namespaced_hash where
  "zero_hash = \<lparr> min_namespace = Namespace (replicate 29 0), max_namespace = Namespace (replicate 29 0), ns_hash = replicate 32 0 \<rparr>"

definition list_nmt :: "(bytes \<times> namespace) list nmt_lib" where
  "list_nmt =
     \<lparr> nl_default = [],
       nl_push_leaf = (\<lambda>t d ns. if t \<noteq> [] \<and> ns < snd (last t) then Inl ''invalid leaf order'' else Inr (t @ [(d, ns)])),
       nl_root = (\<lambda>t. zero_hash \<lparr> ns_hash := list_root t \<rparr>),
       nl_range_proof = (\<lambda>t i j. \<lparr> np_siblings = replicate (length (filter (\<lambda>j. 2 ^ j < length t) [0..<length t])) zero_hash, np_start = i, np_end = j \<rparr>),
       nl_namespace_proof = (\<lambda>t ns. if ns \<in> snd ` set t then PresenceProof \<lparr> np_siblings = [], np_start = 0, np_end = 0 \<rparr> True
         else AbsenceProof \<lparr> np_siblings = [], np_start = 0, np_end = 0 \<rparr> True (Some zero_hash)),
       nl_contains = (\<lambda>_ _. True),
       nl_verify_range = (\<lambda>_ r leaves ns. list_all (\<lambda>d. (d, ns) \<in> set (list_leaves r)) leaves),
       nl_verify_complete = (\<lambda>_ r leaves ns. map fst (filter (\<lambda>l. snd l = ns) (list_leaves r)) = leaves),
       nl_to_absence = (\<lambda>p leaf. AbsenceProof (np_proof p) (max_ns_ignored p) (Some leaf)) \<rparr>"

lemma list_nmt_fields [simp]:
  "nl_default list_nmt = []"
  "nl_push_leaf list_nmt t d ns = (if t \<noteq> [] \<and> ns < snd (last t) then Inl ''invalid leaf order'' else Inr (t @ [(d, ns)]))"
  "nl_root list_nmt t = zero_hash \<lparr> ns_hash := list_root t \<rparr>"
  "nl_range_proof list_nmt t i j =
     \<lparr> np_siblings = replicate (length (filter (\<lambda>j. 2 ^ j < length t) [0..<length t])) zero_hash, np_start = i, np_end = j \<rparr>"
  "nl_namespace_proof list_nmt t ns = (if ns \<in> snd ` set t then PresenceProof \<lparr> np_siblings = [], np_start = 0, np_end = 0 \<rparr> True
     else AbsenceProof \<lparr> np_siblings = [], np_start = 0, np_end = 0 \<rparr> True (Some zero_hash))"
  "nl_contains list_nmt r ns"
  "nl_verify_range list_nmt p r leaves ns = list_all (\<lambda>d. (d, ns) \<in> set (list_leaves r)) leaves"
  "nl_verify_complete list_nmt p r leaves ns \<longleftrightarrow> map fst (filter (\<lambda>l. snd l = ns) (list_leaves r)) = leaves"
  "nl_to_absence list_nmt p leaf = AbsenceProof (np_proof p) (max_ns_ignored p) (Some leaf)"
  by (simp_all add: list_nmt_def)

lemma unword_word: "unword (list_word d @ r) = Some (d, r)"
proof (induction d)
  case Nil then show ?case by (cases r) (auto simp: list_word_def)
qed (auto simp: list_word_def)

lemma root_leaves_root: "length l \<le> n \<Longrightarrow> root_leaves n (list_root l) = l"
proof (induction l arbitrary: n)
  case Nil then show ?case by (cases n) (auto simp: list_root_def)
next
  case (Cons p l)
  obtain d ns where p: "p = (d, ns)" by (cases p)
  obtain m where n: "n = Suc m" "length l \<le> m" using Cons.prems by (cases n) auto
  have "list_root (p # l) = list_word d @ list_word (as_bytes ns) @ list_root l" by (simp add: list_root_def p)
  then show ?case using Cons.IH [OF n(2)] p n(1) by (simp add: unword_word)
qed

lemma length_list_root: "length l \<le> length (list_root l)"
  by (induction l) (auto simp: list_root_def list_word_def)

lemma list_leaves_root [simp]: "list_leaves (zero_hash \<lparr> ns_hash := list_root l \<rparr>) = l"
  by (simp add: list_leaves_def root_leaves_root length_list_root)

lemma list_root_inject: "list_root l = list_root m \<Longrightarrow> l = m"
proof -
  assume "list_root l = list_root m"
  then have "list_leaves (zero_hash \<lparr> ns_hash := list_root l \<rparr>) = list_leaves (zero_hash \<lparr> ns_hash := list_root m \<rparr>)" by (rule arg_cong)
  then show "l = m" by (simp only: list_leaves_root)
qed

lemma list_tree: "tree_of list_nmt t leaves = Inr u \<Longrightarrow> u = t @ leaves"
  by (induction leaves arbitrary: t) (fastforce simp: try_bind_Inr_iff split: if_splits)+

lemma list_tree_sorted: "sorted (map snd (t @ leaves)) \<Longrightarrow> tree_of list_nmt t leaves = Inr (t @ leaves)"
proof (induction leaves arbitrary: t)
  case (Cons p leaves)
  obtain d ns where p: "p = (d, ns)" by (cases p)
  have "snd (last t) \<le> ns" if "t \<noteq> []" using Cons.prems p last_in_set [OF that] by (auto simp: sorted_append)
  then have "\<not> (t \<noteq> [] \<and> ns < snd (last t))" by auto
  then have "nl_push_leaf list_nmt t d ns = Inr (t @ [(d, ns)])" by simp
  then show ?case using Cons.IH [of "t @ [p]"] Cons.prems p by simp
qed simp

lemma siblings_power: "length (filter (\<lambda>j. j < k) [0..<2 ^ k]) = k"
proof -
  have "filter (\<lambda>j. j < k) [0..<2 ^ k] = [0..<k]"
    using upt_add_eq_append [of 0 k "2 ^ k - k"] less_exp [of k] by simp
  then show ?thesis by simp
qed

lemma list_nmt_laws: "nmt_laws list_nmt"
  unfolding nmt_laws_def list_nmt_fields(1)
proof (intro conjI allI impI)
  show "is_ok (tree_of list_nmt [] leaves)" if "sorted (map snd leaves)" for leaves
    using list_tree_sorted [of "[]" leaves] that by (simp add: is_ok_iff)
qed (auto dest!: list_tree simp: list_all_iff)

lemma list_nmt_proof_laws: "nmt_proof_laws list_nmt"
  unfolding nmt_proof_laws_def
  by (auto dest!: list_tree simp: list_all_iff siblings_power zero_hash_def valid_hash_def)

lemma list_nmt_binding: "nmt_binding list_nmt"
  unfolding nmt_binding_def
  by (auto dest!: list_tree intro: list_root_inject)

lemma list_nmt_sound: "nmt_sound list_nmt"
  unfolding nmt_sound_def by (auto dest!: list_tree)

definition hash_parse :: "bytes \<Rightarrow> namespaced_hash option" where
  "hash_parse bs = (if length bs = 90 then
     Some \<lparr> min_namespace = Namespace (take 29 bs), max_namespace = Namespace (take 29 (drop 29 bs)), ns_hash = drop 58 bs \<rparr> else None)"

lemma hash_parse_law: "parse_law hash_parse"
  unfolding parse_law_def
proof (intro allI impI)
  fix h assume v: "valid_hash h"
  show "hash_parse (to_array h) = Some h" using v unfolding hash_parse_def to_array_eq [OF v] valid_hash_def by simp
qed

lemma sample_square:
  obtains e dah where "from_ods zero_encode sample_ods V1 = Inr e" "eds_ok e" "eds_square_width e = 2"
    "share_to_vec (cell e 0 0) = sample_ods ! 0" "dah_from_eds list_nmt e = Inr dah"
proof -
  have l: "\<forall>s \<in> set sample_ods. length s = SHARE_SIZE" by (simp add: sample_ods_def TAIL_PADDING_def const_v255_def)
  obtain e where e: "from_ods zero_encode sample_ods V1 = Inr e"
    using from_ods_ok [OF zero_encode_laws l sample_ods_ok, of V1] by (auto simp: is_ok_iff)
  obtain k where k: "eds_ok e" "eds_square_width e = 2 * k" "length sample_ods = k * k"
    "\<forall>r < k. \<forall>c < k. share_to_vec (cell e r c) = sample_ods ! (r * k + c)"
    by (rule from_ods_square [OF zero_encode_laws l e])
  have "k = 1" using k(3) by (simp add: sample_ods_def)
  obtain dah where "dah_from_eds list_nmt e = Inr dah" by (rule dah_from_eds_roots [OF list_nmt_laws k(1)])
  then show ?thesis using that e k \<open>k = 1\<close> by simp
qed


theorem row_verifies_iff_witness:
  "\<exists>e dah rid row. from_ods zero_encode sample_ods V1 = Inr e \<and> dah_from_eds list_nmt e = Inr dah \<and> row_new 1 e = Inr row \<and>
     row_id_new 1 1 = Inr rid \<and> row_verify list_nmt row rid dah = Inr ()"
proof -
  obtain e dah where s: "from_ods zero_encode sample_ods V1 = Inr e" "eds_square_width e = 2" "dah_from_eds list_nmt e = Inr dah"
    by (rule sample_square)
  have l: "\<forall>s \<in> set sample_ods. length s = SHARE_SIZE" by (simp add: sample_ods_def TAIL_PADDING_def const_v255_def)
  obtain rid where rid: "row_id_new 1 1 = Inr rid" by (simp add: row_id_new_def)
  have "1 < eds_square_width e" using s(2) by simp
  from row_verifies_iff [OF zero_encode_laws l s(1) list_nmt_laws list_nmt_binding s(3) this rid]
  obtain row where "row_new 1 e = Inr row" "row_verify list_nmt row rid dah = Inr ()" by metis
  then show ?thesis using s(1,3) rid by blast
qed

theorem sample_verifies_witness:
  "\<exists>e dah sid s. dah_from_eds list_nmt e = Inr dah \<and> sample_id_new 0 1 1 = Inr sid \<and> sample_new list_nmt 0 1 Col e = Inr s \<and>
     sample_verify list_nmt s sid dah = Inr ()"
proof -
  obtain e dah where s: "eds_ok e" "eds_square_width e = 2" "dah_from_eds list_nmt e = Inr dah" by (rule sample_square)
  obtain sid where sid: "sample_id_new 0 1 1 = Inr sid" by (simp add: sample_id_new_def row_id_new_def)
  have "0 < eds_square_width e" "1 < eds_square_width e" using s(2) by simp_all
  from sample_verifies [OF list_nmt_laws list_nmt_proof_laws hash_parse_law s(1,3) this sid, of Col]
  show ?thesis using s(3) sid by blast
qed

end
