(* ===== verification/Byzantine.thy ===== *)
theory Byzantine
  imports Shwap_Data Extended_Header
begin

text \<open>
  Fraud proofs for badly encoded squares, \<^verbatim>\<open>types/src/byzantine.rs\<close> and \<^verbatim>\<open>types/src/fraud_proof.rs\<close>: the proof of a
  full node that a row or column committed to in a header is not a code word, its validation against the header, and
  its protobuf message. The tree, the erasure code and the parser of hashes are arguments, as for the squares.
\<close>

section \<open>Proofs\<close>

record nmt_leaf =
  nlf_namespace :: namespace
  nlf_share :: bytes

definition nmt_leaf_new :: "bytes \<Rightarrow> (nmt_leaf, types_error) result" where
  "nmt_leaf_new bytes =
     (if length bytes \<noteq> SHARE_SIZE + NS_SIZE then Inl (InvalidNmtLeafSize (length bytes))
      else try_bind (from_raw (take NS_SIZE bytes)) (\<lambda>namespace.
        Inr \<lparr> nlf_namespace = namespace, nlf_share = drop NS_SIZE bytes \<rparr>))"

definition nmt_leaf_to_vec :: "nmt_leaf \<Rightarrow> bytes" where
  "nmt_leaf_to_vec self = as_bytes (nlf_namespace self) @ nlf_share self"

record share_with_proof =
  swp_leaf :: nmt_leaf
  swp_proof :: namespace_proof
  swp_proof_axis :: axis_type

record bad_encoding_fraud_proof =
  bf_header_hash :: hash
  bf_block_height :: nat
  bf_shares :: "share_with_proof option list"
  bf_index :: nat
  bf_axis :: axis_type

definition unwrap :: "'a option \<Rightarrow> ('a, types_error) result" where
  "unwrap = ok_or (Panic ''called `Option::unwrap()` on a `None` value'')"

text \<open>The loop that checks the Merkle proof of every share that is present.\<close>

fun verify_proofs ::
  "'t nmt_lib \<Rightarrow> data_availability_header \<Rightarrow> axis_type \<Rightarrow> nat \<Rightarrow> nat \<Rightarrow> share_with_proof option list \<Rightarrow> (unit, types_error) result" where
  "verify_proofs lib dah axis index share_idx [] = Inr ()" |
  "verify_proofs lib dah axis index share_idx (None # shares) = verify_proofs lib dah axis index (share_idx + 1) shares" |
  "verify_proofs lib dah axis index share_idx (Some swp # shares) =
     try_bind (case (axis, swp_proof_axis swp) of
         (Row, Row) \<Rightarrow> unwrap (row_root dah index)
       | (Row, Col) \<Rightarrow> unwrap (column_root dah share_idx)
       | (Col, Row) \<Rightarrow> unwrap (row_root dah share_idx)
       | (Col, Col) \<Rightarrow> unwrap (column_root dah index)) (\<lambda>root.
     if nl_verify_range lib (swp_proof swp) root [nlf_share (swp_leaf swp)] (nlf_namespace (swp_leaf swp))
     then verify_proofs lib dah axis index (share_idx + 1) shares
     else Inl RangeProofError)"

text \<open>The loop that rebuilds the tree. \<open>None\<close>: a leaf was refused.\<close>

fun rebuild_tree :: "'t nmt_lib \<Rightarrow> nat \<Rightarrow> nat \<Rightarrow> 't \<Rightarrow> bytes list \<Rightarrow> ('t option, types_error) result" where
  "rebuild_tree lib ods_width n nmt [] = Inr (Some nmt)" |
  "rebuild_tree lib ods_width n nmt (share # shares) =
     try_bind (if n < ods_width then
         (if length share < NS_SIZE then Inl (Panic ''range end index out of range'')
          else map_err (\<lambda>_. Panic ''called `Result::unwrap()` on an `Err` value'') (from_raw (take NS_SIZE share)))
       else Inr PARITY_SHARE) (\<lambda>ns.
     case nl_push_leaf lib nmt share ns of
       Inl _ \<Rightarrow> Inr None
     | Inr nmt \<Rightarrow> rebuild_tree lib ods_width (n + 1) nmt shares)"

abbreviation invalid_befp :: "string \<Rightarrow> ('a, types_error) result" where
  "invalid_befp msg \<equiv> Inl (Validation (ValidationOther msg))"

definition befp_validate ::
  "'t nmt_lib \<Rightarrow> codec_fun \<Rightarrow> codec_fun \<Rightarrow> bad_encoding_fraud_proof \<Rightarrow> extended_header \<Rightarrow> (unit, types_error) result" where
  "befp_validate lib encode reconstruct self header =
     (let dah = eh_dah header in
      if height header \<noteq> bf_block_height self then invalid_befp ''header height ({}) != fraud proof height ({})''
      else if length (row_roots dah) \<noteq> length (column_roots dah) then invalid_befp ''dah rows len ({}) != dah columns len ({})''
      else try_bind (dah_square_width dah) (\<lambda>square_width.
      let ods_width = square_width div 2 in
      if square_width \<le> bf_index self then invalid_befp ''fraud proof index ({}) >= dah square width ({})''
      else if length (bf_shares self) \<noteq> square_width then invalid_befp ''fraud proof shares len ({}) != dah square width ({})''
      else let shares_count = length (filter (\<lambda>s. s \<noteq> None) (bf_shares self)) in
      if shares_count < ods_width then invalid_befp ''fraud proof present shares count ({shares_count}) < dah ods width ({ods_width})''
      else try_bind (verify_proofs lib dah (bf_axis self) (bf_index self) 0 (bf_shares self)) (\<lambda>_.
        let rebuilt_shares = map (\<lambda>s. case s of Some swp \<Rightarrow> nlf_share (swp_leaf swp) | None \<Rightarrow> []) (bf_shares self) in
        case reconstruct rebuilt_shares ods_width of
          Inl _ \<Rightarrow> Inr ()
        | Inr rebuilt_shares \<Rightarrow>
          (case encode rebuilt_shares ods_width of
             Inl _ \<Rightarrow> Inr ()
           | Inr rebuilt_shares \<Rightarrow>
             try_bind (rebuild_tree lib ods_width 0 (nl_default lib) rebuilt_shares) (\<lambda>nmt.
             case nmt of
               None \<Rightarrow> Inr ()
             | Some nmt \<Rightarrow>
               try_bind (case bf_axis self of
                   Row \<Rightarrow> unwrap (row_root dah (bf_index self))
                 | Col \<Rightarrow> unwrap (column_root dah (bf_index self))) (\<lambda>expected_root.
               if nl_root lib nmt = expected_root then invalid_befp ''recomputed root hash matches the one in header''
               else Inr ()))))))"

section \<open>Messages\<close>

record raw_share_with_proof =
  rsp_data :: bytes
  rsp_proof :: "raw_proof option"
  rsp_proof_axis :: int

record raw_bad_encoding =
  rbe_header_hash :: bytes
  rbe_height :: nat
  rbe_shares :: "raw_share_with_proof list"
  rbe_index :: nat
  rbe_axis :: int

definition swp_try_from ::
  "'t nmt_lib \<Rightarrow> (bytes \<Rightarrow> namespaced_hash option) \<Rightarrow> raw_share_with_proof \<Rightarrow> (share_with_proof, types_error) result" where
  "swp_try_from lib parse value =
     try_bind (nmt_leaf_new (rsp_data value)) (\<lambda>leaf.
     try_bind (ok_or MissingProof (rsp_proof value)) (\<lambda>proof.
     try_bind (proof_try_from lib parse proof) (\<lambda>proof.
     if is_of_absence proof then Inl WrongProofType
     else try_bind (axis_try_from (rsp_proof_axis value)) (\<lambda>proof_axis.
       Inr \<lparr> swp_leaf = leaf, swp_proof = proof, swp_proof_axis = proof_axis \<rparr>))))"

definition swp_into_raw :: "share_with_proof \<Rightarrow> raw_share_with_proof" where
  "swp_into_raw value =
     \<lparr> rsp_data = nmt_leaf_to_vec (swp_leaf value), rsp_proof = Some (proof_into_raw (swp_proof value)),
       rsp_proof_axis = axis_as_i32 (swp_proof_axis value) \<rparr>"

text \<open>The hash and the height are parsed by code of \<open>tendermint\<close>, the arguments \<open>parse_hash\<close> and \<open>parse_height\<close>.\<close>

definition befp_try_from ::
  "'t nmt_lib \<Rightarrow> (bytes \<Rightarrow> namespaced_hash option) \<Rightarrow> (bytes \<Rightarrow> hash option) \<Rightarrow> (nat \<Rightarrow> nat option) \<Rightarrow>
     raw_bad_encoding \<Rightarrow> (bad_encoding_fraud_proof, types_error) result" where
  "befp_try_from lib parse parse_hash parse_height value =
     try_bind (axis_try_from (rbe_axis value)) (\<lambda>axis.
     try_bind (if rbe_index value \<le> u16_max then Inr (rbe_index value) else Inl EdsInvalidDimentions) (\<lambda>index.
     try_bind (try_map (\<lambda>share. if rsp_proof share \<noteq> None
         then try_bind (swp_try_from lib parse share) (\<lambda>s. Inr (Some s)) else Inr None) (rbe_shares value)) (\<lambda>shares.
     try_bind (ok_or Tendermint (parse_hash (rbe_header_hash value))) (\<lambda>header_hash.
     try_bind (ok_or Tendermint (parse_height (rbe_height value))) (\<lambda>block_height.
     Inr \<lparr> bf_header_hash = header_hash, bf_block_height = block_height, bf_shares = shares, bf_index = index, bf_axis = axis \<rparr>)))))"

definition hash_into_bytes :: "hash \<Rightarrow> bytes" where
  "hash_into_bytes h = (case h of Sha256 bs \<Rightarrow> bs | NoHash \<Rightarrow> [])"

definition befp_into_raw :: "bad_encoding_fraud_proof \<Rightarrow> raw_bad_encoding" where
  "befp_into_raw value =
     \<lparr> rbe_header_hash = hash_into_bytes (bf_header_hash value), rbe_height = bf_block_height value,
       rbe_shares = map (\<lambda>share. case share of Some s \<Rightarrow> swp_into_raw s
         | None \<Rightarrow> \<lparr> rsp_data = [], rsp_proof = None, rsp_proof_axis = 0 \<rparr>) (bf_shares value),
       rbe_index = bf_index value, rbe_axis = axis_as_i32 (bf_axis value) \<rparr>"

section \<open>Fraud proofs of any kind\<close>

definition BEFP_TYPE :: string where
  "BEFP_TYPE = ''badencoding''"

record raw_fraud_proof =
  rfp_proof_type :: string
  rfp_data :: bytes

datatype fraud_proof = BadEncoding bad_encoding_fraud_proof

definition fraud_proof_try_from ::
  "(bytes \<Rightarrow> (bad_encoding_fraud_proof, types_error) result) \<Rightarrow> raw_fraud_proof \<Rightarrow> (fraud_proof, types_error) result" where
  "fraud_proof_try_from decode_vec value =
     (if rfp_proof_type value = BEFP_TYPE then try_bind (decode_vec (rfp_data value)) (\<lambda>befp. Inr (BadEncoding befp))
      else Inl (UnsupportedFraudProofType (rfp_proof_type value)))"

definition fraud_proof_into_raw :: "(bad_encoding_fraud_proof \<Rightarrow> bytes) \<Rightarrow> fraud_proof \<Rightarrow> raw_fraud_proof" where
  "fraud_proof_into_raw encode_vec value =
     (case value of BadEncoding befp \<Rightarrow> \<lparr> rfp_proof_type = BEFP_TYPE, rfp_data = encode_vec befp \<rparr>)"

text \<open>A proof survives its message; a share that is missing is the empty message.\<close>

definition swp_ok :: "share_with_proof \<Rightarrow> bool" where
  "swp_ok s \<longleftrightarrow> length (nlf_share (swp_leaf s)) = SHARE_SIZE \<and> valid_namespace (as_bytes (nlf_namespace (swp_leaf s))) \<and>
     proof_ok (swp_proof s) \<and> \<not> is_of_absence (swp_proof s)"

lemma swp_roundtrip:
  assumes "nmt_laws lib" "parse_law parse" "swp_ok s"
  shows "swp_try_from lib parse (swp_into_raw s) = Inr s"
proof -
  have "length (as_bytes (nlf_namespace (swp_leaf s))) = NS_SIZE" using assms(3) by (simp add: swp_ok_def valid_namespace_def)
  moreover have "from_raw (as_bytes (nlf_namespace (swp_leaf s))) = Inr (nlf_namespace (swp_leaf s))"
    using assms(3) by (simp add: swp_ok_def from_raw_Inr_iff)
  ultimately have "nmt_leaf_new (nmt_leaf_to_vec (swp_leaf s)) = Inr (swp_leaf s)" using assms(3)
    by (simp add: nmt_leaf_new_def nmt_leaf_to_vec_def swp_ok_def)
  then show ?thesis using proof_roundtrip [OF assms(1,2)] assms(3)
    by (cases "swp_proof_axis s") (simp_all add: swp_try_from_def swp_into_raw_def swp_ok_def axis_as_i32_def axis_try_from_def)
qed

lemma befp_roundtrip:
  assumes "nmt_laws lib" "parse_law parse" "parse_hash (hash_into_bytes (bf_header_hash p)) = Some (bf_header_hash p)"
    "parse_height (bf_block_height p) = Some (bf_block_height p)" "bf_index p \<le> u16_max" "\<forall>s. Some s \<in> set (bf_shares p) \<longrightarrow> swp_ok s"
  shows "befp_try_from lib parse parse_hash parse_height (befp_into_raw p) = Inr p"
proof -
  have "(if rsp_proof r \<noteq> None then try_bind (swp_try_from lib parse r) (\<lambda>s. Inr (Some s)) else Inr None) = Inr x"
    if "x \<in> set (bf_shares p)" "r = (case x of Some s \<Rightarrow> swp_into_raw s | None \<Rightarrow> \<lparr> rsp_data = [], rsp_proof = None, rsp_proof_axis = 0 \<rparr>)" for x r
  proof (cases x)
    case (Some s)
    then show ?thesis using that assms(6) swp_roundtrip [OF assms(1,2), of s] by (simp add: swp_into_raw_def)
  qed (use that in simp)
  then have "try_map (\<lambda>share. if rsp_proof share \<noteq> None then try_bind (swp_try_from lib parse share) (\<lambda>s. Inr (Some s)) else Inr None)
      (rbe_shares (befp_into_raw p)) = Inr (bf_shares p)"
    unfolding try_map_Inr_iff befp_into_raw_def raw_bad_encoding.select_convs list_all2_map1 by (intro list.rel_refl_strong) blast
  then show ?thesis using assms(3-5)
    by (cases "bf_axis p") (simp_all add: befp_try_from_def, simp_all add: befp_into_raw_def axis_as_i32_def axis_try_from_def)
qed

section \<open>The rebuilt tree\<close>

text \<open>
  What the check relies on of the erasure code: \<open>k\<close> of the \<open>2 * k\<close> shards of a code word bring its data shards back,
  and shards that are all present are left alone.
\<close>

definition reconstruct_law :: "codec_fun \<Rightarrow> codec_fun \<Rightarrow> nat \<Rightarrow> bool" where
  "reconstruct_law encode reconstruct k \<longleftrightarrow>
     (\<forall>l present. good_line (2 * k) l \<longrightarrow> codeword encode k l \<longrightarrow> length present = 2 * k \<longrightarrow> k \<le> length (filter id present) \<longrightarrow>
        (\<exists>l'. reconstruct (map2 (\<lambda>p s. if p then s else []) present l) k = Inr l' \<and> good_line (2 * k) l' \<and> take k l' = take k l))"

definition reconstruct_nothing :: "codec_fun \<Rightarrow> nat \<Rightarrow> bool" where
  "reconstruct_nothing reconstruct k \<longleftrightarrow> (\<forall>l. good_line (2 * k) l \<longrightarrow> reconstruct l k = Inr l)"

definition line_leaves :: "nat \<Rightarrow> nat \<Rightarrow> bytes list \<Rightarrow> (bytes \<times> namespace) list" where
  "line_leaves k n l = map (\<lambda>(i, s). (s, if i < k then Namespace (take NS_SIZE s) else PARITY_SHARE)) (List.enumerate n l)"

definition data_prefixes_ok :: "nat \<Rightarrow> bytes list \<Rightarrow> bool" where
  "data_prefixes_ok k l \<longleftrightarrow> (\<forall>s \<in> set (take k l). valid_namespace (take NS_SIZE s))"

lemma rebuild_tree_leaves:
  assumes "data_prefixes_ok (k - n) l"
  shows "rebuild_tree lib k n t l = (case tree_of lib t (line_leaves k n l) of Inl _ \<Rightarrow> Inr None | Inr u \<Rightarrow> Inr (Some u))"
  using assms
proof (induction l arbitrary: n t)
  case (Cons s l)
  have "(if n < k then (if length s < NS_SIZE then Inl (Panic ''range end index out of range'')
          else map_err (\<lambda>_. Panic ''called `Result::unwrap()` on an `Err` value'') (from_raw (take NS_SIZE s)))
       else Inr PARITY_SHARE) = Inr (if n < k then Namespace (take NS_SIZE s) else PARITY_SHARE)"
  proof (cases "n < k")
    case True
    then have v: "valid_namespace (take NS_SIZE s)" using Cons.prems by (auto simp: data_prefixes_ok_def take_Cons' split: if_splits)
    then have "from_raw (take NS_SIZE s) = Inr (Namespace (take NS_SIZE s))" by (simp add: from_raw_Inr_iff)
    moreover have "\<not> length s < NS_SIZE" using v by (auto simp: valid_namespace_def)
    ultimately show ?thesis using True by simp
  qed simp
  moreover have "data_prefixes_ok (k - Suc n) l" using Cons.prems
    by (cases "n < k") (auto simp: data_prefixes_ok_def take_Cons' split: if_splits)
  ultimately show ?case using Cons.IH [of "Suc n"]
    by (auto simp: line_leaves_def try_bind_def split: sum.split)
qed (simp add: line_leaves_def)

lemma rebuild_tree_panic:
  "rebuild_tree lib k n t l = Inl e \<Longrightarrow> \<exists>msg. e = Panic msg"
  by (induction l arbitrary: n t)
    (auto simp: map_err_def try_bind_def split: sum.splits if_splits)

lemma verify_proofs_outcome:
  assumes "length (row_roots dah) = w" "length (column_roots dah) = w" "i < w" "n + length shares \<le> w"
  shows "verify_proofs lib dah axis i n shares \<in> {Inr (), Inl RangeProofError}"
  using assms(4)
proof (induction shares arbitrary: n)
  case (Cons s shares)
  then show ?case using assms(1-3)
    by (cases s; cases axis; cases "swp_proof_axis (the s)") (auto simp: unwrap_def row_root_def column_root_def list_get_def)
qed simp

lemma befp_validate_run:
  assumes "height header = bf_block_height p" "length (row_roots (eh_dah header)) = 2 * k" "length (column_roots (eh_dah header)) = 2 * k"
    "2 * k \<le> u16_max" "bf_index p < 2 * k" "length (bf_shares p) = 2 * k" "k \<le> length (filter (\<lambda>s. s \<noteq> None) (bf_shares p))"
    "verify_proofs lib (eh_dah header) (bf_axis p) (bf_index p) 0 (bf_shares p) = Inr ()"
    "reconstruct (map (\<lambda>s. case s of Some swp \<Rightarrow> nlf_share (swp_leaf swp) | None \<Rightarrow> []) (bf_shares p)) k = Inr l"
    "encode l k = Inr l'"
    "axis_root (eh_dah header) (bf_axis p) (bf_index p) = Some r"
  shows "befp_validate lib encode reconstruct p header =
    try_bind (rebuild_tree lib k 0 (nl_default lib) l') (\<lambda>t. case t of None \<Rightarrow> Inr ()
      | Some t \<Rightarrow> if nl_root lib t = r then invalid_befp ''recomputed root hash matches the one in header'' else Inr ())"
  using assms by (cases "bf_axis p")
    (auto simp: befp_validate_def Let_def dah_square_width_def unwrap_def intro!: arg_cong2 [where f = try_bind] ext split: option.split)

lemma axis_line:
  assumes "encode_laws encode" "\<forall>s \<in> set ods. length s = SHARE_SIZE" "from_ods encode ods v = Inr e"
    "i < eds_square_width e div 2"
  obtains k l where "eds_square_width e = 2 * k" "0 < k" "k \<le> 128" "eds_ok e" "l = map share_to_vec (axis_cells e axis i)"
    "good_line (2 * k) l" "codeword encode k l" "data_prefixes_ok k l" "line_leaves k 0 l = map leaf_of (axis_cells e axis i)"
proof -
  obtain k where k: "eds_ok e" "eds_square_width e = 2 * k" "0 < k" "k \<le> 128"
    "\<forall>i < 2 * k. codeword encode k (map share_to_vec (axis_cells e Row i))"
    "\<forall>i < k. codeword encode k (map share_to_vec (axis_cells e Col i))"
    by (rule from_ods_square [OF assms(1-3)])
  let ?cell = "\<lambda>j. case axis of Row \<Rightarrow> cell e i j | Col \<Rightarrow> cell e j i"
  let ?l = "map share_to_vec (axis_cells e axis i)"
  have i: "i < k" using assms(4) k(2) by simp
  have ok: "share_ok (?cell j)" "sh_parity (?cell j) = (\<not> j < k)" if "j < 2 * k" for j
    using eds_okD(3,4) [OF k(1)] k(2) i that by (cases axis; simp)+
  have nth: "?l ! j = sh_data (?cell j)" "axis_cells e axis i ! j = ?cell j" if "j < 2 * k" for j
    using that k(2) by (cases axis; simp add: axis_cells_def share_to_vec_def)+
  have "good_line (2 * k) ?l" using k(2) nth(1) ok(1) unfolding good_line_def
    by (auto simp: all_set_conv_all_nth share_ok_def)
  moreover have "codeword encode k ?l" using k(5,6) i by (cases axis) auto
  moreover have "data_prefixes_ok k ?l" unfolding data_prefixes_ok_def all_set_conv_all_nth
    using nth(1) ok k(2) by (auto simp: share_ok_def)
  moreover have "line_leaves k 0 ?l = map leaf_of (axis_cells e axis i)"
    by (rule nth_equalityI) (use nth ok k(2) in \<open>auto simp: line_leaves_def nth_enumerate_eq leaf_of_def share_namespace_def share_to_vec_def\<close>)
  ultimately show ?thesis using that k by blast
qed

lemma dah_lengths:
  assumes "nmt_laws lib" "eds_ok e" "dah_from_eds lib e = Inr dah"
  shows "length (row_roots dah) = eds_square_width e" "length (column_roots dah) = eds_square_width e"
  using dah_from_eds_roots [OF assms(1,2)] assms(3) by (metis sum.inject(2))+

lemma encode_same:
  assumes "encode_laws encode" "good_line (2 * k) l'" "0 < k" "k \<le> 2 ^ 15" "codeword encode k l" "take k l' = take k l"
  shows "encode l' k = Inr l"
proof -
  obtain parity where p: "good_line k parity" "encode l' k = (if k \<le> 2 ^ 15 then Inr (take k l' @ parity) else Inl ())"
    "k \<le> 2 ^ 15 \<longrightarrow> codeword encode k (take k l' @ parity)" by (rule encode_parity [OF assms(1-3)])
  have "length (take k l') = k" using assms(2) by (simp add: good_line_def)
  then have "take k (take k l' @ parity) = take k l'" by simp
  then have "take k (take k l' @ parity) = take k l" using assms(6) by simp
  then have "take k l' @ parity = l" using p(3) assms(4,5) unfolding codeword_def by simp
  then show ?thesis using p(2) assms(4) by simp
qed

text \<open>Shares that are the code word's at their positions bring the code word back.\<close>

lemma rebuilt_codeword:
  assumes "encode_laws encode" "reconstruct_law encode reconstruct k" "good_line (2 * k) l" "0 < k" "k \<le> 2 ^ 15" "codeword encode k l"
    "length shares = 2 * k" "k \<le> length (filter (\<lambda>s. s \<noteq> None) shares)"
    "\<And>j swp. j < 2 * k \<Longrightarrow> shares ! j = Some swp \<Longrightarrow> nlf_share (swp_leaf swp) = l ! j"
  obtains l' where "reconstruct (map (\<lambda>s. case s of Some swp \<Rightarrow> nlf_share (swp_leaf swp) | None \<Rightarrow> []) shares) k = Inr l'"
    "encode l' k = Inr l"
proof -
  let ?present = "map (\<lambda>s. s \<noteq> None) shares"
  have "map (\<lambda>s. case s of Some swp \<Rightarrow> nlf_share (swp_leaf swp) | None \<Rightarrow> []) shares = map2 (\<lambda>p s. if p then s else []) ?present l"
    by (rule nth_equalityI) (use assms(3,7,9) in \<open>auto simp: good_line_def split: option.split\<close>)
  moreover have "k \<le> length (filter id ?present)" "length ?present = 2 * k" using assms(7,8) by (simp_all add: filter_map comp_def)
  ultimately obtain l' where l': "reconstruct (map (\<lambda>s. case s of Some swp \<Rightarrow> nlf_share (swp_leaf swp) | None \<Rightarrow> []) shares) k = Inr l'"
      "good_line (2 * k) l'" "take k l' = take k l"
    using assms(2) [unfolded reconstruct_law_def, THEN spec, THEN spec, of l ?present] assms(3,6) by auto
  then show ?thesis using encode_same [OF assms(1) l'(2) assms(4-6) l'(3)] that by blast
qed

text \<open>
  (C23) A well-encoded block is not convicted: against the header of a square that \<open>from_ods\<close> built,
  \<open>BadEncodingFraudProof::validate\<close> refuses every proof about a row or column of the first half whose shares are the
  shares of the square at their positions, whichever of them it shows, and it does not panic.
\<close>

theorem honest_square_not_convicted:
  assumes "encode_laws encode" "reconstruct_law encode reconstruct (eds_square_width e div 2)" "\<forall>s \<in> set ods. length s = SHARE_SIZE" "from_ods encode ods v = Inr e"
    "nmt_laws lib" "dah_from_eds lib e = Inr (eh_dah header)" "bf_index p < eds_square_width e div 2"
    "\<forall>j swp. j < length (bf_shares p) \<longrightarrow> bf_shares p ! j = Some swp \<longrightarrow>
       Inr (nlf_share (swp_leaf swp)) = try_bind (let (r, c) = axis_coords (bf_axis p) (bf_index p) j in eds_share e r c) (\<lambda>s. Inr (share_to_vec s))"
  shows "\<exists>err. befp_validate lib encode reconstruct p header = Inl err \<and> (\<forall>msg. err \<noteq> Panic msg)"
proof -
  let ?axis = "bf_axis p" and ?i = "bf_index p" and ?dah = "eh_dah header"
  obtain k l where k: "eds_square_width e = 2 * k" "0 < k" "k \<le> 128" "eds_ok e" "l = map share_to_vec (axis_cells e ?axis ?i)"
    "good_line (2 * k) l" "codeword encode k l" "data_prefixes_ok k l" "line_leaves k 0 l = map leaf_of (axis_cells e ?axis ?i)"
    by (rule axis_line [OF assms(1,3,4,7)])
  have w: "length (row_roots ?dah) = 2 * k" "length (column_roots ?dah) = 2 * k" using dah_lengths [OF assms(5) k(4) assms(6)] k(1) by simp_all
  have i: "?i < 2 * k" "?i < eds_square_width e" using assms(7) k(1) by simp_all
  obtain t where t: "tree_of lib (nl_default lib) (map leaf_of (axis_cells e ?axis ?i)) = Inr t" "axis_root ?dah ?axis ?i = Some (nl_root lib t)"
    by (rule axis_roots [OF assms(5) k(4) assms(6) i(2)])
  let ?checks = "height header = bf_block_height p \<and> length (bf_shares p) = 2 * k \<and> k \<le> length (filter (\<lambda>s. s \<noteq> None) (bf_shares p)) \<and>
      verify_proofs lib ?dah ?axis ?i 0 (bf_shares p) = Inr ()"
  show ?thesis
  proof (cases ?checks)
    case False
    then show ?thesis using verify_proofs_outcome [OF w i(1), of 0 "bf_shares p" lib ?axis] w i(1) k(3)
      by (auto simp: befp_validate_def Let_def dah_square_width_def u16_max_def)
  next
    case True
    have nth: "nlf_share (swp_leaf swp) = l ! j" if "j < 2 * k" "bf_shares p ! j = Some swp" for j swp
      using assms(8) that True k(1,4,5) i(2) by (cases ?axis) (auto simp: axis_coords_def eds_share_cell axis_cells_def)
    have k15: "k \<le> 2 ^ 15" and rl: "reconstruct_law encode reconstruct k" using k(1,3) assms(2) by simp_all
    obtain l' where l': "reconstruct (map (\<lambda>s. case s of Some swp \<Rightarrow> nlf_share (swp_leaf swp) | None \<Rightarrow> []) (bf_shares p)) k = Inr l'"
      "encode l' k = Inr l" by (rule rebuilt_codeword [OF assms(1) rl k(6,2) k15 k(7) _ _ nth]) (use True in auto)
    have "rebuild_tree lib k 0 (nl_default lib) l = Inr (Some t)" using rebuild_tree_leaves [of k 0 l lib "nl_default lib"] k(8,9) t(1) by simp
    moreover have "2 * k \<le> u16_max" using k(3) by (simp add: u16_max_def)
    ultimately show ?thesis
      using befp_validate_run [where reconstruct = reconstruct and encode = encode and lib = lib, OF _ w _ i(1) _ _ _ l' t(2)] True by simp
  qed
qed

section \<open>Convictions\<close>

definition proven_share :: "'t nmt_lib \<Rightarrow> 't \<Rightarrow> (bytes \<times> namespace) list \<Rightarrow> axis_type \<Rightarrow> nat \<Rightarrow> share_with_proof" where
  "proven_share lib t leaves axis j =
     \<lparr> swp_leaf = \<lparr> nlf_namespace = snd (leaves ! j), nlf_share = fst (leaves ! j) \<rparr>,
       swp_proof = PresenceProof (nl_range_proof lib t j (j + 1)) True, swp_proof_axis = axis \<rparr>"

lemma verify_proven:
  assumes "nmt_laws lib" "tree_of lib (nl_default lib) leaves = Inr t" "axis_root dah axis i = Some (nl_root lib t)" "\<forall>j \<in> set js. j < length leaves"
  shows "verify_proofs lib dah axis i n (map (\<lambda>j. Some (proven_share lib t leaves axis j)) js) = Inr ()"
  using assms(4)
proof (induction js arbitrary: n)
  case (Cons j js)
  then show ?case using law_range [OF assms(1,2), of j] assms(3)
    by (cases axis) (auto simp: proven_share_def unwrap_def)
qed simp

lemma rebuild_tree_Some: "rebuild_tree lib k n t l = Inr (Some u) \<Longrightarrow> tree_of lib t (line_leaves k n l) = Inr u"
proof (induction l arbitrary: n t)
  case (Cons s l)
  let ?ns = "if n < k then Namespace (take NS_SIZE s) else PARITY_SHARE"
  have "\<exists>t'. nl_push_leaf lib t s ?ns = Inr t' \<and> rebuild_tree lib k (Suc n) t' l = Inr (Some u)"
    using Cons.prems by (cases "nl_push_leaf lib t s ?ns") (auto simp: try_bind_Inr_iff from_raw_Inr_iff split: if_splits)
  then show ?case using Cons.IH by (auto simp: line_leaves_def)
qed (simp add: line_leaves_def)

lemma proven_run:
  assumes "nmt_laws lib" "encode_laws encode" "reconstruct_nothing reconstruct k"
    "length (row_roots (eh_dah header)) = 2 * k" "length (column_roots (eh_dah header)) = 2 * k" "0 < k" "2 * k \<le> u16_max"
    "bf_block_height p = height header" "bf_index p < 2 * k"
    "tree_of lib (nl_default lib) leaves = Inr t" "axis_root (eh_dah header) (bf_axis p) (bf_index p) = Some (nl_root lib t)"
    "length leaves = 2 * k" "good_line (2 * k) (map fst leaves)"
    "bf_shares p = map (\<lambda>j. Some (proven_share lib t leaves (bf_axis p) j)) js" "length js = 2 * k" "\<forall>j \<in> set js. j < 2 * k"
  obtains l where "encode (map (\<lambda>j. fst (leaves ! j)) js) k = Inr l" "codeword encode k l" "take k l = take k (map (\<lambda>j. fst (leaves ! j)) js)"
    "befp_validate lib encode reconstruct p header =
      try_bind (rebuild_tree lib k 0 (nl_default lib) l) (\<lambda>t'. case t' of None \<Rightarrow> Inr ()
        | Some u \<Rightarrow> if nl_root lib u = nl_root lib t then invalid_befp ''recomputed root hash matches the one in header'' else Inr ())"
proof -
  let ?l = "map (\<lambda>j. fst (leaves ! j)) js"
  have good: "good_line (2 * k) ?l" using assms(12,13,15,16) unfolding good_line_def by auto
  have k15: "k \<le> 2 ^ 15" using assms(7) by (simp add: u16_max_def)
  have "is_ok (encode ?l k)" using encode_bound [OF assms(2) good assms(6)] k15 by simp
  then obtain l where l: "encode ?l k = Inr l" by (auto simp: is_ok_iff)
  have shares: "map (\<lambda>s. case s of Some swp \<Rightarrow> nlf_share (swp_leaf swp) | None \<Rightarrow> []) (bf_shares p) = ?l"
    using assms(14) by (simp add: proven_share_def comp_def)
  have rec: "reconstruct (map (\<lambda>s. case s of Some swp \<Rightarrow> nlf_share (swp_leaf swp) | None \<Rightarrow> []) (bf_shares p)) k = Inr ?l"
    unfolding shares using assms(3) good unfolding reconstruct_nothing_def by blast
  have ver: "verify_proofs lib (eh_dah header) (bf_axis p) (bf_index p) 0 (bf_shares p) = Inr ()"
    unfolding assms(14) by (rule verify_proven [OF assms(1,10,11)]) (use assms(12,16) in simp)
  have cnt: "length (bf_shares p) = 2 * k" "k \<le> length (filter (\<lambda>s. s \<noteq> None) (bf_shares p))" using assms(14,15) by (simp_all add: filter_map comp_def)
  show ?thesis
    by (rule that [OF l encode_codeword(1,3) [OF assms(2) good assms(6) k15 l]
          befp_validate_run [where reconstruct = reconstruct and encode = encode, OF assms(8) [symmetric] assms(4,5,7,9) cnt ver
            rec l assms(11)]])
qed

lemma map_fst_line_leaves: "map fst (line_leaves k n l) = l"
  by (induction l arbitrary: n) (auto simp: line_leaves_def)

lemma rebuild_differs:
  assumes "nmt_binding lib" "tree_of lib (nl_default lib) leaves = Inr t" "line_leaves k 0 l \<noteq> leaves"
  shows "try_bind (rebuild_tree lib k 0 (nl_default lib) l) (\<lambda>t'. case t' of None \<Rightarrow> Inr ()
      | Some u \<Rightarrow> if nl_root lib u = nl_root lib t then invalid_befp ''recomputed root hash matches the one in header'' else Inr ()) = Inr () \<or>
    (\<exists>msg. rebuild_tree lib k 0 (nl_default lib) l = Inl (Panic msg))"
proof (cases "rebuild_tree lib k 0 (nl_default lib) l")
  case (Inl x) then show ?thesis using rebuild_tree_panic [OF Inl] by auto
next
  case (Inr o')
  have "nl_root lib u \<noteq> nl_root lib t" if "o' = Some u" for u
    using rebuild_tree_Some [of lib k 0 "nl_default lib" l u] Inr that assms unfolding nmt_binding_def by metis
  then show ?thesis using Inr by (auto split: option.split)
qed


text \<open>
  The two ways in which the check convicts a well-encoded block. The position of a share in its Merkle proof is not
  compared with its position in the fraud proof, so that a share shown twice passes for an inconsistency; and the axes of
  the second half, whose shares are all parity, are rebuilt as if their first half were data.
\<close>

text \<open>The accusation of row \<open>i\<close> that shows the shares at the positions \<open>js\<close>, each with its own Merkle proof.\<close>

definition row_accusation :: "'t nmt_lib \<Rightarrow> eds \<Rightarrow> 't \<Rightarrow> extended_header \<Rightarrow> hash \<Rightarrow> nat \<Rightarrow> nat list \<Rightarrow> bad_encoding_fraud_proof" where
  "row_accusation lib e t header hh i js =
     \<lparr> bf_header_hash = hh, bf_block_height = height header,
       bf_shares = map (\<lambda>j. Some (proven_share lib t (map leaf_of (axis_cells e Row i)) Row j)) js, bf_index = i, bf_axis = Row \<rparr>"

lemma accusation_run:
  assumes "encode_laws encode" "reconstruct_nothing reconstruct k" "eds_ok e" "eds_square_width e = 2 * k"
    "nmt_laws lib" "dah_from_eds lib e = Inr (eh_dah header)" "i < 2 * k" "row_nmt lib e i = Inr t"
    "length js = 2 * k" "\<forall>j \<in> set js. j < 2 * k"
  obtains l where "tree_of lib (nl_default lib) (map leaf_of (axis_cells e Row i)) = Inr t"
    "codeword encode k l" "take k l = take k (map (\<lambda>j. share_to_vec (cell e i j)) js)"
    "befp_validate lib encode reconstruct (row_accusation lib e t header hh i js) header =
      try_bind (rebuild_tree lib k 0 (nl_default lib) l) (\<lambda>t'. case t' of None \<Rightarrow> Inr ()
        | Some u \<Rightarrow> if nl_root lib u = nl_root lib t then invalid_befp ''recomputed root hash matches the one in header'' else Inr ())"
proof -
  let ?leaves = "map leaf_of (axis_cells e Row i)" and ?p = "row_accusation lib e t header hh i js"
  have k: "0 < k" "2 * k \<le> u16_max" using eds_okD(1) [OF assms(3)] assms(4) by (auto simp: square_width_iff u16_max_def)
  note w = dah_lengths [OF assms(5,3,6), unfolded assms(4)]
  have iw: "i < eds_square_width e" using assms(4,7) by simp
  obtain t' where t': "axis_nmt lib e Row i = Inr t'" "tree_of lib (nl_default lib) ?leaves = Inr t'" "axis_root (eh_dah header) Row i = Some (nl_root lib t')"
    by (rule axis_roots [OF assms(5,3,6) iw])
  have t: "t' = t" using t'(1) assms(8) by (simp add: row_nmt_def)
  have shares: "bf_shares ?p = map (\<lambda>j. Some (proven_share lib t ?leaves (bf_axis ?p) j)) js" by (simp add: row_accusation_def)
  have fst: "map fst ?leaves = map share_to_vec (axis_cells e Row i)" by (simp add: leaf_of_def comp_def)
  have good: "good_line (2 * k) (map fst ?leaves)" unfolding fst good_line_def
    using assms(4) eds_okD(3) [OF assms(3) iw] by (auto simp: axis_cells_def share_ok_def share_to_vec_def)
  have nth: "map (\<lambda>j. fst (?leaves ! j)) js = map (\<lambda>j. share_to_vec (cell e i j)) js"
    using assms(4,10) by (simp add: leaf_of_def axis_cells_nth)
  obtain l where l: "encode (map (\<lambda>j. fst (?leaves ! j)) js) k = Inr l" "codeword encode k l" "take k l = take k (map (\<lambda>j. fst (?leaves ! j)) js)"
    "befp_validate lib encode reconstruct ?p header =
      try_bind (rebuild_tree lib k 0 (nl_default lib) l) (\<lambda>t'. case t' of None \<Rightarrow> Inr ()
        | Some u \<Rightarrow> if nl_root lib u = nl_root lib t then invalid_befp ''recomputed root hash matches the one in header'' else Inr ())"
    by (rule proven_run [OF assms(5,1,2) w k _ _ t'(2) [unfolded t] _ _ good shares assms(9,10)])
      (use assms(4,7) t'(3) t in \<open>auto simp: row_accusation_def\<close>)
  show ?thesis using that [OF t'(2) [unfolded t] l(2) _ l(4)] l(3) nth by simp
qed


text \<open>
  An accusation of a row of the second half with the shares of the square in their places is never refused: it is
  accepted, or the namespace of a parity share does not parse and the check panics.
\<close>

lemma parity_row_not_refused:
  assumes "encode_laws encode" "reconstruct_nothing reconstruct k" "eds_ok e" "eds_square_width e = 2 * k"
    "nmt_laws lib" "nmt_binding lib" "dah_from_eds lib e = Inr (eh_dah header)" "row_nmt lib e i = Inr t"
    "k \<le> i" "i < 2 * k" "Namespace (take NS_SIZE (share_to_vec (cell e i 0))) \<noteq> PARITY_SHARE"
  shows "befp_validate lib encode reconstruct (row_accusation lib e t header hh i [0..<2 * k]) header = Inr () \<or>
    (\<exists>msg. befp_validate lib encode reconstruct (row_accusation lib e t header hh i [0..<2 * k]) header = Inl (Panic msg))"
proof -
  have js: "length [0..<2 * k] = 2 * k" "\<forall>j \<in> set [0..<2 * k]. j < 2 * k" by simp_all
  obtain l where l: "tree_of lib (nl_default lib) (map leaf_of (axis_cells e Row i)) = Inr t" "codeword encode k l"
    "take k l = take k (map (\<lambda>j. share_to_vec (cell e i j)) [0..<2 * k])"
    "befp_validate lib encode reconstruct (row_accusation lib e t header hh i [0..<2 * k]) header =
      try_bind (rebuild_tree lib k 0 (nl_default lib) l) (\<lambda>t'. case t' of None \<Rightarrow> Inr ()
        | Some u \<Rightarrow> if nl_root lib u = nl_root lib t then invalid_befp ''recomputed root hash matches the one in header'' else Inr ())"
    by (rule accusation_run [OF assms(1-5,7,10,8) js])
  have "0 < k" using assms(9,10) by simp
  then have "take k l ! 0 = share_to_vec (cell e i 0)" "l \<noteq> []" unfolding l(3) using l(3) by auto
  then have "snd (line_leaves k 0 l ! 0) = Namespace (take NS_SIZE (share_to_vec (cell e i 0)))"
    using \<open>0 < k\<close> by (simp add: line_leaves_def nth_enumerate_eq)
  moreover have "snd (map leaf_of (axis_cells e Row i) ! 0) = PARITY_SHARE"
    using assms(4,9,10) eds_okD(4) [OF assms(3), of i 0] by (simp add: axis_cells_nth leaf_of_def share_namespace_def)
  ultimately have "line_leaves k 0 l \<noteq> map leaf_of (axis_cells e Row i)" using assms(11) by metis
  then show ?thesis using rebuild_differs [OF assms(6) l(1), of k l] l(4) by auto
qed

section \<open>Examples\<close>

text \<open>The code whose parity shards repeat the data shards.\<close>

definition copy_encode :: codec_fun where
  "copy_encode shards k = (if k \<le> 2 ^ 15 then Inr (take k shards @ take k shards) else Inl ())"

definition copy_reconstruct :: codec_fun where
  "copy_reconstruct shards k =
     (if list_all (\<lambda>s. s \<noteq> []) shards then Inr shards
      else Inr (map (\<lambda>i. if shards ! i \<noteq> [] then shards ! i else shards ! ((i + k) mod length shards)) [0..<length shards]))"

lemma copy_encode_laws: "encode_laws copy_encode"
  unfolding encode_laws_def
proof (intro allI impI)
  fix shards :: "bytes list" and k
  assume "length shards = 2 * k" "0 < k" "\<forall>s \<in> set shards. length s = SHARE_SIZE"
  then show "\<exists>parity. length parity = k \<and> (\<forall>s \<in> set parity. length s = SHARE_SIZE) \<and>
        (\<forall>old. length old = k \<longrightarrow> (\<forall>s \<in> set old. length s = SHARE_SIZE) \<longrightarrow>
           copy_encode (take k shards @ old) k = (if k \<le> 2 ^ 15 then Inr (take k shards @ parity) else Inl ()))"
    by (intro exI [of _ "take k shards"]) (auto simp: copy_encode_def dest: in_set_takeD)
qed

lemma copy_reconstruct_nothing: "reconstruct_nothing copy_reconstruct k"
  by (auto simp: reconstruct_nothing_def copy_reconstruct_def good_line_def list_all_iff)

lemma copy_reconstruct_law: "reconstruct_law copy_encode copy_reconstruct 1"
  unfolding reconstruct_law_def
proof (intro allI impI)
  fix l :: "bytes list" and present
  assume a: "good_line (2 * 1) l" "codeword copy_encode 1 l" "length present = 2 * 1" "1 \<le> length (filter id present)"
  have "length l = 2" using a(1) by (simp add: good_line_def)
  then obtain x y where l: "l = [x, y]" by (auto simp: numeral_2_eq_2 length_Suc_conv)
  have len: "length x = SHARE_SIZE" "length y = SHARE_SIZE" using a(1) l by (auto simp: good_line_def)
  obtain p q where p: "present = [p, q]" using a(3) by (auto simp: numeral_2_eq_2 length_Suc_conv)
  have pq: "p \<or> q" using a(4) p by (cases p; cases q) auto
  have xy: "x = y" "x \<noteq> []" using a(2) l len by (auto simp: codeword_def copy_encode_def)
  have "copy_reconstruct (map2 (\<lambda>p s. if p then s else []) present l) 1 = Inr l"
    using pq xy(2) unfolding p l xy(1) by (cases p; cases q) (simp_all add: copy_reconstruct_def upt_rec)
  then show "\<exists>l'. copy_reconstruct (map2 (\<lambda>p s. if p then s else []) present l) 1 = Inr l' \<and> good_line (2 * 1) l' \<and> take 1 l' = take 1 l"
    using a(1) by blast
qed

definition pad_share :: "byte \<Rightarrow> bytes" where
  "pad_share b = as_bytes TAIL_PADDING @ replicate 483 b"

definition pad_ods :: "nat \<Rightarrow> bytes list" where
  "pad_ods k = map (\<lambda>i. pad_share (of_nat (i mod 2))) [0..<k * k]"

lemma pad_share_namespace: "take NS_SIZE (pad_share b) = as_bytes TAIL_PADDING" "length (pad_share b) = SHARE_SIZE" "valid_namespace (as_bytes TAIL_PADDING)"
proof -
  have n: "length (as_bytes TAIL_PADDING) = 29" by (simp add: TAIL_PADDING_def const_v255_def)
  then show "take NS_SIZE (pad_share b) = as_bytes TAIL_PADDING" "length (pad_share b) = SHARE_SIZE" by (simp_all add: pad_share_def)
  show "valid_namespace (as_bytes TAIL_PADDING)" by (simp add: TAIL_PADDING_def const_v255_def valid_namespace_def numeral_eq_Suc)
qed

lemma pad_share_eq: "pad_share a = pad_share b \<longleftrightarrow> a = b"
  by (simp add: pad_share_def)

lemma pad_ods_ok: "width_ok (2 * k) \<Longrightarrow> ods_ok k (pad_ods k)"
proof -
  assume "width_ok (2 * k)"
  have ns: "ods_namespace k (pad_ods k) r c = TAIL_PADDING" if "r < k" "c < k" for r c
    using index_less [OF that] pad_share_namespace(1) by (simp add: ods_namespace_def pad_ods_def)
  have "map (\<lambda>c. ods_namespace k (pad_ods k) r c) [0..<k] = replicate k TAIL_PADDING"
    "map (\<lambda>c. ods_namespace k (pad_ods k) c r) [0..<k] = replicate k TAIL_PADDING" if "r < k" for r
    using ns that by (auto intro!: nth_equalityI)
  then show ?thesis using \<open>width_ok (2 * k)\<close> pad_share_namespace by (auto simp: ods_ok_def pad_ods_def)
qed

lemma pad_square:
  assumes "width_ok (2 * k)"
  obtains e and header :: extended_header where "from_ods copy_encode (pad_ods k) V1 = Inr e" "eds_ok e" "eds_square_width e = 2 * k"
    "\<forall>r < k. \<forall>c < k. share_to_vec (cell e r c) = pad_ods k ! (r * k + c)" "dah_from_eds list_nmt e = Inr (eh_dah header)"
proof -
  have lens: "\<forall>s \<in> set (pad_ods k). length s = SHARE_SIZE" using pad_share_namespace(2) by (auto simp: pad_ods_def)
  obtain e where e: "from_ods copy_encode (pad_ods k) V1 = Inr e"
    using from_ods_ok [OF copy_encode_laws lens pad_ods_ok [OF assms], of V1] by (auto simp: is_ok_iff)
  obtain k' where k': "eds_ok e" "eds_square_width e = 2 * k'" "length (pad_ods k) = k' * k'"
    "\<forall>r < k'. \<forall>c < k'. share_to_vec (cell e r c) = pad_ods k ! (r * k' + c)"
    by (rule from_ods_square [OF copy_encode_laws lens e])
  have "k * k = k' * k'" using k'(3) by (simp add: pad_ods_def)
  then have "floor_sqrt (k * k) = floor_sqrt (k' * k')" by (rule arg_cong)
  then have "k' = k" unfolding floor_sqrt_square by (rule sym)
  obtain dah where "dah_from_eds list_nmt e = Inr dah" by (rule dah_from_eds_roots [OF list_nmt_laws k'(1)])
  then show ?thesis using that [of e "(sample_header 1)\<lparr> eh_dah := dah \<rparr>"] e k' \<open>k' = k\<close> by simp
qed

lemma pad_lens: "\<forall>s \<in> set (pad_ods k). length s = SHARE_SIZE"
  using pad_share_namespace(2) by (auto simp: pad_ods_def)

lemma width_2: "width_ok (2 * 1)" and width_4: "width_ok (2 * 2)"
  by (auto simp: width_ok_def intro: exI [of _ 1] exI [of _ 2])


theorem honest_square_not_convicted_witness:
  "\<exists>e t header err. from_ods copy_encode (pad_ods 1) V1 = Inr e \<and> dah_from_eds list_nmt e = Inr (eh_dah header) \<and>
     befp_validate list_nmt copy_encode copy_reconstruct (row_accusation list_nmt e t header NoHash 0 [0, 1]) header = Inl err"
proof -
  obtain e and header :: extended_header where s: "from_ods copy_encode (pad_ods 1) V1 = Inr e" "eds_ok e" "eds_square_width e = 2 * 1"
    "dah_from_eds list_nmt e = Inr (eh_dah header)" by (rule pad_square [OF width_2])
  obtain t where t: "row_nmt list_nmt e 0 = Inr t" using axis_tree [OF list_nmt_laws s(2), of 0 Row] s(3) by (auto simp: row_nmt_def)
  let ?p = "row_accusation list_nmt e t header NoHash 0 [0, 1]"
  have "\<forall>j swp. j < length (bf_shares ?p) \<longrightarrow> bf_shares ?p ! j = Some swp \<longrightarrow>
       Inr (nlf_share (swp_leaf swp)) = try_bind (let (r, c) = axis_coords (bf_axis ?p) (bf_index ?p) j in eds_share e r c) (\<lambda>s. Inr (share_to_vec s))"
    using s(2,3) by (auto simp: row_accusation_def proven_share_def axis_coords_def eds_share_cell leaf_of_def axis_cells_nth less_Suc_eq)
  moreover have "bf_index ?p < eds_square_width e div 2" "reconstruct_law copy_encode copy_reconstruct (eds_square_width e div 2)"
    using s(3) copy_reconstruct_law by (simp_all add: row_accusation_def)
  ultimately show ?thesis
    using honest_square_not_convicted [OF copy_encode_laws _ pad_lens s(1) list_nmt_laws s(4), of copy_reconstruct ?p] s(1,4) by blast
qed


end
