(* ===== verification/Blob.thy ===== *)
theory Blob
  imports Share
begin

text \<open>
  Blobs, the shares they are split into and the commitment over these, from \<^verbatim>\<open>types/src/blob.rs\<close> and
  \<^verbatim>\<open>types/src/blob/commitment.rs\<close>. The namespaced Merkle tree (crate \<open>nmt_rs\<close>) and the Merkle hash of
  tendermint are arguments. A result is an \<open>option\<close> where the code has a loop that may not end: \<open>None\<close> stands
  for not returning.
\<close>

section \<open>Definitions\<close>

text \<open>Sequencing of computations that may not return: an error ends them.\<close>

definition and_then :: "('a, 'e) result option \<Rightarrow> ('a \<Rightarrow> ('b, 'e) result option) \<Rightarrow> ('b, 'e) result option" where
  "and_then m f = (case m of None \<Rightarrow> None | Some (Inl e) \<Rightarrow> Some (Inl e) | Some (Inr x) \<Rightarrow> f x)"

lemma and_then_simps [simp]:
  "and_then (Some (Inr x)) f = f x" "and_then (Some (Inl e)) f = Some (Inl e)" "and_then None f = None"
  by (simp_all add: and_then_def)

lemma and_then_Inr_iff: "and_then m f = Some (Inr y) \<longleftrightarrow> (\<exists>x. m = Some (Inr x) \<and> f x = Some (Inr y))"
  by (auto simp: and_then_def split: option.splits sum.splits)

subsection \<open>Splitting into shares\<close>

text \<open>The share built from the data at a position of the cursor, and the position after it.\<close>

definition build_sparse_share_v0 :: "namespace \<Rightarrow> bytes \<Rightarrow> nat \<Rightarrow> (share \<times> nat, types_error) result" where
  "build_sparse_share_v0 ns data position =
     (let is_first_share = (position = 0); data_len = length data; bytes = as_bytes ns in
      try_bind (ib_new SHARE_VERSION_ZERO is_first_share) (\<lambda>info_byte.
      let bytes = bytes @ [as_u8 info_byte] in
      try_bind (if is_first_share then
                  if data_len \<le> u32_max then Inr (bytes @ put_be 4 data_len) else Inl (ShareSequenceLenExceeded data_len)
                else Inr bytes) (\<lambda>bytes.
      let current_size = length bytes;
          available_space = SHARE_SIZE - current_size;
          read_amount = min available_space (length data - position);
          bytes = bytes @ replicate (SHARE_SIZE - current_size) 0;
          bytes = copy_from_slice bytes current_size (take read_amount (drop position data)) in
      try_bind (share_from_raw bytes) (\<lambda>share. Inr (share, position + read_amount)))))"

partial_function (option) split_loop ::
  "namespace \<Rightarrow> bytes \<Rightarrow> nat \<Rightarrow> share list \<Rightarrow> (share list, types_error) result option" where
  "split_loop ns data position shares =
     (if position < length data then
        case build_sparse_share_v0 ns data position of
          Inl e \<Rightarrow> Some (Inl e)
        | Inr (share, position') \<Rightarrow> split_loop ns data position' (shares @ [share])
      else Some (Inr shares))"

definition split_blob_to_shares :: "namespace \<Rightarrow> byte \<Rightarrow> bytes \<Rightarrow> (share list, types_error) result option" where
  "split_blob_to_shares ns share_version blob_data =
     (if share_version \<noteq> SHARE_VERSION_ZERO then Some (Inl (UnsupportedShareVersion share_version))
      else split_loop ns blob_data 0 [])"

subsection \<open>Powers of two\<close>

definition checked_shl :: "nat \<Rightarrow> nat \<Rightarrow> nat option" where
  "checked_shl x n = (if n < 64 then Some (wrap64 (x * 2 ^ n)) else None)"

partial_function (option) round_up_loop :: "nat \<Rightarrow> nat \<Rightarrow> nat option option" where
  "round_up_loop x po2 =
     (if x \<le> po2 then Some (Some po2)
      else case checked_shl po2 1 of
        Some next_po2 \<Rightarrow> round_up_loop x next_po2
      | None \<Rightarrow> Some None)"

definition round_up_to_power_of_2 :: "nat \<Rightarrow> nat option option" where
  "round_up_to_power_of_2 x = round_up_loop x 1"

definition round_down_to_power_of_2 :: "nat \<Rightarrow> nat option option" where
  "round_down_to_power_of_2 x =
     map_option (\<lambda>r. case r of
        Some po2 \<Rightarrow> if po2 = x then Some x else Some (po2 div 2)
      | None \<Rightarrow> None) (round_up_to_power_of_2 x)"

text \<open>
  \<open>(n as f64).sqrt().ceil() as u64\<close>, exact for the numbers of shares a blob can have (below $2^{32}$, where
  the square root of no other number rounds to an integer).
\<close>

definition ceil_sqrt :: "nat \<Rightarrow> nat" where
  "ceil_sqrt n = hd (filter (\<lambda>s. n \<le> s * s) [0..<Suc n])"

text \<open>\<open>expect\<close> on the result of a computation that may not return.\<close>

definition expect_some :: "string \<Rightarrow> 'a option option \<Rightarrow> ('a, types_error) result option" where
  "expect_some msg m = map_option (ok_or (Panic msg)) m"

definition blob_min_square_size :: "nat \<Rightarrow> (nat, types_error) result option" where
  "blob_min_square_size share_count =
     expect_some ''Failed to find minimum blob square size'' (round_up_to_power_of_2 (ceil_sqrt share_count))"

definition subtree_width :: "nat \<Rightarrow> nat \<Rightarrow> (nat, types_error) result option" where
  "subtree_width share_count threshold =
     (let s = share_count div threshold;
          s = (if share_count mod threshold \<noteq> 0 then s + 1 else s) in
      and_then (expect_some ''Failed to find next power of 2'' (round_up_to_power_of_2 s)) (\<lambda>s.
      and_then (blob_min_square_size share_count) (\<lambda>m. Some (Inr (min s m)))))"

partial_function (option) mountain_range_loop :: "nat \<Rightarrow> nat \<Rightarrow> nat list \<Rightarrow> (nat list, types_error) result option" where
  "mountain_range_loop total_size max_tree_size tree_sizes =
     (if total_size \<noteq> 0 then
        if max_tree_size \<le> total_size then
          mountain_range_loop (total_size - max_tree_size) max_tree_size (tree_sizes @ [max_tree_size])
        else case round_down_to_power_of_2 total_size of
            None \<Rightarrow> None
          | Some None \<Rightarrow> Some (Inl (Panic ''Failed to find next power of 2''))
          | Some (Some tree_size) \<Rightarrow>
              mountain_range_loop (total_size - tree_size) max_tree_size (tree_sizes @ [tree_size])
      else Some (Inr tree_sizes))"

definition merkle_mountain_range_sizes :: "nat \<Rightarrow> nat \<Rightarrow> (nat list, types_error) result option" where
  "merkle_mountain_range_sizes total_size max_tree_size = mountain_range_loop total_size max_tree_size []"

subsection \<open>Commitments\<close>

text \<open>The root of a namespaced Merkle tree with the given leaves, or why a leaf was refused, and the Merkle hash.\<close>

record ('r, 'h) commit_env =
  nmt_root :: "(bytes \<times> namespace) list \<Rightarrow> ('r, string) result"
  simple_hash :: "'r list \<Rightarrow> 'h"

text \<open>\<open>split_at\<close> panics when the index is out of bounds.\<close>

fun leaf_sets :: "nat list \<Rightarrow> share list \<Rightarrow> (share list list, types_error) result" where
  "leaf_sets [] shares = Inr []" |
  "leaf_sets (n # sizes) shares =
     (if n \<le> length shares then
        try_bind (leaf_sets sizes (drop n shares)) (\<lambda>sets. Inr (take n shares # sets))
      else Inl (Panic ''mid > len''))"

definition from_shares ::
  "('r, 'h) commit_env \<Rightarrow> namespace \<Rightarrow> share list \<Rightarrow> nat \<Rightarrow> ('h, types_error) result option" where
  "from_shares env ns shares threshold =
     and_then (subtree_width (length shares) threshold) (\<lambda>width.
     and_then (merkle_mountain_range_sizes (length shares) width) (\<lambda>tree_sizes.
     Some (try_bind (leaf_sets tree_sizes shares) (\<lambda>sets.
       try_bind (try_map (\<lambda>leaf_set. map_err Nmt (nmt_root env (map (\<lambda>leaf. (share_to_vec leaf, ns)) leaf_set))) sets)
         (\<lambda>subtree_roots. Inr (simple_hash env subtree_roots))))))"

definition from_blob ::
  "('r, 'h) commit_env \<Rightarrow> namespace \<Rightarrow> bytes \<Rightarrow> byte \<Rightarrow> nat \<Rightarrow> ('h, types_error) result option" where
  "from_blob env ns blob_data share_version threshold =
     and_then (split_blob_to_shares ns share_version blob_data) (\<lambda>shares.
     from_shares env ns shares threshold)"

subsection \<open>Blobs\<close>

record 'h blob =
  bl_namespace :: namespace
  bl_data :: bytes
  bl_share_version :: byte
  bl_commitment :: 'h
  bl_index :: "nat option"

definition blob_new :: "('r, 'h) commit_env \<Rightarrow> namespace \<Rightarrow> bytes \<Rightarrow> app_version \<Rightarrow> ('h blob, types_error) result option" where
  "blob_new env ns data app_version =
     and_then (from_blob env ns data 0 (subtree_root_threshold app_version)) (\<lambda>commitment.
     Some (Inr \<lparr> bl_namespace = ns, bl_data = data, bl_share_version = 0, bl_commitment = commitment, bl_index = None \<rparr>))"

record raw_blob =
  rb_namespace_id :: bytes
  rb_namespace_version :: nat
  rb_data :: bytes
  rb_share_version :: nat
  rb_signer :: bytes

definition blob_from_raw :: "('r, 'h) commit_env \<Rightarrow> raw_blob \<Rightarrow> app_version \<Rightarrow> ('h blob, types_error) result option" where
  "blob_from_raw env raw app_version =
     and_then (Some (new_namespace (of_nat (rb_namespace_version raw)) (rb_namespace_id raw))) (\<lambda>ns.
     and_then (from_blob env ns (rb_data raw) (of_nat (rb_share_version raw)) (subtree_root_threshold app_version)) (\<lambda>commitment.
     Some (Inr \<lparr> bl_namespace = ns, bl_data = rb_data raw, bl_share_version = of_nat (rb_share_version raw),
       bl_commitment = commitment, bl_index = None \<rparr>)))"

definition blob_into_raw :: "'h blob \<Rightarrow> raw_blob" where
  "blob_into_raw value =
     \<lparr> rb_namespace_id = ns_id (bl_namespace value), rb_namespace_version = unat (ns_version (bl_namespace value)),
       rb_data = bl_data value, rb_share_version = unat (bl_share_version value), rb_signer = [] \<rparr>"

definition blob_validate :: "('r, 'h) commit_env \<Rightarrow> 'h blob \<Rightarrow> app_version \<Rightarrow> (unit, types_error) result option" where
  "blob_validate env self app_version =
     and_then (from_blob env (bl_namespace self) (bl_data self) (bl_share_version self) (subtree_root_threshold app_version))
       (\<lambda>computed_commitment.
     if bl_commitment self \<noteq> computed_commitment
     then Some (Inl (Validation (ValidationOther ''blob commitment != localy computed commitment''))) else Some (Inr ()))"

definition to_shares :: "'h blob \<Rightarrow> (share list, types_error) result option" where
  "to_shares self = split_blob_to_shares (bl_namespace self) (bl_share_version self) (bl_data self)"

definition shares_needed_for_blob :: "nat \<Rightarrow> nat" where
  "shares_needed_for_blob blob_len =
     (case checked_sub blob_len FIRST_SPARSE_SHARE_CONTENT_SIZE of
        None \<Rightarrow> 1
      | Some without_first_share \<Rightarrow> 1 + div_ceil without_first_share CONTINUATION_SPARSE_SHARE_CONTENT_SIZE)"

definition shares_len :: "'h blob \<Rightarrow> nat" where
  "shares_len self =
     (case checked_sub (length (bl_data self)) FIRST_SPARSE_SHARE_CONTENT_SIZE of
        None \<Rightarrow> 1
      | Some without_first_share \<Rightarrow> 1 + div_ceil without_first_share CONTINUATION_SPARSE_SHARE_CONTENT_SIZE)"


subsection \<open>Reconstruction\<close>

text \<open>The loop over the continuation shares, and the shares left in the iterator.\<close>

fun collect_payloads ::
  "namespace \<Rightarrow> byte \<Rightarrow> nat \<Rightarrow> share list \<Rightarrow> bytes \<Rightarrow> (bytes, types_error) result \<times> share list" where
  "collect_payloads ns share_version 0 shares data = (Inr data, shares)" |
  "collect_payloads ns share_version (Suc n) [] data = (Inl MissingShares, [])" |
  "collect_payloads ns share_version (Suc n) (share # shares) data =
     (if share_namespace share \<noteq> ns then
        (Inl (BlobSharesMetadataMismatch ''expected namespace ({:?}) got ({:?})''), shares)
      else case share_info_byte share of
        None \<Rightarrow> (Inl (Panic ''non parity''), shares)
      | Some info_byte \<Rightarrow>
          if ib_version info_byte \<noteq> share_version then
            (Inl (BlobSharesMetadataMismatch ''expected share version ({}) got ({})''), shares)
          else if sequence_length share \<noteq> None then (Inl UnexpectedSequenceStart, shares)
          else case payload share of
            None \<Rightarrow> (Inl (Panic ''non parity''), shares)
          | Some p \<Rightarrow> collect_payloads ns share_version n shares (data @ p))"

definition reconstruct ::
  "('r, 'h) commit_env \<Rightarrow> share list \<Rightarrow> app_version \<Rightarrow> ('h blob, types_error) result option \<times> share list" where
  "reconstruct env shares app_version =
     (case shares of
        [] \<Rightarrow> (Some (Inl MissingShares), [])
      | first_share # shares \<Rightarrow>
        (case sequence_length first_share of
           None \<Rightarrow> (Some (Inl ExpectedShareWithSequenceStart), shares)
         | Some blob_len \<Rightarrow>
           (let ns = share_namespace first_share in
            if is_reserved ns then (Some (Inl UnexpectedReservedNamespace), shares)
            else case (share_info_byte first_share, payload first_share) of
              (Some info_byte, Some p) \<Rightarrow>
                (let shares_needed = shares_needed_for_blob blob_len in
                 case collect_payloads ns (ib_version info_byte) (shares_needed - 1) shares p of
                   (Inl e, shares) \<Rightarrow> (Some (Inl e), shares)
                 | (Inr data, shares) \<Rightarrow> (blob_new env ns (take blob_len data) app_version, shares))
            | _ \<Rightarrow> (Some (Inl (Panic ''non parity'')), shares))))"

lemma collect_payloads_rest: "collect_payloads ns v n shares data = (r, rest) \<Longrightarrow> length rest \<le> length shares"
  by (induction ns v n shares data rule: collect_payloads.induct) (auto split: if_splits option.splits intro: le_SucI)

lemma reconstruct_rest: "reconstruct env (share # shares) app_version = (r, rest) \<Longrightarrow> length rest \<le> length shares"
  by (auto simp: reconstruct_def Let_def split: option.splits if_splits prod.splits sum.splits dest: collect_payloads_rest)

function reconstruct_loop ::
  "('r, 'h) commit_env \<Rightarrow> share list \<Rightarrow> app_version \<Rightarrow> 'h blob list \<Rightarrow> ('h blob list, types_error) result option" where
  "reconstruct_loop env shares app_version blobs =
     (case dropWhile (\<lambda>shr. sequence_length shr = None) shares of
        [] \<Rightarrow> Some (Inr blobs)
      | start # shares \<Rightarrow>
        (case reconstruct env (start # shares) app_version of
           (None, _) \<Rightarrow> None
         | (Some (Inl e), _) \<Rightarrow> Some (Inl e)
         | (Some (Inr blob), shares) \<Rightarrow> reconstruct_loop env shares app_version (blobs @ [blob])))"
  by pat_completeness auto

termination
proof (relation "measure (\<lambda>(env, shares, app_version, blobs). length shares)")
  fix env :: "('r, 'h) commit_env" and shares app_version blobs start rest r rest' and x blob
  assume dw: "dropWhile (\<lambda>shr. sequence_length shr = None) shares = start # rest"
    and "(r, rest') = reconstruct env (start # rest) app_version"
  then have "length rest' \<le> length rest" by (metis reconstruct_rest)
  moreover have "length (start # rest) \<le> length shares" unfolding dw [symmetric] by (rule length_dropWhile_le)
  ultimately show "((env, rest', app_version, blobs @ [blob]), env, shares, app_version, blobs)
      \<in> measure (\<lambda>(env, shares, app_version, blobs). length shares)" by simp
qed simp

declare reconstruct_loop.simps [simp del]

definition reconstruct_all ::
  "('r, 'h) commit_env \<Rightarrow> share list \<Rightarrow> app_version \<Rightarrow> ('h blob list, types_error) result option" where
  "reconstruct_all env shares app_version =
     reconstruct_loop env (filter (\<lambda>shr. \<not> is_reserved (share_namespace shr)) shares) app_version []"


section \<open>The shares of a blob\<close>

definition share_in :: "namespace \<Rightarrow> nat option \<Rightarrow> bytes \<Rightarrow> share \<Rightarrow> bool" where
  "share_in ns len p s \<longleftrightarrow> share_ok s \<and> \<not> sh_parity s \<and> share_namespace s = ns \<and>
     map_option ib_version (share_info_byte s) = Some 0 \<and> sequence_length s = len \<and> payload s = Some p"

lemma share_layout:
  assumes ns: "valid_namespace (as_bytes ns)" and ib: "ib_version ib = 0" "is_sequence_start ib = (l \<noteq> [])"
    and len: "l = [] \<or> length l = 4" and sz: "length p = 482 - length l"
  defines "bs \<equiv> as_bytes ns @ [as_u8 ib] @ l @ p"
  shows "share_from_raw bs = Inr \<lparr> sh_data = bs, sh_parity = False \<rparr>"
    "share_in ns (if l = [] then None else Some (get_be l)) p \<lparr> sh_data = bs, sh_parity = False \<rparr>"
proof -
  have n: "length (as_bytes ns) = 29" using ns by (simp add: valid_namespace_def)
  have bs: "length bs = 512" "take 29 bs = as_bytes ns" "bs ! 29 = as_u8 ib" "drop 30 bs = l @ p"
    using n len sz by (auto simp: bs_def nth_append)
  show raw: "share_from_raw bs = Inr \<lparr> sh_data = bs, sh_parity = False \<rparr>"
    using bs ns by (simp add: share_from_raw_iff)
  have "drop 34 bs = drop 4 (drop 30 bs)" by simp
  then have "drop 34 bs = drop 4 (l @ p)" unfolding bs(4) .
  moreover have "InfoByte (as_u8 ib) = ib" by simp
  ultimately show "share_in ns (if l = [] then None else Some (get_be l)) p \<lparr> sh_data = bs, sh_parity = False \<rparr>"
    using ib bs len share_ok_raw [OF raw]
    by (auto simp: share_in_def share_namespace_def share_info_byte_def is_parity_def ib_from_raw_unchecked_def
        sequence_length_def payload_def SHARE_SEQUENCE_LENGTH_OFFSET_def)
qed

lemma copy_padded:
  "length hdr = h \<Longrightarrow> copy_from_slice (hdr @ replicate k 0) h (take (min k (length xs)) xs) = hdr @ take k xs @ replicate (k - length xs) 0"
  by (auto simp: copy_from_slice_def min_def)

lemma build_first:
  assumes "valid_namespace (as_bytes ns)" "length data \<le> u32_max"
  obtains s where "build_sparse_share_v0 ns data 0 = Inr (s, min 478 (length data))"
    "share_in ns (Some (length data)) (take 478 data @ replicate (478 - length data) 0) s"
proof -
  let ?p = "take 478 data @ replicate (478 - length data) 0"
  obtain ib where ib: "ib_new 0 True = Inr ib" "ib_version ib = 0" "is_sequence_start ib = True"
    by (rule ib_new_fields [of 0 True]) (auto simp: MAX_SHARE_VERSION_def)
  let ?l = "put_be 4 (length data)"
  have "length ?l = 4" by simp
  then have l: "?l \<noteq> []" by force
  have g: "get_be ?l = length data" using assms(2) by (intro get_put_be) (simp add: u32_max_def)
  have n: "length (as_bytes ns) = 29" using assms(1) by (simp add: valid_namespace_def)
  have bs: "copy_from_slice ((as_bytes ns @ [as_u8 ib] @ ?l) @ replicate 478 0) 34 (take (min 478 (length data)) data) =
      (as_bytes ns @ [as_u8 ib] @ ?l) @ ?p"
    by (rule copy_padded) (simp add: n)
  note lay = share_layout [OF assms(1) ib(2), of ?l ?p]
  show ?thesis
  proof (rule that)
    show "build_sparse_share_v0 ns data 0 = Inr (\<lparr> sh_data = as_bytes ns @ [as_u8 ib] @ ?l @ ?p, sh_parity = False \<rparr>, min 478 (length data))"
      using ib(1) assms(2) n bs lay(1) ib(3) l by (simp add: build_sparse_share_v0_def SHARE_VERSION_ZERO_def Let_def)
    show "share_in ns (Some (length data)) ?p \<lparr> sh_data = as_bytes ns @ [as_u8 ib] @ ?l @ ?p, sh_parity = False \<rparr>"
      using lay(2) ib(3) l g by simp
  qed
qed

lemma build_next:
  assumes "valid_namespace (as_bytes ns)" "0 < pos"
  obtains s where "build_sparse_share_v0 ns data pos = Inr (s, pos + min 482 (length data - pos))"
    "share_in ns None (take 482 (drop pos data) @ replicate (482 - (length data - pos)) 0) s"
proof -
  let ?d = "drop pos data"
  let ?p = "take 482 ?d @ replicate (482 - length ?d) 0"
  obtain ib where ib: "ib_new 0 False = Inr ib" "ib_version ib = 0" "is_sequence_start ib = False"
    by (rule ib_new_fields [of 0 False]) (auto simp: MAX_SHARE_VERSION_def)
  have n: "length (as_bytes ns) = 29" using assms(1) by (simp add: valid_namespace_def)
  have bs: "copy_from_slice ((as_bytes ns @ [as_u8 ib]) @ replicate 482 0) 30 (take (min 482 (length ?d)) ?d) =
      (as_bytes ns @ [as_u8 ib]) @ ?p"
    by (rule copy_padded) (simp add: n)
  note lay = share_layout [OF assms(1) ib(2), of "[]" ?p]
  show ?thesis
  proof (rule that)
    show "build_sparse_share_v0 ns data pos = Inr (\<lparr> sh_data = as_bytes ns @ [as_u8 ib] @ ?p, sh_parity = False \<rparr>, pos + min 482 (length data - pos))"
      using ib(1) assms(2) n bs lay(1) ib(3) by (simp add: build_sparse_share_v0_def SHARE_VERSION_ZERO_def Let_def)
    show "share_in ns None (take 482 (drop pos data) @ replicate (482 - (length data - pos)) 0)
        \<lparr> sh_data = as_bytes ns @ [as_u8 ib] @ ?p, sh_parity = False \<rparr>"
      using lay(2) ib(3) by simp
  qed
qed

lemma div_ceil_step: "0 < n \<Longrightarrow> 0 < k \<Longrightarrow> div_ceil n k = Suc (div_ceil (n - k) k)"
  by (cases "k \<le> n") (auto simp: div_ceil_def le_div_geq le_mod_geq)

abbreviation payloads :: "share list \<Rightarrow> bytes" where
  "payloads ss \<equiv> concat (map (\<lambda>s. the (payload s)) ss)"

definition continuation :: "namespace \<Rightarrow> share \<Rightarrow> bool" where
  "continuation ns s \<longleftrightarrow> (\<exists>p. share_in ns None p s)"

lemma split_loop_next:
  assumes "valid_namespace (as_bytes ns)" "0 < pos"
  shows "\<exists>ss pad. split_loop ns data pos acc = Some (Inr (acc @ ss)) \<and> (\<forall>s \<in> set ss. continuation ns s) \<and>
    length ss = div_ceil (length data - pos) 482 \<and> payloads ss = drop pos data @ replicate pad 0"
  using assms(2)
proof (induction "length data - pos" arbitrary: pos acc rule: less_induct)
  case less
  show ?case
  proof (cases "pos < length data")
    case False
    then show ?thesis by (auto simp: split_loop.simps [of ns data pos] div_ceil_def intro!: exI [of _ 0])
  next
    case True
    let ?pos = "pos + min 482 (length data - pos)"
    obtain s where s: "build_sparse_share_v0 ns data pos = Inr (s, ?pos)"
      "share_in ns None (take 482 (drop pos data) @ replicate (482 - (length data - pos)) 0) s"
      by (rule build_next [OF assms(1) less.prems])
    have m: "length data - ?pos < length data - pos" "0 < ?pos" using True less.prems by auto
    from less.hyps [OF m, of "acc @ [s]"] obtain ss pad where ss: "split_loop ns data ?pos (acc @ [s]) = Some (Inr ((acc @ [s]) @ ss))"
      "\<forall>s \<in> set ss. continuation ns s" "length ss = div_ceil (length data - ?pos) 482" "payloads ss = drop ?pos data @ replicate pad 0"
      by (elim exE conjE) (rule that)
    have "length data - ?pos = length data - pos - 482" by simp
    then have len: "length (s # ss) = div_ceil (length data - pos) 482"
      using ss(3) div_ceil_step [of "length data - pos" 482] True by simp
    have "payloads (s # ss) = take 482 (drop pos data) @ replicate (482 - (length data - pos)) 0 @ drop ?pos data @ replicate pad 0"
      using s(2) ss(4) by (simp add: share_in_def)
    also have "\<dots> = drop pos data @ replicate (482 - (length data - pos) + pad) 0"
    proof (cases "482 \<le> length data - pos")
      case True
      then have "take 482 (drop pos data) @ drop ?pos data = drop pos data"
        by (metis add.commute append_take_drop_id drop_drop min.absorb1)
      then show ?thesis using True by simp
    qed (simp flip: replicate_add)
    finally have pay: "payloads (s # ss) = drop pos data @ replicate (482 - (length data - pos) + pad) 0" .
    have "split_loop ns data pos acc = Some (Inr (acc @ s # ss))"
      using True s(1) ss(1) by (simp add: split_loop.simps [of ns data pos])
    moreover have "\<forall>x \<in> set (s # ss). continuation ns x" using s(2) ss(2) by (auto simp: continuation_def)
    ultimately show ?thesis using len pay by blast
  qed
qed

text \<open>The shares of some data: one that carries the length, and the continuation shares.\<close>

lemma split_shares:
  assumes "valid_namespace (as_bytes ns)" "length data \<le> u32_max" "data \<noteq> []"
  obtains s ss pad p where "split_blob_to_shares ns 0 data = Some (Inr (s # ss))" "share_in ns (Some (length data)) p s"
    "\<forall>x \<in> set ss. continuation ns x" "length (s # ss) = shares_needed_for_blob (length data)"
    "p @ payloads ss = data @ replicate pad 0"
proof -
  let ?p = "take 478 data @ replicate (478 - length data) 0"
  let ?pos = "min 478 (length data)"
  obtain s where s: "build_sparse_share_v0 ns data 0 = Inr (s, ?pos)" "share_in ns (Some (length data)) ?p s"
    by (rule build_first [OF assms(1,2)])
  have pos: "0 < ?pos" using assms(3) by simp
  from split_loop_next [OF assms(1) pos, of data "[s]"] obtain ss pad where
    ss: "split_loop ns data ?pos [s] = Some (Inr ([s] @ ss))" "\<forall>x \<in> set ss. continuation ns x"
      "length ss = div_ceil (length data - ?pos) 482" "payloads ss = drop ?pos data @ replicate pad 0"
    by (elim exE conjE) (rule that)
  show ?thesis
  proof (rule that)
    show "split_blob_to_shares ns 0 data = Some (Inr (s # ss))"
      using s(1) ss(1) assms(3) by (simp add: split_blob_to_shares_def SHARE_VERSION_ZERO_def split_loop.simps [of ns data 0])
    show "length (s # ss) = shares_needed_for_blob (length data)"
      using ss(3) by (auto simp: shares_needed_for_blob_def checked_sub_def div_ceil_def)
    show "?p @ payloads ss = data @ replicate (478 - length data + pad) 0"
      unfolding ss(4) by (cases "478 \<le> length data") (simp_all flip: replicate_add)
  qed (use s(2) ss(2) in blast)+
qed

lemma shares_len_eq: "shares_len b = shares_needed_for_blob (length (bl_data b))"
  by (simp add: shares_len_def shares_needed_for_blob_def)

section \<open>Reconstruction\<close>

lemma collect_continuation:
  "\<forall>s \<in> set ss. continuation ns s \<Longrightarrow>
    collect_payloads ns 0 (length ss) (ss @ rest) data = (Inr (data @ payloads ss), rest)"
proof (induction ss arbitrary: data)
  case (Cons s ss)
  then obtain p where "share_in ns None p s" by (auto simp: continuation_def)
  then show ?case using Cons by (auto simp: share_in_def)
qed simp

lemma reconstruct_split:
  assumes "valid_namespace (as_bytes ns)" "\<not> is_reserved ns" "length data \<le> u32_max" "data \<noteq> []"
  obtains s ss where "split_blob_to_shares ns 0 data = Some (Inr (s # ss))" "sequence_length s \<noteq> None"
    "\<forall>x \<in> set (s # ss). share_namespace x = ns"
    "\<forall>rest. reconstruct env ((s # ss) @ rest) app_version = (blob_new env ns data app_version, rest)"
proof -
  obtain s ss pad p where s: "split_blob_to_shares ns 0 data = Some (Inr (s # ss))" "share_in ns (Some (length data)) p s"
    "\<forall>x \<in> set ss. continuation ns x" "length (s # ss) = shares_needed_for_blob (length data)"
    "p @ payloads ss = data @ replicate pad 0"
    by (rule split_shares [OF assms(1,3,4)])
  have n: "shares_needed_for_blob (length data) - 1 = length ss" using s(4) by simp
  show ?thesis
  proof (rule that [OF s(1)])
    show "sequence_length s \<noteq> None" "\<forall>x \<in> set (s # ss). share_namespace x = ns"
      using s(2,3) by (auto simp: share_in_def continuation_def)
    show "\<forall>rest. reconstruct env ((s # ss) @ rest) app_version = (blob_new env ns data app_version, rest)"
      using s(2) assms(2) collect_continuation [OF s(3), of _ p] n s(5)
      by (auto simp: reconstruct_def share_in_def Let_def)
  qed
qed

text \<open>What \<open>Blob::new\<close> makes of data that can be posted.\<close>

definition posted :: "('r, 'h) commit_env \<Rightarrow> app_version \<Rightarrow> 'h blob \<Rightarrow> bool" where
  "posted env app_version b \<longleftrightarrow> blob_new env (bl_namespace b) (bl_data b) app_version = Some (Inr b) \<and>
     valid_namespace (as_bytes (bl_namespace b)) \<and> \<not> is_reserved (bl_namespace b) \<and>
     0 < length (bl_data b) \<and> length (bl_data b) \<le> u32_max"

lemma blob_new_fields:
  "blob_new env ns data app_version = Some (Inr b) \<Longrightarrow> bl_namespace b = ns \<and> bl_data b = data \<and> bl_share_version b = 0"
  by (auto simp: blob_new_def and_then_Inr_iff)

lemma reconstruct_loop_posted:
  assumes "\<forall>b \<in> set blobs. posted env app_version b"
    and "list_all2 (\<lambda>b ss. to_shares b = Some (Inr ss)) blobs sss"
  shows "reconstruct_loop env (concat sss) app_version acc = Some (Inr (acc @ blobs))"
  using assms(2,1)
proof (induction arbitrary: acc rule: list_all2_induct)
  case Nil
  then show ?case by (simp add: reconstruct_loop.simps)
next
  case (Cons b blobs ss sss)
  have p: "blob_new env (bl_namespace b) (bl_data b) app_version = Some (Inr b)" "valid_namespace (as_bytes (bl_namespace b))"
    "\<not> is_reserved (bl_namespace b)" "bl_data b \<noteq> []" "length (bl_data b) \<le> u32_max"
    using Cons.prems by (auto simp: posted_def)
  obtain s ss' where s: "split_blob_to_shares (bl_namespace b) 0 (bl_data b) = Some (Inr (s # ss'))" "sequence_length s \<noteq> None"
    "\<forall>x \<in> set (s # ss'). share_namespace x = bl_namespace b"
    "\<forall>rest. reconstruct env ((s # ss') @ rest) app_version = (blob_new env (bl_namespace b) (bl_data b) app_version, rest)"
    by (rule reconstruct_split [OF p(2,3,5,4), where env = env and app_version = app_version])
  have ss: "ss = s # ss'" using Cons.hyps(1) s(1) blob_new_fields [OF p(1)] by (simp add: to_shares_def)
  have "reconstruct_loop env (concat (ss # sss)) app_version acc = reconstruct_loop env (concat sss) app_version (acc @ [b])"
    using s(2,4) p(1) unfolding ss by (auto simp: reconstruct_loop.simps [of env "s # ss' @ concat sss"])
  then show ?case using Cons by simp
qed

section \<open>Mountain ranges\<close>

text \<open>Rounding up returns for every number up to $2^{63}$; above it the loop never ends.\<close>

lemma round_up_loop_power:
  assumes "k \<le> 63" "x \<le> 2 ^ k" "j \<le> k" "x \<le> 2 ^ j \<or> j = k \<or> 2 ^ j < x"
  obtains i where "round_up_loop x (2 ^ j) = Some (Some (2 ^ i))" "j \<le> i" "i \<le> k" "x \<le> 2 ^ i" "i = j \<or> 2 ^ i < 2 * x"
proof -
  have "\<exists>i. round_up_loop x (2 ^ j) = Some (Some (2 ^ i)) \<and> j \<le> i \<and> i \<le> k \<and> x \<le> 2 ^ i \<and> (i = j \<or> 2 ^ i < 2 * x)"
    using assms(3)
  proof (induction "k - j" arbitrary: j)
    case 0
    then show ?case using assms(2) by (auto simp: round_up_loop.simps)
  next
    case (Suc n)
    show ?case
    proof (cases "x \<le> 2 ^ j")
      case True
      then show ?thesis using Suc.prems by (auto simp: round_up_loop.simps)
    next
      case False
      have "(2 :: nat) ^ Suc j \<le> 2 ^ 63" using Suc.hyps(2) assms(1) by (intro power_increasing) auto
      then have "checked_shl (2 ^ j) 1 = Some (2 ^ Suc j)" by (simp add: checked_shl_def wrap64_def mult.commute)
      then have "round_up_loop x (2 ^ j) = round_up_loop x (2 ^ Suc j)" using False by (simp add: round_up_loop.simps [of x "2 ^ j"])
      moreover have "n = k - Suc j" "Suc j \<le> k" using Suc.hyps(2) by auto
      note Suc.hyps(1) [OF this]
      ultimately obtain i where "round_up_loop x (2 ^ j) = Some (Some (2 ^ i))" "Suc j \<le> i" "i \<le> k" "x \<le> 2 ^ i" "i = Suc j \<or> 2 ^ i < 2 * x"
        by auto
      then show ?thesis using False by (intro exI [of _ i]) auto
    qed
  qed
  then show ?thesis using that by blast
qed

lemma round_up_power:
  assumes "x \<le> 2 ^ 63"
  obtains i where "round_up_to_power_of_2 x = Some (Some (2 ^ i))" "x \<le> 2 ^ i" "i = 0 \<or> 2 ^ i < 2 * x" "i \<le> 63"
  by (rule round_up_loop_power [of 63 x 0]) (use assms in \<open>auto simp: round_up_to_power_of_2_def\<close>)

lemma round_down_power:
  assumes "0 < x" "x \<le> 2 ^ 63"
  obtains i where "round_down_to_power_of_2 x = Some (Some (2 ^ i))" "2 ^ i \<le> x" "x < 2 * 2 ^ i"
proof -
  obtain i where i: "round_up_to_power_of_2 x = Some (Some (2 ^ i))" "x \<le> 2 ^ i" "i = 0 \<or> 2 ^ i < 2 * x"
    by (rule round_up_power [OF assms(2)])
  show ?thesis
  proof (cases "2 ^ i = x")
    case True
    then show ?thesis using that [of i] i(1) assms(1) by (simp add: round_down_to_power_of_2_def)
  next
    case False
    then obtain j where j: "i = Suc j" using i assms(1) by (cases i) auto
    have "round_down_to_power_of_2 x = Some (Some (2 ^ j))" using i(1) False j by (simp add: round_down_to_power_of_2_def)
    then show ?thesis using that [of j] i j False by auto
  qed
qed

definition mountain_range :: "nat \<Rightarrow> nat \<Rightarrow> nat list \<Rightarrow> bool" where
  "mountain_range tot width sizes \<longleftrightarrow> sum_list sizes = tot \<and> sorted_wrt (\<ge>) sizes \<and>
     (\<forall>n \<in> set sizes. n \<le> width \<and> n \<le> tot \<and> (\<exists>i. n = 2 ^ i))"

lemma mountain_range_loop_spec:
  assumes "tot \<le> 2 ^ 63"
  shows "\<exists>sizes. mountain_range_loop tot (2 ^ k) acc = Some (Inr (acc @ sizes)) \<and> mountain_range tot (2 ^ k) sizes"
  using assms
proof (induction tot arbitrary: acc rule: less_induct)
  case (less tot)
  show ?case
  proof (cases "tot = 0")
    case True
    then show ?thesis by (intro exI [of _ "[]"]) (simp add: mountain_range_loop.simps [of 0] mountain_range_def)
  next
    case False
    have "\<exists>i. mountain_range_loop tot (2 ^ k) acc = mountain_range_loop (tot - 2 ^ i) (2 ^ k) (acc @ [2 ^ i]) \<and>
        2 ^ i \<le> tot \<and> 2 ^ i \<le> (2 :: nat) ^ k \<and> (\<forall>n \<in> {n. \<exists>j. n = 2 ^ j}. n \<le> 2 ^ k \<longrightarrow> n \<le> tot - 2 ^ i \<longrightarrow> n \<le> 2 ^ i)"
    proof (cases "2 ^ k \<le> tot")
      case True
      then show ?thesis using False by (intro exI [of _ k]) (simp add: mountain_range_loop.simps [of tot])
    next
      case small: False
      obtain i where i: "round_down_to_power_of_2 tot = Some (Some (2 ^ i))" "2 ^ i \<le> tot" "tot < 2 * 2 ^ i"
        by (rule round_down_power) (use False less.prems in auto)
      have "mountain_range_loop tot (2 ^ k) acc = mountain_range_loop (tot - 2 ^ i) (2 ^ k) (acc @ [2 ^ i])"
        using False small i(1) by (simp add: mountain_range_loop.simps [of tot])
      moreover have "2 ^ i \<le> (2 :: nat) ^ k" using small i(2) by linarith
      moreover have "n \<le> 2 ^ i" if "n \<le> tot - 2 ^ i" for n using that i(3) by linarith
      ultimately show ?thesis using i(2) by (intro exI [of _ i] conjI) blast+
    qed
    then obtain i where i: "mountain_range_loop tot (2 ^ k) acc = mountain_range_loop (tot - 2 ^ i) (2 ^ k) (acc @ [2 ^ i])"
      "2 ^ i \<le> tot" "2 ^ i \<le> (2 :: nat) ^ k" "\<forall>n \<in> {n. \<exists>j. n = 2 ^ j}. n \<le> 2 ^ k \<longrightarrow> n \<le> tot - 2 ^ i \<longrightarrow> n \<le> 2 ^ i"
      by (elim exE conjE) (rule that)
    have "tot - 2 ^ i < tot" using False by (intro diff_less) auto
    from less.IH [OF this le_trans [OF diff_le_self less.prems], of "acc @ [2 ^ i]"] obtain sizes where
      s: "mountain_range_loop (tot - 2 ^ i) (2 ^ k) (acc @ [2 ^ i]) = Some (Inr ((acc @ [2 ^ i]) @ sizes))" "mountain_range (tot - 2 ^ i) (2 ^ k) sizes"
      by (elim exE conjE) (rule that)
    have ns: "n \<le> 2 ^ k \<and> n \<le> tot - 2 ^ i \<and> (\<exists>j. n = 2 ^ j)" if "n \<in> set sizes" for n
      using s(2) that by (simp add: mountain_range_def)
    have "mountain_range tot (2 ^ k) (2 ^ i # sizes)"
      unfolding mountain_range_def
    proof (intro conjI ballI)
      show "sum_list (2 ^ i # sizes) = tot" using s(2) i(2) by (simp add: mountain_range_def)
      have "\<forall>n \<in> set sizes. n \<le> 2 ^ i" using ns i(4) by blast
      then show "sorted_wrt (\<ge>) (2 ^ i # sizes)" using s(2) by (simp add: mountain_range_def)
      fix n assume "n \<in> set (2 ^ i # sizes)"
      then have "n = 2 ^ i \<or> n \<in> set sizes" by simp
      then show "n \<le> 2 ^ k" "n \<le> tot" using ns [of n] i(2,3) by (metis diff_le_self le_trans)+
      show "\<exists>j. n = 2 ^ j" using \<open>n = 2 ^ i \<or> n \<in> set sizes\<close> ns [of n] by blast
    qed
    then show ?thesis using s(1) i(1) by auto
  qed
qed

lemma ceil_sqrt_le: "ceil_sqrt n \<le> n"
proof -
  have "n \<in> set (filter (\<lambda>s. n \<le> s * s) [0..<Suc n])" by simp
  then have "filter (\<lambda>s. n \<le> s * s) [0..<Suc n] \<noteq> []" by force
  then have "ceil_sqrt n \<in> set (filter (\<lambda>s. n \<le> s * s) [0..<Suc n])" unfolding ceil_sqrt_def by (rule hd_in_set)
  then show ?thesis by auto
qed

lemma subtree_width_power:
  assumes "n \<le> 2 ^ 62" "0 < t"
  obtains k where "subtree_width n t = Some (Inr (2 ^ k))"
proof -
  let ?s = "if n mod t \<noteq> 0 then n div t + 1 else n div t"
  have "n div t \<le> 2 ^ 62" using assms(1) div_le_dividend le_trans by blast
  then have "?s \<le> 2 ^ 63" by auto
  then obtain i where i: "round_up_to_power_of_2 ?s = Some (Some (2 ^ i))" using round_up_power by blast
  have "ceil_sqrt n \<le> 2 ^ 63" using ceil_sqrt_le [of n] assms(1) by simp
  then obtain j where j: "round_up_to_power_of_2 (ceil_sqrt n) = Some (Some (2 ^ j))" using round_up_power by blast
  have "subtree_width n t = Some (Inr (min (2 ^ i) (2 ^ j)))"
    using i j by (simp add: subtree_width_def blob_min_square_size_def expect_some_def Let_def)
  moreover have "min ((2 :: nat) ^ i) (2 ^ j) = 2 ^ min i j" by (auto simp: min_def)
  ultimately show ?thesis using that by simp
qed

lemma leaf_sets_concat: "sum_list sizes = length shares \<Longrightarrow> \<exists>sets. leaf_sets sizes shares = Inr sets \<and> concat sets = shares \<and> map length sets = sizes"
proof (induction sizes shares rule: leaf_sets.induct)
  case (2 n sizes shares)
  then have n: "n \<le> length shares" "sum_list sizes = length (drop n shares)" by auto
  from "2.IH" [OF n] obtain sets where "leaf_sets sizes (drop n shares) = Inr sets" "concat sets = drop n shares" "map length sets = sizes"
    by (elim exE conjE) (rule that)
  then show ?case using n by simp
qed simp

text \<open>
  The commitment over some shares is the hash of the roots of trees that together have these shares as
  leaves, in order; the sizes of the trees only depend on the number of shares.
\<close>

definition commitment_sets :: "nat \<Rightarrow> share list \<Rightarrow> share list list \<Rightarrow> bool" where
  "commitment_sets t shares sets \<longleftrightarrow> concat sets = shares \<and>
     (\<exists>k. subtree_width (length shares) t = Some (Inr (2 ^ k)) \<and> mountain_range (length shares) (2 ^ k) (map length sets))"

lemma from_shares_sets:
  assumes "length shares \<le> 2 ^ 62" "0 < t"
  obtains sets where "commitment_sets t shares sets"
    "from_shares env ns shares t = Some (map_err Nmt (try_bind (try_map (\<lambda>s. nmt_root env (map (\<lambda>x. (sh_data x, ns)) s)) sets)
       (\<lambda>roots. Inr (simple_hash env roots))))"
proof -
  obtain k where k: "subtree_width (length shares) t = Some (Inr (2 ^ k))" by (rule subtree_width_power [OF assms])
  have "length shares \<le> 2 ^ 63" using assms(1) by simp
  from mountain_range_loop_spec [OF this, of k "[]"] obtain sizes where
    sizes: "merkle_mountain_range_sizes (length shares) (2 ^ k) = Some (Inr sizes)" "mountain_range (length shares) (2 ^ k) sizes"
    by (auto simp: merkle_mountain_range_sizes_def)
  have "sum_list sizes = length shares" using sizes(2) by (simp add: mountain_range_def)
  then obtain sets where sets: "leaf_sets sizes shares = Inr sets" "concat sets = shares" "map length sets = sizes"
    using leaf_sets_concat by blast
  have map: "try_map (\<lambda>x. map_err Nmt (f x)) xs = map_err Nmt (try_map f xs)" for f :: "share list \<Rightarrow> ('r, string) result" and xs
    by (induction xs) (simp_all add: map_err_def try_bind_def split: sum.split)
  show ?thesis
  proof (rule that)
    show "commitment_sets t shares sets" using k sizes(2) sets by (auto simp: commitment_sets_def)
    show "from_shares env ns shares t = Some (map_err Nmt (try_bind (try_map (\<lambda>s. nmt_root env (map (\<lambda>x. (sh_data x, ns)) s)) sets)
       (\<lambda>roots. Inr (simple_hash env roots))))"
      using k sizes(1) sets(1)
      by (simp add: from_shares_def share_to_vec_def map) (simp add: map_err_def try_bind_def split: sum.split)
  qed
qed

text \<open>Above $2^{63}$ the candidate wraps around to zero and stays there.\<close>

lemma round_up_diverges:
  assumes "2 ^ 63 < x"
  shows "round_up_to_power_of_2 x = None"
proof -
  let ?S = "insert 0 ((^) 2 ` {..63})"
  have "x' = x \<longrightarrow> po2 \<in> ?S \<longrightarrow> False" if "round_up_loop x' po2 = Some r" for x' po2 r
  proof (rule round_up_loop.raw_induct [where P = "\<lambda>x' po2 r. x' = x \<longrightarrow> po2 \<in> ?S \<longrightarrow> False"
        and xa = "(x', po2)", unfolded prod.case, OF _ that], intro impI)
    fix loop x' po2 r
    assume IH: "\<And>x' po2 r. loop x' po2 = Some r \<Longrightarrow> x' = x \<longrightarrow> po2 \<in> ?S \<longrightarrow> False"
      and run: "(if x' \<le> po2 then Some (Some po2)
        else case checked_shl po2 1 of Some next_po2 \<Rightarrow> loop x' next_po2 | None \<Rightarrow> Some None) = Some r"
      and x: "x' = x" and po2: "po2 \<in> ?S"
    have "(2 :: nat) ^ j \<le> 2 ^ 63" if "j \<le> 63" for j by (rule power_increasing) (use that in auto)
    then have "po2 \<le> 2 ^ 63" using po2 by auto
    then have "loop x (wrap64 (po2 * 2)) = Some r" using run x assms by (simp add: checked_shl_def)
    moreover have "wrap64 (po2 * 2) \<in> insert 0 ((^) 2 ` {..63})"
    proof (cases "po2 = 0 \<or> po2 = 2 ^ 63")
      case False
      then obtain j where j: "po2 = 2 ^ j" "j \<le> 63" using po2 by blast
      then have "j \<noteq> 63" using False by blast
      with j(2) have j63: "Suc j \<le> 63" by simp
      have "(2 :: nat) ^ Suc j \<le> 2 ^ 63" by (rule power_increasing [OF j63]) simp
      then have "wrap64 (po2 * 2) = 2 ^ Suc j" using j(1) by (simp add: wrap64_def)
      then show ?thesis using j63 by (intro insertI2 image_eqI [of _ _ "Suc j"]) simp_all
    qed (auto simp: wrap64_def)
    ultimately show False using IH by blast
  qed
  moreover have "(1 :: nat) \<in> insert 0 ((^) 2 ` {..63})" by (intro insertI2 image_eqI [of _ _ 0]) auto
  ultimately show ?thesis unfolding round_up_to_power_of_2_def by (cases "round_up_loop x 1") blast+
qed

section \<open>Commitments\<close>

lemma try_map_total: "(\<And>x. x \<in> set xs \<Longrightarrow> is_ok (f x)) \<Longrightarrow> \<exists>ys. try_map f xs = Inr ys"
proof -
  assume "\<And>x. x \<in> set xs \<Longrightarrow> is_ok (f x)"
  then have "\<forall>x \<in> set xs. \<exists>y. f x = Inr y" by (simp add: is_ok_iff)
  from bchoice [OF this] obtain g where "\<forall>x \<in> set xs. f x = Inr (g x)" ..
  then have "try_map f xs = Inr (map g xs)" by (intro try_map_ok) blast
  then show ?thesis ..
qed

lemma try_map_rel: "try_map f xs = Inr ys \<Longrightarrow> list_all2 (\<lambda>x y. f x = Inr y) xs ys"
  by (induction xs arbitrary: ys) (auto split: sum.splits)

lemma shares_count_small: "n \<le> u32_max \<Longrightarrow> shares_needed_for_blob n \<le> 2 ^ 62"
proof -
  assume n: "n \<le> u32_max"
  have "div_ceil (n - 478) 482 \<le> n" by (rule div_ceil_least) auto
  then have "shares_needed_for_blob n \<le> Suc n" by (simp add: shares_needed_for_blob_def checked_sub_def)
  then show ?thesis using n by (simp add: u32_max_def)
qed

lemma threshold_pos: "0 < subtree_root_threshold v"
  by (cases v) simp_all

lemma split_total:
  assumes "valid_namespace (as_bytes ns)" "length data \<le> u32_max"
  obtains ss where "split_blob_to_shares ns 0 data = Some (Inr ss)" "length ss \<le> 2 ^ 62" "\<forall>x \<in> set ss. share_namespace x = ns \<and> \<not> sh_parity x"
proof (cases "data = []")
  case True
  then show ?thesis using that [of "[]"] by (simp add: split_blob_to_shares_def SHARE_VERSION_ZERO_def split_loop.simps)
next
  case False
  then obtain s ss pad p where s: "split_blob_to_shares ns 0 data = Some (Inr (s # ss))" "share_in ns (Some (length data)) p s"
    "\<forall>x \<in> set ss. continuation ns x" "length (s # ss) = shares_needed_for_blob (length data)"
    using split_shares [OF assms] by metis
  show ?thesis
  proof (rule that [OF s(1)])
    show "length (s # ss) \<le> 2 ^ 62" using s(4) shares_count_small [OF assms(2)] by simp
    show "\<forall>x \<in> set (s # ss). share_namespace x = ns \<and> \<not> sh_parity x" using s(2,3) by (auto simp: share_in_def continuation_def)
  qed
qed

text \<open>The tree takes leaves of a single namespace: \<open>push_leaf\<close> only refuses a namespace below the last one.\<close>

definition nmt_accepts :: "('r, 'h) commit_env \<Rightarrow> namespace \<Rightarrow> bool" where
  "nmt_accepts env ns \<longleftrightarrow> (\<forall>leaves. (\<forall>l \<in> set leaves. snd l = ns) \<longrightarrow> is_ok (nmt_root env leaves))"

definition commit_collision_free :: "('r, 'h) commit_env \<Rightarrow> bool" where
  "commit_collision_free env \<longleftrightarrow> inj (simple_hash env) \<and>
     (\<forall>xs ys r. nmt_root env xs = Inr r \<longrightarrow> nmt_root env ys = Inr r \<longrightarrow> xs = ys)"

definition leaves_of :: "namespace \<Rightarrow> share list \<Rightarrow> (bytes \<times> namespace) list" where
  "leaves_of ns s = map (\<lambda>x. (sh_data x, ns)) s"

lemma from_blob_roots:
  assumes "valid_namespace (as_bytes ns)" "length data \<le> u32_max" "nmt_accepts env ns"
  obtains ss sets roots where "split_blob_to_shares ns 0 data = Some (Inr ss)" "commitment_sets (subtree_root_threshold v) ss sets"
    "list_all2 (\<lambda>s r. nmt_root env (leaves_of ns s) = Inr r) sets roots"
    "from_blob env ns data 0 (subtree_root_threshold v) = Some (Inr (simple_hash env roots))"
proof -
  obtain ss where ss: "split_blob_to_shares ns 0 data = Some (Inr ss)" "length ss \<le> 2 ^ 62" by (rule split_total [OF assms(1,2)])
  obtain sets where sets: "commitment_sets (subtree_root_threshold v) ss sets"
    "from_shares env ns ss (subtree_root_threshold v) = Some (map_err Nmt (try_bind (try_map (\<lambda>s. nmt_root env (map (\<lambda>x. (sh_data x, ns)) s)) sets)
       (\<lambda>roots. Inr (simple_hash env roots))))"
    by (rule from_shares_sets [OF ss(2) threshold_pos])
  have "is_ok (nmt_root env (leaves_of ns s))" for s using assms(3) by (auto simp: nmt_accepts_def leaves_of_def)
  then obtain roots where roots: "try_map (\<lambda>s. nmt_root env (leaves_of ns s)) sets = Inr roots" using try_map_total by metis
  then have "from_blob env ns data 0 (subtree_root_threshold v) = Some (Inr (simple_hash env roots))"
    using ss(1) sets(2) by (simp add: from_blob_def leaves_of_def)
  then show ?thesis using that [OF ss(1) sets(1) try_map_rel [OF roots]] by blast
qed

lemma roots_determine_leaves:
  assumes "commit_collision_free env" "list_all2 (\<lambda>s r. nmt_root env (leaves_of ns s) = Inr r) sets roots"
    "list_all2 (\<lambda>s r. nmt_root env (leaves_of ns s) = Inr r) sets' roots"
  shows "map (leaves_of ns) sets = map (leaves_of ns) sets'"
  using assms(2,3)
proof (induction arbitrary: sets' rule: list_all2_induct)
  case (Cons s sets r roots)
  then obtain t ts where t: "sets' = t # ts" "nmt_root env (leaves_of ns t) = Inr r"
    "list_all2 (\<lambda>s r. nmt_root env (leaves_of ns s) = Inr r) ts roots" by (auto simp: list_all2_Cons2)
  have "leaves_of ns s = leaves_of ns t" using assms(1) Cons.hyps(1) t(2) unfolding commit_collision_free_def by blast
  then show ?case using Cons.IH [OF t(3)] t(1) by simp
qed simp

lemma leaves_determine_data:
  "map (leaves_of ns) sets = map (leaves_of ns) sets' \<Longrightarrow> map sh_data (concat sets) = map sh_data (concat sets')"
proof -
  have data: "map sh_data (concat xs) = map fst (concat (map (leaves_of ns) xs))" for xs
    by (induction xs) (simp_all add: leaves_of_def comp_def)
  assume "map (leaves_of ns) sets = map (leaves_of ns) sets'"
  then show ?thesis unfolding data by simp
qed

lemma split_determines_data:
  assumes "valid_namespace (as_bytes ns)" "length data \<le> u32_max" "data \<noteq> []" "length data' \<le> u32_max" "data' \<noteq> []"
    and "split_blob_to_shares ns 0 data = Some (Inr ss)" "split_blob_to_shares ns 0 data' = Some (Inr ss')" "map sh_data ss = map sh_data ss'"
  shows "data = data'"
proof -
  have parity: "\<forall>x \<in> set xs. \<not> sh_parity x" if "split_blob_to_shares ns 0 d = Some (Inr xs)" "length d \<le> u32_max" for d xs
    by (rule split_total [OF assms(1) that(2)]) (use that(1) in auto)
  have "ss = ss'"
  proof (rule nth_equalityI)
    show len: "length ss = length ss'" using assms(8) map_eq_imp_length_eq by blast
    fix i assume i: "i < length ss"
    have "sh_data (ss ! i) = sh_data (ss' ! i)" using assms(8) i len by (metis nth_map)
    moreover have "\<not> sh_parity (ss ! i)" "\<not> sh_parity (ss' ! i)"
      using parity [OF assms(6,2)] parity [OF assms(7,4)] i len by auto
    ultimately show "ss ! i = ss' ! i" by simp
  qed
  have head: "sequence_length (hd xs) = Some (length d) \<and> (\<exists>pad. payloads xs = d @ replicate pad 0)"
    if "split_blob_to_shares ns 0 d = Some (Inr xs)" "length d \<le> u32_max" "d \<noteq> []" for d xs
    by (rule split_shares [OF assms(1) that(2,3)]) (use that(1) in \<open>auto simp: share_in_def\<close>)
  show ?thesis using head [OF assms(6,2,3)] head [OF assms(7,4,5)] \<open>ss = ss'\<close>
    by (metis append_eq_append_conv option.inject)
qed

lemma blob_new_total:
  assumes "valid_namespace (as_bytes ns)" "length data \<le> u32_max" "nmt_accepts env ns"
  obtains b where "blob_new env ns data v = Some (Inr b)"
  by (rule from_blob_roots [OF assms, of v]) (auto simp: blob_new_def intro: that)

section \<open>Reconstruction from any shares\<close>

lemma collect_payloads_outcome:
  assumes "collect_payloads ns v n shares data = (r, rest)" "\<not> is_reserved ns"
  shows "(\<forall>m. r \<noteq> Inl (Panic m)) \<and>
    (\<forall>d. r = Inr d \<longrightarrow> (\<exists>ss. shares = ss @ rest \<and> length ss = n \<and> d = data @ payloads ss \<and> (\<forall>s \<in> set ss. share_namespace s = ns \<and> sequence_length s = None)))"
  using assms
proof (induction ns v n shares data rule: collect_payloads.induct)
  case (3 ns v n s shares data)
  show ?case
  proof (cases "share_namespace s = ns \<and> map_option ib_version (share_info_byte s) = Some v \<and> sequence_length s = None \<and> payload s \<noteq> None")
    case True
    then obtain ib p where ip: "share_info_byte s = Some ib" "ib_version ib = v" "payload s = Some p" by auto
    have run: "collect_payloads ns v n shares (data @ p) = (r, rest)" using "3.prems"(1) True ip by simp
    from "3.IH" [of ib p] ip True run "3.prems"(2) have
      ih: "\<forall>m. r \<noteq> Inl (Panic m)" "\<forall>d. r = Inr d \<longrightarrow> (\<exists>ss. shares = ss @ rest \<and> length ss = n \<and> d = (data @ p) @ payloads ss \<and> (\<forall>s \<in> set ss. share_namespace s = ns \<and> sequence_length s = None))"
      by auto
    show ?thesis
    proof (intro conjI allI impI)
      fix d assume "r = Inr d"
      with ih(2) obtain ss where "shares = ss @ rest" "length ss = n" "d = (data @ p) @ payloads ss" "\<forall>s \<in> set ss. share_namespace s = ns \<and> sequence_length s = None"
        by blast
      then show "\<exists>ss. s # shares = ss @ rest \<and> length ss = Suc n \<and> d = data @ payloads ss \<and> (\<forall>s \<in> set ss. share_namespace s = ns \<and> sequence_length s = None)"
        using ip(3) True by (intro exI [of _ "s # ss"]) simp
    qed (use ih(1) in blast)
  next
    case False
    have "share_namespace s = ns \<Longrightarrow> \<not> sh_parity s" using "3.prems"(2) parity_reserved by (auto simp: share_namespace_def)
    then show ?thesis using "3.prems"(1) False
      by (auto simp: share_info_byte_def is_parity_def payload_def split: if_splits option.splits)
  qed
qed auto

lemma payload_length:
  assumes "share_ok s" "payload s = Some p"
  shows "length p = (if sequence_length s = None then 482 else 478)"
  using assms
  by (auto simp: payload_def sequence_length_def share_info_byte_def share_ok_def SHARE_SEQUENCE_LENGTH_OFFSET_def split: if_splits)

lemma payloads_long_enough:
  assumes "share_ok first" "sequence_length first = Some len" "payload first = Some p"
    and "\<forall>s \<in> set ss. share_ok s \<and> \<not> sh_parity s \<and> sequence_length s = None" "length ss = shares_needed_for_blob len - 1"
  shows "len \<le> length (p @ payloads ss)"
proof -
  have "length (payloads ss) = 482 * length ss" if "\<forall>s \<in> set ss. share_ok s \<and> \<not> sh_parity s \<and> sequence_length s = None" for ss
    using that
  proof (induction ss)
    case (Cons s ss)
    then obtain q where "payload s = Some q" by (auto simp: payload_def share_info_byte_def is_parity_def)
    then show ?case using Cons payload_length [of s q] by simp
  qed simp
  then have "length (p @ payloads ss) = 478 + 482 * length ss" using assms(4) payload_length [OF assms(1,3)] assms(2) by simp
  moreover have "len - 478 \<le> 482 * div_ceil (len - 478) 482" by (rule div_ceil_ge) simp
  ultimately show ?thesis using assms(5) by (auto simp: shares_needed_for_blob_def checked_sub_def split: if_splits)
qed

lemma sequence_length_small: "sequence_length s = Some n \<Longrightarrow> n \<le> u32_max"
proof -
  assume "sequence_length s = Some n"
  then obtain bs where n: "n = get_be bs" "length bs \<le> 4"
    by (auto simp: sequence_length_def bind_eq_Some_conv split: if_splits)
  have "(256 :: nat) ^ length bs \<le> 256 ^ 4" by (rule power_increasing [OF n(2)]) simp
  then show ?thesis using get_be_less [of bs] n(1) by (simp add: u32_max_def)
qed

section \<open>A sample\<close>

text \<open>The hashes of this environment are the terms that are hashed.\<close>

definition sample_commit :: "((bytes \<times> namespace) list, (bytes \<times> namespace) list list) commit_env" where
  "sample_commit = \<lparr> nmt_root = Inr, simple_hash = (\<lambda>roots. roots) \<rparr>"

definition sample_ns :: namespace where
  "sample_ns = Namespace (replicate 19 0 @ [1] @ replicate 9 0)"

lemma sample_ns_facts: "valid_namespace (as_bytes sample_ns)" "\<not> is_reserved sample_ns"
  by code_simp+

lemma sample_commit_facts: "nmt_accepts sample_commit ns" "commit_collision_free sample_commit"
  by (auto simp: nmt_accepts_def commit_collision_free_def sample_commit_def inj_def)

section \<open>Correctness of blobs\<close>



text \<open>
  (C28) For data of any content up to the limit of the length field, \<open>Blob::new\<close> returns, and the blob passes its
  own validation. Its commitment is the hash of the roots of subtrees that have the shares of the blob as
  leaves, in order; the sizes of the subtrees are descending powers of two, at most the subtree width.
\<close>

theorem blob_commitment_correct:
  assumes "valid_namespace (as_bytes ns)" "length data \<le> u32_max" "nmt_accepts env ns"
  shows "\<exists>b ss sets roots k. blob_new env ns data v = Some (Inr b) \<and> blob_validate env b v = Some (Inr ()) \<and>
    to_shares b = Some (Inr ss) \<and> concat sets = ss \<and> bl_commitment b = simple_hash env roots \<and>
    list_all2 (\<lambda>s r. nmt_root env (map (\<lambda>x. (share_to_vec x, ns)) s) = Inr r) sets roots \<and>
    subtree_width (length ss) (subtree_root_threshold v) = Some (Inr (2 ^ k)) \<and>
    sorted_wrt (\<ge>) (map length sets) \<and> (\<forall>s \<in> set sets. length s \<le> 2 ^ k \<and> (\<exists>i. length s = 2 ^ i))"
proof -
  obtain ss sets roots where r: "split_blob_to_shares ns 0 data = Some (Inr ss)" "commitment_sets (subtree_root_threshold v) ss sets"
    "list_all2 (\<lambda>s r. nmt_root env (leaves_of ns s) = Inr r) sets roots"
    "from_blob env ns data 0 (subtree_root_threshold v) = Some (Inr (simple_hash env roots))"
    by (rule from_blob_roots [OF assms])
  let ?b = "\<lparr> bl_namespace = ns, bl_data = data, bl_share_version = 0, bl_commitment = simple_hash env roots, bl_index = None \<rparr>"
  from r(2) obtain k where k: "subtree_width (length ss) (subtree_root_threshold v) = Some (Inr (2 ^ k))"
    "mountain_range (length ss) (2 ^ k) (map length sets)" "concat sets = ss" by (auto simp: commitment_sets_def)
  have "blob_new env ns data v = Some (Inr ?b)" "blob_validate env ?b v = Some (Inr ())" "to_shares ?b = Some (Inr ss)"
    using r(1,4) by (simp_all add: blob_new_def blob_validate_def to_shares_def)
  then show ?thesis using k r(3)
    by (intro exI [of _ ?b] exI [of _ ss] exI [of _ sets] exI [of _ roots] exI [of _ k])
      (auto simp: mountain_range_def leaves_of_def share_to_vec_def)
qed

theorem blob_commitment_correct_witness:
  "\<exists>b. blob_new sample_commit sample_ns [1, 2, 3] V2 = Some (Inr b) \<and> blob_validate sample_commit b V2 = Some (Inr ())"
proof -
  have "length [1 :: byte, 2, 3] \<le> u32_max" by (simp add: u32_max_def)
  from blob_commitment_correct [OF sample_ns_facts(1) this sample_commit_facts(1), of V2] show ?thesis by blast
qed

text \<open>
  (C29) A commitment determines the data: without collisions of the hashes, blobs of the same namespace with
  equal commitments have equal data.
\<close>

theorem commitment_binding:
  assumes "commit_collision_free env" "nmt_accepts env ns" "valid_namespace (as_bytes ns)"
    and "blob_new env ns data v = Some (Inr b)" "blob_new env ns data' v' = Some (Inr b')" "bl_commitment b = bl_commitment b'"
    and "0 < length data" "length data \<le> u32_max" "0 < length data'" "length data' \<le> u32_max"
  shows "data = data'"
proof -
  have shares: "\<exists>roots ss sets. bl_commitment b = simple_hash env roots \<and> split_blob_to_shares ns 0 data = Some (Inr ss) \<and>
      concat sets = ss \<and> list_all2 (\<lambda>s r. nmt_root env (leaves_of ns s) = Inr r) sets roots"
    if "blob_new env ns data v = Some (Inr b)" "length data \<le> u32_max" for data v b
    by (rule from_blob_roots [OF assms(3) that(2) assms(2), of v])
      (use that(1) in \<open>auto simp: blob_new_def commitment_sets_def\<close>)
  obtain roots ss sets where c: "bl_commitment b = simple_hash env roots" "split_blob_to_shares ns 0 data = Some (Inr ss)"
    "concat sets = ss" "list_all2 (\<lambda>s r. nmt_root env (leaves_of ns s) = Inr r) sets roots"
    using shares [OF assms(4,8)] by (elim exE conjE) (rule that)
  obtain roots' ss' sets' where c': "bl_commitment b' = simple_hash env roots'" "split_blob_to_shares ns 0 data' = Some (Inr ss')"
    "concat sets' = ss'" "list_all2 (\<lambda>s r. nmt_root env (leaves_of ns s) = Inr r) sets' roots'"
    using shares [OF assms(5,10)] by (elim exE conjE) (rule that)
  have "roots = roots'" using assms(1,6) c(1) c'(1) by (simp add: commit_collision_free_def inj_eq)
  then have "map (leaves_of ns) sets = map (leaves_of ns) sets'"
    using c(4) c'(4) roots_determine_leaves [OF assms(1)] by blast
  then have "map sh_data ss = map sh_data ss'" using c(3) c'(3) leaves_determine_data by metis
  then show ?thesis using split_determines_data [OF assms(3) _ _ _ _ c(2) c'(2)] assms(7-10) by blast
qed

theorem commitment_binding_witness:
  "\<exists>b. blob_new sample_commit sample_ns [1, 2, 3] V2 = Some (Inr b) \<and>
     (\<exists>b'. blob_new sample_commit sample_ns [1, 2, 4] V3 = Some (Inr b') \<and> bl_commitment b \<noteq> bl_commitment b')"
proof -
  have len: "length [1 :: byte, 2, x] \<le> u32_max" for x by (simp add: u32_max_def)
  obtain b where b: "blob_new sample_commit sample_ns [1, 2, 3] V2 = Some (Inr b)"
    by (rule blob_new_total [OF sample_ns_facts(1) len sample_commit_facts(1)])
  obtain b' where b': "blob_new sample_commit sample_ns [1, 2, 4] V3 = Some (Inr b')"
    by (rule blob_new_total [OF sample_ns_facts(1) len sample_commit_facts(1)])
  have "bl_commitment b \<noteq> bl_commitment b'"
    using commitment_binding [OF sample_commit_facts(2,1) sample_ns_facts(1) b b'] len by auto
  then show ?thesis using b b' by blast
qed

text \<open>
  (C27) From any well-formed shares, in any order, \<open>reconstruct\<close> returns without a panic. A blob it returns has
  the namespace of the shares it consumed, which is not a reserved one, as many of them as data of that
  length needs, and their payloads up to the announced length as data.
\<close>

theorem reconstruct_safe:
  assumes "\<forall>s \<in> set shares. share_ok s" "\<forall>ns. nmt_accepts env ns"
  shows "\<exists>r rest. reconstruct env shares v = (Some r, rest) \<and> (\<forall>m. r \<noteq> Inl (Panic m)) \<and>
    (\<forall>b. r = Inr b \<longrightarrow> (\<exists>first ss. shares = (first # ss) @ rest \<and> (\<forall>s \<in> set (first # ss). share_namespace s = bl_namespace b) \<and>
       \<not> is_reserved (bl_namespace b) \<and> sequence_length first = Some (length (bl_data b)) \<and>
       length (first # ss) = shares_needed_for_blob (length (bl_data b)) \<and>
       bl_data b = take (length (bl_data b)) (concat (map (\<lambda>s. the (payload s)) (first # ss)))))"
proof (cases "\<exists>first shares' len. shares = first # shares' \<and> sequence_length first = Some len \<and> \<not> is_reserved (share_namespace first)")
  case False
  then show ?thesis by (auto simp: reconstruct_def Let_def split: list.split option.split)
next
  case True
  then obtain first shares' len where f: "shares = first # shares'" "sequence_length first = Some len" "\<not> is_reserved (share_namespace first)"
    by blast
  let ?ns = "share_namespace first"
  have np: "\<not> sh_parity first" using f(3) parity_reserved by (auto simp: share_namespace_def)
  then obtain ib p where ip: "share_info_byte first = Some ib" "payload first = Some p"
    by (auto simp: share_info_byte_def is_parity_def payload_def)
  obtain c rest where c: "collect_payloads ?ns (ib_version ib) (shares_needed_for_blob len - 1) shares' p = (c, rest)" by fastforce
  note co = collect_payloads_outcome [OF c f(3)]
  show ?thesis
  proof (cases c)
    case (Inl e)
    then show ?thesis using f ip c co by (auto simp: reconstruct_def Let_def)
  next
    case (Inr d)
    then obtain ss where ss: "shares' = ss @ rest" "length ss = shares_needed_for_blob len - 1" "d = p @ payloads ss"
      "\<forall>s \<in> set ss. share_namespace s = ?ns \<and> sequence_length s = None" using co by blast
    have "\<forall>s \<in> set ss. \<not> sh_parity s" using ss(4) f(3) parity_reserved by (auto simp: share_namespace_def)
    then have long: "len \<le> length d"
      unfolding ss(3) by (intro payloads_long_enough [OF _ f(2) ip(2) _ ss(2)]) (use assms(1) f(1) ss(1,4) in auto)
    have ns: "valid_namespace (as_bytes ?ns)" using assms(1) f(1) np by (simp add: share_ok_def share_namespace_def)
    have small: "length (take len d) \<le> u32_max" using sequence_length_small [OF f(2)] by simp
    obtain b where b: "blob_new env ?ns (take len d) v = Some (Inr b)"
      by (rule blob_new_total [OF ns small]) (use assms(2) in blast)
    have run: "reconstruct env shares v = (Some (Inr b), rest)" using f ip c Inr b by (simp add: reconstruct_def Let_def)
    have fields: "bl_namespace b = ?ns" "bl_data b = take len d" "length (bl_data b) = len" using blob_new_fields [OF b] long by auto
    have "shares_needed_for_blob len \<noteq> 0" by (simp add: shares_needed_for_blob_def split: option.split)
    then have len: "length (first # ss) = shares_needed_for_blob len" using ss(2) by simp
    have "concat (map (\<lambda>s. the (payload s)) (first # ss)) = d" using ss(3) ip(2) by simp
    then have "shares = (first # ss) @ rest \<and> (\<forall>s \<in> set (first # ss). share_namespace s = bl_namespace b) \<and>
       \<not> is_reserved (bl_namespace b) \<and> sequence_length first = Some (length (bl_data b)) \<and>
       length (first # ss) = shares_needed_for_blob (length (bl_data b)) \<and>
       bl_data b = take (length (bl_data b)) (concat (map (\<lambda>s. the (payload s)) (first # ss)))"
      unfolding fields(1,3) using fields(2) f ss(1,4) len by simp
    with run show ?thesis by blast
  qed
qed

theorem reconstruct_safe_witness:
  "\<exists>r rest. reconstruct sample_commit [\<lparr> sh_data = replicate 512 0, sh_parity = False \<rparr>] V2 = (Some r, rest) \<and> (\<forall>m. r \<noteq> Inl (Panic m))"
proof -
  have "valid_namespace (replicate 29 0)" by code_simp
  then have "\<forall>s \<in> set [\<lparr> sh_data = replicate 512 0, sh_parity = False \<rparr>]. share_ok s" by (simp add: share_ok_def)
  moreover have "\<forall>ns. nmt_accepts sample_commit ns" by (simp add: sample_commit_facts)
  ultimately show ?thesis using reconstruct_safe by blast
qed

section \<open>Deviations\<close>

text \<open>A blob without data has no shares, although \<open>shares_len\<close> says one.\<close>

lemma empty_blob_shares: "bl_data b = [] \<Longrightarrow> bl_share_version b = 0 \<Longrightarrow> to_shares b = Some (Inr []) \<and> shares_len b = 1"
  by (simp add: to_shares_def split_blob_to_shares_def SHARE_VERSION_ZERO_def split_loop.simps shares_len_def checked_sub_def)

text \<open>The version of the shares is lost: the blob always gets version zero.\<close>

lemma reconstruct_version: "reconstruct env shares v = (Some (Inr b), rest) \<Longrightarrow> bl_share_version b = 0"
  by (auto simp: reconstruct_def Let_def split: list.splits option.splits if_splits prod.splits sum.splits dest: blob_new_fields)

text \<open>The versions of a raw blob are cut off to one byte.\<close>

lemma blob_from_raw_truncates:
  "blob_from_raw env (raw\<lparr> rb_namespace_version := n + 256 \<rparr>) v = blob_from_raw env (raw\<lparr> rb_namespace_version := n \<rparr>) v"
proof -
  have "(of_nat (n + 256) :: byte) = of_nat n" by (simp only: word_of_nat_eq_iff take_bit_eq_mod) simp
  then show ?thesis by (simp add: blob_from_raw_def del: of_nat_add)
qed

end
