(* ===== verification/Shwap_Node.thy ===== *)
theory Shwap_Node
  imports Byzantine Shwap_Cid Store Blob
begin

text \<open>
  Data requests of the node: the multihasher that decides which blocks bitswap accepts
  (\<^verbatim>\<open>node/src/p2p/shwap.rs\<close>) and the requests for rows, samples, namespace data and blobs
  (\<^verbatim>\<open>node/src/p2p.rs\<close>). Bitswap itself is code of \<open>beetswap\<close>. What the node relies on is that a block is only
  handed out for a content identifier when the registered multihasher gives the hash in that identifier; together with
  the containers' own checks it follows that a request returns the data of the block in the header of the store.
\<close>

section \<open>The multihasher\<close>

datatype multihasher_error = UnknownMultihashCode | CustomFatal

text \<open>
  The arguments: the tree, the parser of hashes and the erasure code; the decoders of the messages (\<open>prost\<close>); and for
  identifiers their parser, the conversion to the size the node uses, and the hash in an identifier with its code
  (\<open>cid\<close>, \<open>beetswap\<close>).
\<close>

record 't shwap_env =
  se_nmt :: "'t nmt_lib"
  se_parse :: "bytes \<Rightarrow> namespaced_hash option"
  se_encode :: codec_fun
  se_reconstruct :: codec_fun
  se_row :: "bytes \<Rightarrow> raw_row option"
  se_sample :: "bytes \<Rightarrow> raw_sample option"
  se_namespace_data :: "bytes \<Rightarrow> raw_namespace_data option"
  se_block :: "bytes \<Rightarrow> block option"
  se_read_generic :: "bytes \<Rightarrow> cid_generic option"
  se_read_cid :: "bytes \<Rightarrow> cid option"
  se_convert :: "cid_generic \<Rightarrow> cid option"
  se_hash :: "cid \<Rightarrow> bytes"
  se_code :: "cid \<Rightarrow> nat"

definition hash_shwap_block ::
  "'t shwap_env \<Rightarrow> (nat \<Rightarrow> (extended_header, store_error) result) \<Rightarrow> (cid_generic \<Rightarrow> ('i, cid_error) result) \<Rightarrow>
     ('i \<Rightarrow> bytes \<Rightarrow> ('c, types_error) result) \<Rightarrow> ('i \<Rightarrow> cid_generic) \<Rightarrow> ('i \<Rightarrow> nat) \<Rightarrow>
     ('c \<Rightarrow> 'i \<Rightarrow> data_availability_header \<Rightarrow> (unit, types_error) result) \<Rightarrow> bytes \<Rightarrow> (bytes, multihasher_error) result" where
  "hash_shwap_block env get_by_height id_try_from container_decode id_into id_block_height container_verify input =
     try_bind (ok_or CustomFatal (se_block env input)) (\<lambda>block.
     try_bind (ok_or CustomFatal (se_read_generic env (block_cid block))) (\<lambda>cid.
     try_bind (map_err (\<lambda>_. CustomFatal) (id_try_from cid)) (\<lambda>i.
     try_bind (map_err (\<lambda>_. CustomFatal) (container_decode i (block_container block))) (\<lambda>container.
     try_bind (map_err (\<lambda>_. CustomFatal) (convert_cid (se_convert env) (id_into i))) (\<lambda>cid.
     let hash = se_hash env cid in
     try_bind (map_err (\<lambda>_. CustomFatal) (get_by_height (id_block_height i))) (\<lambda>header.
     try_bind (map_err (\<lambda>_. CustomFatal) (container_verify container i (eh_dah header))) (\<lambda>_.
     Inr hash)))))))"

definition decode_row :: "'t shwap_env \<Rightarrow> row_id \<Rightarrow> bytes \<Rightarrow> (row_data, types_error) result" where
  "decode_row env = row_decode (se_encode env) (se_reconstruct env) (se_row env)"

definition decode_sample :: "'t shwap_env \<Rightarrow> sample_id \<Rightarrow> bytes \<Rightarrow> (sample, types_error) result" where
  "decode_sample env = sample_decode (se_nmt env) (se_parse env) (se_sample env)"

definition decode_namespace_data :: "'t shwap_env \<Rightarrow> row_namespace_data_id \<Rightarrow> bytes \<Rightarrow> (row_namespace_data, types_error) result" where
  "decode_namespace_data env = rnd_decode (se_nmt env) (se_parse env) (se_namespace_data env)"

definition shwap_hash ::
  "'t shwap_env \<Rightarrow> (nat \<Rightarrow> (extended_header, store_error) result) \<Rightarrow> nat \<Rightarrow> bytes \<Rightarrow> (bytes, multihasher_error) result" where
  "shwap_hash env get_by_height multihash_code input =
     (if multihash_code = ROW_ID_MULTIHASH_CODE then
        hash_shwap_block env get_by_height row_id_try_from (decode_row env) row_id_into row_id_block_height
          (row_verify (se_nmt env)) input
      else if multihash_code = ROW_NAMESPACE_DATA_ID_MULTIHASH_CODE then
        hash_shwap_block env get_by_height namespace_data_id_try_from (decode_namespace_data env) namespace_data_id_into
          namespace_data_id_block_height (rnd_verify (se_nmt env)) input
      else if multihash_code = SAMPLE_ID_MULTIHASH_CODE then
        hash_shwap_block env get_by_height sample_id_try_from (decode_sample env) sample_id_into sample_id_block_height
          (sample_verify (se_nmt env)) input
      else Inl UnknownMultihashCode)"

section \<open>Requests\<close>

text \<open>
  \<open>bitswap\<close> is what comes back for a command \<open>GetShwapCid\<close>: the block, the error of the query, or the errors of the
  channels and the timer (\<open>WorkerDied\<close>, \<open>ChannelClosedUnexpectedly\<close>, \<open>BitswapQueryTimeout\<close>).
\<close>

type_synonym bitswap = "cid \<Rightarrow> duration option \<Rightarrow> (bytes, p2p_error) result"

definition get_shwap_cid :: "'t shwap_env \<Rightarrow> bitswap \<Rightarrow> cid \<Rightarrow> duration option \<Rightarrow> (bytes, p2p_error) result" where
  "get_shwap_cid env bitswap cid timeout =
     try_bind (bitswap cid timeout) (\<lambda>data. get_block_container (se_block env) (se_read_cid env) cid data)"

definition get_row :: "'t shwap_env \<Rightarrow> bitswap \<Rightarrow> nat \<Rightarrow> nat \<Rightarrow> duration option \<Rightarrow> (row_data, p2p_error) result" where
  "get_row env bitswap row_index block_height timeout =
     try_bind (map_err CidErr (row_id_new row_index block_height)) (\<lambda>i.
     try_bind (convert_cid (se_convert env) (row_id_into i)) (\<lambda>cid.
     try_bind (get_shwap_cid env bitswap cid timeout) (\<lambda>data.
     map_err (\<lambda>_. Shwap ''{e}'') (decode_row env i data))))"

definition get_sample ::
  "'t shwap_env \<Rightarrow> bitswap \<Rightarrow> nat \<Rightarrow> nat \<Rightarrow> nat \<Rightarrow> duration option \<Rightarrow> (sample, p2p_error) result" where
  "get_sample env bitswap row_index column_index block_height timeout =
     try_bind (map_err CidErr (sample_id_new row_index column_index block_height)) (\<lambda>i.
     try_bind (convert_cid (se_convert env) (sample_id_into i)) (\<lambda>cid.
     try_bind (get_shwap_cid env bitswap cid timeout) (\<lambda>data.
     map_err (\<lambda>_. Shwap ''{e}'') (decode_sample env i data))))"

definition get_row_namespace_data ::
  "'t shwap_env \<Rightarrow> bitswap \<Rightarrow> namespace \<Rightarrow> nat \<Rightarrow> nat \<Rightarrow> duration option \<Rightarrow> (row_namespace_data, p2p_error) result" where
  "get_row_namespace_data env bitswap namespace row_index block_height timeout =
     try_bind (map_err CidErr (namespace_data_id_new namespace row_index block_height)) (\<lambda>i.
     try_bind (convert_cid (se_convert env) (namespace_data_id_into i)) (\<lambda>cid.
     try_bind (get_shwap_cid env bitswap cid timeout) (\<lambda>data.
     map_err (\<lambda>_. Shwap ''{e}'') (decode_namespace_data env i data))))"

definition rows_to_fetch :: "'t shwap_env \<Rightarrow> extended_header \<Rightarrow> namespace \<Rightarrow> nat list" where
  "rows_to_fetch env header namespace =
     map (\<lambda>(n, _). n mod 2 ^ 16) (filter (\<lambda>(n, row). nl_contains (se_nmt env) row namespace) (List.enumerate 0 (row_roots (eh_dah header))))"

text \<open>The rows of a header are numbered by an \<open>u16\<close>.\<close>

definition get_all_blobs ::
  "'t shwap_env \<Rightarrow> ('r, 'h) commit_env \<Rightarrow> bitswap \<Rightarrow> extended_header \<Rightarrow> namespace \<Rightarrow> duration option \<Rightarrow>
     ('h blob list, p2p_error) result option" where
  "get_all_blobs env commit_env bitswap header namespace timeout =
     (case map_err CelestiaTypes (eh_app_version header) of
        Inl e \<Rightarrow> Some (Inl e)
      | Inr app_version \<Rightarrow>
        (case try_map (\<lambda>row_idx. get_row_namespace_data env bitswap namespace row_idx (height header) timeout)
            (rows_to_fetch env header namespace) of
           Inl e \<Rightarrow> Some (Inl e)
         | Inr rows \<Rightarrow>
           map_option (map_err CelestiaTypes) (reconstruct_all commit_env (concat (map rnd_shares rows)) app_version)))"

section \<open>What a request returns\<close>

text \<open>
  The code of an identifier's hash is kept by the conversion and its hash determines code and digest; and bitswap hands
  out a block only if the multihasher gives the hash of the identifier.
\<close>

definition cid_laws :: "'t shwap_env \<Rightarrow> bool" where
  "cid_laws env \<longleftrightarrow> (\<forall>c x. se_convert env c = Some x \<longrightarrow> se_code env x = cid_mh_code c) \<and>
     (\<forall>c c' x x'. se_convert env c = Some x \<longrightarrow> se_convert env c' = Some x' \<longrightarrow> se_hash env x = se_hash env x' \<longrightarrow> cid_digest c = cid_digest c')"

definition bitswap_law :: "'t shwap_env \<Rightarrow> (nat \<Rightarrow> (extended_header, store_error) result) \<Rightarrow> bitswap \<Rightarrow> bool" where
  "bitswap_law env get_by_height bitswap \<longleftrightarrow> (\<forall>cid timeout data. bitswap cid timeout = Inr data \<longrightarrow>
     shwap_hash env get_by_height (se_code env cid) data = Inr (se_hash env cid))"

lemma requested_block:
  assumes "get_shwap_cid env bitswap cid timeout = Inr data" "bitswap_law env get_by_height bitswap"
  obtains raw blk where "se_block env raw = Some blk" "data = block_container blk" "shwap_hash env get_by_height (se_code env cid) raw = Inr (se_hash env cid)"
proof -
  obtain raw blk where "bitswap cid timeout = Inr raw" "se_block env raw = Some blk" "data = block_container blk"
    using assms(1) by (auto simp: get_shwap_cid_def get_block_container_def try_bind_Inr_iff split: if_splits)
  then show ?thesis using assms(2) that unfolding bitswap_law_def by blast
qed

context shwap_id
begin

lemma hashed_block:
  assumes "hash_shwap_block env get_by_height (try_from_cid id_codec id_size id_code dec) cdec (\<lambda>i. into_cid id_codec id_code (enc i)) bh cver data =
      Inr (se_hash env cid)"
    and "cid_laws env" "se_convert env (into_cid id_codec id_code (enc i)) = Some cid" "valid i" "se_block env data = Some blk"
  shows "\<exists>c header. cdec i (block_container blk) = Inr c \<and> get_by_height (bh i) = Inr header \<and> cver c i (eh_dah header) = Inr ()"
proof -
  obtain j c cid' header where j: "valid j" "cdec j (block_container blk) = Inr c" "se_convert env (into_cid id_codec id_code (enc j)) = Some cid'"
    "se_hash env cid' = se_hash env cid" "get_by_height (bh j) = Inr header" "cver c j (eh_dah header) = Inr ()"
    using assms(1,5) by (auto simp: hash_shwap_block_def convert_cid_def try_from_iff try_bind_Inr_iff Let_def)
  have "cid_digest (into_cid id_codec id_code (enc j)) = cid_digest (into_cid id_codec id_code (enc i))"
    using assms(2,3) j(3,4) unfolding cid_laws_def by blast
  then have "j = i" using enc_inject [OF j(1) assms(4)] by (simp add: into_cid_def)
  then show ?thesis using j by blast
qed

lemma request_verified:
  assumes "try_bind (convert_cid (se_convert env) (into_cid id_codec id_code (enc i))) (\<lambda>cid.
      try_bind (get_shwap_cid env bitswap cid timeout) (\<lambda>data. map_err f (cdec i data))) = Inr c"
    and "cid_laws env" "bitswap_law env get_by_height bitswap" "valid i"
    and "\<And>raw. shwap_hash env get_by_height id_code raw = hash_shwap_block env get_by_height (try_from_cid id_codec id_size id_code dec) cdec
        (\<lambda>i. into_cid id_codec id_code (enc i)) bh cver raw"
  shows "\<exists>header. get_by_height (bh i) = Inr header \<and> cver c i (eh_dah header) = Inr ()"
proof -
  obtain cid data where r: "se_convert env (into_cid id_codec id_code (enc i)) = Some cid" "get_shwap_cid env bitswap cid timeout = Inr data"
    "cdec i data = Inr c" using assms(1) by (auto simp: convert_cid_def try_bind_Inr_iff)
  obtain raw blk where b: "se_block env raw = Some blk" "data = block_container blk" "shwap_hash env get_by_height (se_code env cid) raw = Inr (se_hash env cid)"
    by (rule requested_block [OF r(2) assms(3)])
  have "se_code env cid = id_code" using assms(2) r(1) unfolding cid_laws_def by (auto simp: into_cid_def)
  then have h: "hash_shwap_block env get_by_height (try_from_cid id_codec id_size id_code dec) cdec
      (\<lambda>i. into_cid id_codec id_code (enc i)) bh cver raw = Inr (se_hash env cid)" using b(3) assms(5) by metis
  show ?thesis using hashed_block [OF h assms(2) r(1) assms(4) b(1)] b(2) r(3) by auto
qed

end

lemmas id_conversions = row_id_try_from_def row_id_into_def sample_id_try_from_def sample_id_into_def
  namespace_data_id_try_from_def namespace_data_id_into_def

lemma multihash_codes:
  "ROW_ID_MULTIHASH_CODE \<noteq> ROW_NAMESPACE_DATA_ID_MULTIHASH_CODE" "ROW_ID_MULTIHASH_CODE \<noteq> SAMPLE_ID_MULTIHASH_CODE"
  "ROW_NAMESPACE_DATA_ID_MULTIHASH_CODE \<noteq> SAMPLE_ID_MULTIHASH_CODE"
  by (simp_all add: ROW_ID_MULTIHASH_CODE_def ROW_NAMESPACE_DATA_ID_MULTIHASH_CODE_def SAMPLE_ID_MULTIHASH_CODE_def)

lemma shwap_hash_row:
  "shwap_hash env get_by_height ROW_ID_MULTIHASH_CODE raw =
     hash_shwap_block env get_by_height (try_from_cid ROW_ID_CODEC ROW_ID_SIZE ROW_ID_MULTIHASH_CODE row_id_decode) (decode_row env)
       (\<lambda>i. into_cid ROW_ID_CODEC ROW_ID_MULTIHASH_CODE (row_id_encode i)) row_id_block_height (row_verify (se_nmt env)) raw"
  by (simp add: shwap_hash_def row_id_try_from_def row_id_into_def [abs_def])

lemma shwap_hash_sample:
  "shwap_hash env get_by_height SAMPLE_ID_MULTIHASH_CODE raw =
     hash_shwap_block env get_by_height (try_from_cid SAMPLE_ID_CODEC SAMPLE_ID_SIZE SAMPLE_ID_MULTIHASH_CODE sample_id_decode) (decode_sample env)
       (\<lambda>i. into_cid SAMPLE_ID_CODEC SAMPLE_ID_MULTIHASH_CODE (sample_id_encode i)) sample_id_block_height (sample_verify (se_nmt env)) raw"
  using multihash_codes by (simp add: shwap_hash_def sample_id_try_from_def sample_id_into_def [abs_def])

lemma shwap_hash_namespace_data:
  "shwap_hash env get_by_height ROW_NAMESPACE_DATA_ID_MULTIHASH_CODE raw =
     hash_shwap_block env get_by_height (try_from_cid ROW_NAMESPACE_DATA_CODEC ROW_NAMESPACE_DATA_ID_SIZE ROW_NAMESPACE_DATA_ID_MULTIHASH_CODE
       namespace_data_id_decode) (decode_namespace_data env) (\<lambda>i. into_cid ROW_NAMESPACE_DATA_CODEC ROW_NAMESPACE_DATA_ID_MULTIHASH_CODE
       (namespace_data_id_encode i)) namespace_data_id_block_height (rnd_verify (se_nmt env)) raw"
  using multihash_codes by (simp add: shwap_hash_def namespace_data_id_try_from_def namespace_data_id_into_def [abs_def])

lemma get_row_verified:
  assumes "get_row env bitswap i h timeout = Inr row" "cid_laws env" "bitswap_law env get_by_height bitswap" "i \<le> u16_max" "h \<le> u64_max"
  obtains rid header where "row_id_new i h = Inr rid" "get_by_height h = Inr header" "row_verify (se_nmt env) row rid (eh_dah header) = Inr ()"
proof -
  obtain rid where r: "row_id_new i h = Inr rid" using assms(1) by (auto simp: get_row_def try_bind_Inr_iff)
  have "row_id_block_height rid = h" using r by (auto simp: row_id_new_def row_id_block_height_def split: if_splits)
  then show ?thesis using row.request_verified [OF _ assms(2,3) new_ids_valid(1) [OF r assms(4,5)] shwap_hash_row, of timeout "\<lambda>_. Shwap ''{e}''" row]
      assms(1) r that by (auto simp: get_row_def row_id_into_def)
qed

lemma get_sample_verified:
  assumes "get_sample env bitswap r c h timeout = Inr smp" "cid_laws env" "bitswap_law env get_by_height bitswap"
    "r \<le> u16_max" "c \<le> u16_max" "h \<le> u64_max"
  obtains sid header where "sample_id_new r c h = Inr sid" "get_by_height h = Inr header" "sample_verify (se_nmt env) smp sid (eh_dah header) = Inr ()"
proof -
  obtain sid where s: "sample_id_new r c h = Inr sid" using assms(1) by (auto simp: get_sample_def try_bind_Inr_iff)
  have "sample_id_block_height sid = h" using s
    by (auto simp: sample_id_new_def row_id_new_def sample_id_block_height_def row_id_block_height_def try_bind_Inr_iff split: if_splits)
  then show ?thesis using sample.request_verified [OF _ assms(2,3) new_ids_valid(2) [OF s assms(4-6)] shwap_hash_sample, of timeout "\<lambda>_. Shwap ''{e}''" smp]
      assms(1) s that by (auto simp: get_sample_def sample_id_into_def)
qed

lemma get_namespace_data_verified:
  assumes "get_row_namespace_data env bitswap ns r h timeout = Inr d" "cid_laws env" "bitswap_law env get_by_height bitswap"
    "r \<le> u16_max" "h \<le> u64_max" "valid_namespace (as_bytes ns)"
  obtains nid header container where "namespace_data_id_new ns r h = Inr nid" "get_by_height h = Inr header"
    "rnd_verify (se_nmt env) d nid (eh_dah header) = Inr ()" "decode_namespace_data env nid container = Inr d"
proof -
  obtain nid container where n: "namespace_data_id_new ns r h = Inr nid" "decode_namespace_data env nid container = Inr d"
    using assms(1) by (auto simp: get_row_namespace_data_def try_bind_Inr_iff)
  then have "namespace_data_id_block_height nid = h" "valid_namespace_data_id nid" using assms(4-6)
    by (auto simp: namespace_data_id_new_def row_id_new_def namespace_data_id_block_height_def row_id_block_height_def
        valid_namespace_data_id_def valid_row_id_def try_bind_Inr_iff split: if_splits)
  then show ?thesis using namespace_data.request_verified [OF _ assms(2,3) _ shwap_hash_namespace_data, of nid timeout "\<lambda>_. Shwap ''{e}''" d]
      assms(1) n that by (auto simp: get_row_namespace_data_def namespace_data_id_into_def)
qed

section \<open>Blobs of a namespace\<close>

lemma shares_by_data:
  "map sh_data xs = map sh_data ys \<Longrightarrow> \<forall>s \<in> set xs. \<not> sh_parity s \<Longrightarrow> \<forall>s \<in> set ys. \<not> sh_parity s \<Longrightarrow> xs = (ys :: share list)"
proof (induction xs arbitrary: ys)
  case (Cons x xs)
  then obtain y ys' where ys: "ys = y # ys'" "sh_data x = sh_data y" "map sh_data xs = map sh_data ys'" by (cases ys) auto
  have "x = y" by (rule share_cell_unique [OF ys(2)]) (use Cons.prems ys(1) in simp)
  moreover have "xs = ys'" by (rule Cons.IH [OF ys(3)]) (use Cons.prems ys(1) in simp_all)
  ultimately show ?case using ys(1) by simp
qed simp

lemma leaves_in_namespace: "map fst (filter (\<lambda>l. snd l = ns) (map leaf_of ss)) = map sh_data (in_namespace ns ss)"
  by (induction ss) (auto simp: leaf_of_def share_to_vec_def)

lemma decoded_shares:
  assumes "rnd_decode lib parse raw nid container = Inr d" "nid_namespace nid \<noteq> PARITY_SHARE" "s \<in> set (rnd_shares d)"
  shows "\<not> sh_parity s"
proof -
  obtain rs where "try_map share_from_raw rs = Inr (rnd_shares d)"
    using assms(1,2) by (auto simp: rnd_decode_def rnd_from_raw_def try_bind_Inr_iff split: option.splits if_splits)
  then have "list_all2 (\<lambda>r s. \<not> sh_parity s) rs (rnd_shares d)" unfolding try_map_Inr_iff
    by (rule list.rel_mono_strong) (simp add: share_from_raw_iff)
  then show ?thesis using assms(3) by (auto simp: list_all2_conv_all_nth in_set_conv_nth)
qed

lemma namespace_data_of_square:
  assumes "nmt_laws lib" "nmt_sound lib" "eds_ok e" "dah_from_eds lib e = Inr dah" "ns \<noteq> PARITY_SHARE" "r < eds_square_width e"
    "namespace_data_id_new ns r h = Inr nid" "rnd_verify lib d nid dah = Inr ()" "rnd_decode lib parse raw nid container = Inr d"
  shows "rnd_shares d = in_namespace ns (axis_cells e Row r)"
proof (rule shares_by_data)
  let ?cells = "axis_cells e Row r"
  obtain t where t: "tree_of lib (nl_default lib) (map leaf_of ?cells) = Inr t" "axis_root dah Row r = Some (nl_root lib t)"
    by (rule axis_roots [OF assms(1,3,4,6)])
  have nid: "nid_namespace nid = ns" "namespace_data_id_row_index nid = r" using assms(7)
    by (auto simp: namespace_data_id_new_def row_id_new_def namespace_data_id_row_index_def try_bind_Inr_iff split: if_splits)
  have "nl_verify_complete lib (rnd_proof d) (nl_root lib t) (map share_to_vec (rnd_shares d)) ns"
    using assms(8) nid t(2) by (auto simp: rnd_verify_def Let_def split: if_splits)
  then have "map share_to_vec (rnd_shares d) = map fst (filter (\<lambda>l. snd l = ns) (map leaf_of ?cells))"
    using assms(2,5) t(1) unfolding nmt_sound_def by blast
  then show "map sh_data (rnd_shares d) = map sh_data (in_namespace ns ?cells)"
    unfolding leaves_in_namespace by (simp add: share_to_vec_def [abs_def])
  show "\<forall>s \<in> set (rnd_shares d). \<not> sh_parity s" using decoded_shares [OF assms(9)] nid(1) assms(5) by simp
  show "\<forall>s \<in> set (in_namespace ns ?cells). \<not> sh_parity s" using assms(5) by (auto simp: share_namespace_def)
qed

lemma try_map_error:
  assumes "try_map f xs = Inl e"
  obtains x where "x \<in> set xs" "f x = Inl e"
proof -
  have "\<exists>x \<in> set xs. f x = Inl e" using assms
    by (induction xs) (auto simp: try_bind_def split: sum.splits)
  then show ?thesis using that by blast
qed

lemma fetched_rows:
  assumes "nmt_laws (se_nmt env)" "eds_ok e" "dah_from_eds (se_nmt env) e = Inr (eh_dah header)" "ns \<noteq> PARITY_SHARE"
  shows "\<forall>r \<in> set (rows_to_fetch env header ns). r < eds_square_width e"
    "concat (map (\<lambda>r. in_namespace ns (axis_cells e Row r)) (rows_to_fetch env header ns)) = in_namespace ns (eds_data_square e)"
proof -
  let ?w = "eds_square_width e" and ?row = "\<lambda>r. in_namespace ns (axis_cells e Row r)"
  let ?hit = "\<lambda>r. nl_contains (se_nmt env) (row_roots (eh_dah header) ! r) ns"
  have len: "length (row_roots (eh_dah header)) = ?w" using dah_lengths [OF assms(1-3)] by simp
  have w: "?w \<le> 256" using eds_okD(1) [OF assms(2)] by (simp add: square_width_iff)
  have "List.enumerate 0 (row_roots (eh_dah header)) = map (\<lambda>r. (r, row_roots (eh_dah header) ! r)) [0..<?w]"
    by (rule nth_equalityI) (auto simp: len nth_enumerate_eq)
  then have "rows_to_fetch env header ns = map (\<lambda>n. n mod 2 ^ 16) (filter ?hit [0..<?w])"
    by (simp add: rows_to_fetch_def filter_map comp_def)
  also have "\<dots> = filter ?hit [0..<?w]" by (rule map_idI) (use w in auto)
  finally have rows: "rows_to_fetch env header ns = filter ?hit [0..<?w]" .
  show "\<forall>r \<in> set (rows_to_fetch env header ns). r < ?w" unfolding rows by simp
  have miss: "?row r = []" if r: "r < ?w" and out: "\<not> ?hit r" for r
  proof -
    obtain t where t: "tree_of (se_nmt env) (nl_default (se_nmt env)) (map leaf_of (axis_cells e Row r)) = Inr t" "axis_root (eh_dah header) Row r = Some (nl_root (se_nmt env) t)"
      by (rule axis_roots [OF assms(1-3) r])
    then have "row_roots (eh_dah header) ! r = nl_root (se_nmt env) t" using r len by (simp add: row_root_def list_get_def)
    then show ?thesis using law_complete(1) [OF assms(1) t(1) assms(4)] out by auto
  qed
  have "concat (map ?row (filter ?hit rs)) = concat (map ?row rs)" if "\<forall>r \<in> set rs. r < ?w" for rs
    using that miss by (induction rs) auto
  then have "concat (map ?row (rows_to_fetch env header ns)) = concat (map ?row [0..<?w])" unfolding rows by simp
  also have "\<dots> = in_namespace ns (eds_data_square e)"
    unfolding square_by_rows [OF assms(2), symmetric] by (simp add: filter_concat comp_def)
  finally show "concat (map ?row (rows_to_fetch env header ns)) = in_namespace ns (eds_data_square e)" .
qed

lemma fetched_data:
  assumes "nmt_laws (se_nmt env)" "nmt_sound (se_nmt env)" "cid_laws env" "bitswap_law env get_by_height bitswap" "eds_ok e"
    "dah_from_eds (se_nmt env) e = Inr (eh_dah header)" "get_by_height (height header) = Inr header" "height header \<le> u64_max"
    "valid_namespace (as_bytes ns)" "ns \<noteq> PARITY_SHARE"
    "try_map (\<lambda>r. get_row_namespace_data env bitswap ns r (height header) timeout) rows = Inr ds" "\<forall>r \<in> set rows. r < eds_square_width e"
  shows "concat (map rnd_shares ds) = concat (map (\<lambda>r. in_namespace ns (axis_cells e Row r)) rows)"
proof -
  have "list_all2 (\<lambda>r d. rnd_shares d = in_namespace ns (axis_cells e Row r)) rows ds"
    using assms(11) [unfolded try_map_Inr_iff]
  proof (rule list.rel_mono_strong)
    fix r d assume r: "r \<in> set rows" "get_row_namespace_data env bitswap ns r (height header) timeout = Inr d"
    then have rw: "r < eds_square_width e" "r \<le> u16_max" using assms(12) eds_okD(1) [OF assms(5)] by (auto simp: square_width_iff u16_max_def)
    obtain nid hdr container where n: "namespace_data_id_new ns r (height header) = Inr nid" "get_by_height (height header) = Inr hdr"
      "rnd_verify (se_nmt env) d nid (eh_dah hdr) = Inr ()" "decode_namespace_data env nid container = Inr d"
      by (rule get_namespace_data_verified [OF r(2) assms(3,4) rw(2) assms(8,9)])
    then show "rnd_shares d = in_namespace ns (axis_cells e Row r)" using assms(7)
      by (intro namespace_data_of_square [OF assms(1,2,5,6,10) rw(1) n(1)]) (auto simp: decode_namespace_data_def)
  qed
  then have "map rnd_shares ds = map (\<lambda>r. in_namespace ns (axis_cells e Row r)) rows"
    by (auto simp: list_all2_conv_all_nth intro: nth_equalityI)
  then show ?thesis by simp
qed

text \<open>
  (C?) Blobs end to end: when a block's square holds, in a namespace of users, the shares of some blobs, a request for
  all blobs of that namespace with the header of the block (\<open>P2p::get_all_blobs\<close>) returns exactly these blobs in order,
  or the error of a request for one of the rows. The data comes from untrusted peers through bitswap.
\<close>

theorem get_all_blobs_correct:
  assumes "nmt_laws (se_nmt env)" "nmt_sound (se_nmt env)" "cid_laws env" "bitswap_law env get_by_height bitswap" "eds_ok e"
    "dah_from_eds (se_nmt env) e = Inr (eh_dah header)" "get_by_height (height header) = Inr header" "height header \<le> u64_max"
    "eh_app_version header = Inr v" "valid_namespace (as_bytes ns)" "\<not> is_reserved ns"
    "\<forall>b \<in> set blobs. posted commit_env v b" "list_all2 (\<lambda>b ss. to_shares b = Some (Inr ss)) blobs sss"
    "filter (\<lambda>s. share_namespace s = ns) (eds_data_square e) = concat sss"
  shows "get_all_blobs env commit_env bitswap header ns timeout = Some (Inr blobs) \<or>
    (\<exists>r err. r < eds_square_width e \<and> get_row_namespace_data env bitswap ns r (height header) timeout = Inl err \<and>
       get_all_blobs env commit_env bitswap header ns timeout = Some (Inl err))"
proof -
  have ns: "ns \<noteq> PARITY_SHARE" using assms(11) parity_reserved by blast
  note rows = fetched_rows [OF assms(1,5,6) ns]
  let ?get = "\<lambda>r. get_row_namespace_data env bitswap ns r (height header) timeout"
  show ?thesis
  proof (cases "try_map ?get (rows_to_fetch env header ns)")
    case (Inl err)
    then obtain r where "r \<in> set (rows_to_fetch env header ns)" "?get r = Inl err" by (rule try_map_error)
    then show ?thesis using rows(1) Inl assms(9) by (auto simp: get_all_blobs_def)
  next
    case (Inr ds)
    have "concat (map rnd_shares ds) = concat sss"
      using fetched_data [OF assms(1-8,10) ns Inr rows(1)] rows(2) assms(14) by simp
    moreover have "filter (\<lambda>s. \<not> is_reserved (share_namespace s)) (concat sss) = concat sss"
      unfolding assms(14) [symmetric] filter_filter by (rule filter_cong [OF refl]) (use assms(11) in auto)
    ultimately have "reconstruct_all commit_env (concat (map rnd_shares ds)) v = Some (Inr blobs)"
      using reconstruct_loop_posted [OF assms(12,13), of "[]"] by (simp add: reconstruct_all_def)
    then show ?thesis using Inr assms(9) by (simp add: get_all_blobs_def)
  qed
qed

section \<open>Samples at the wrong position\<close>

lemma sample_same_row:
  assumes "nmt_laws lib" "nmt_proof_laws lib" "parse_law parse" "eds_ok e" "dah_from_eds lib e = Inr dah"
    "r < eds_square_width e" "c < eds_square_width e" "c' < eds_square_width e" "0 < h"
    "(r < eds_square_width e div 2 \<and> c < eds_square_width e div 2) = (r < eds_square_width e div 2 \<and> c' < eds_square_width e div 2)"
    "sample_id_new r c h = Inr sid" "sample_new lib r c' Row e = Inr s"
  shows "smp_share s = cell e r c'" "sample_verify lib s sid dah = Inr ()" "sample_from_raw lib parse sid (sample_into_raw s) = Inr s"
proof -
  obtain sid' where sid': "sample_id_new r c' h = Inr sid'" using assms(9) by (auto simp: sample_id_new_def row_id_new_def)
  obtain s' where s': "sample_new lib r c' Row e = Inr s'" "smp_share s' = cell e r c'" "smp_proof_type s' = Row"
    "sample_verify lib s' sid' dah = Inr ()" "sample_from_raw lib parse sid' (sample_into_raw s') = Inr s'"
    by (rule sample_of_square [OF assms(1-6,8) sid', of Row])
  have eq: "s' = s" using s'(1) assms(12) by simp
  have idx: "sample_id_row_index sid = r" "sample_id_row_index sid' = r" "sid_column_index sid = c" "sid_column_index sid' = c'"
    using assms(11) sid' by (auto simp: sample_id_new_def row_id_new_def sample_id_row_index_def try_bind_Inr_iff split: if_splits)
  show "smp_share s = cell e r c'" using s'(2) eq by simp
  show "sample_verify lib s sid dah = Inr ()" using s'(3,4) idx eq by (simp add: sample_verify_def)
  obtain t where t: "axis_nmt lib e Row r = Inr t" "tree_of lib (nl_default lib) (map leaf_of (axis_cells e Row r)) = Inr t"
    by (rule axis_roots [OF assms(1,4-6)])
  obtain k where k: "length (map leaf_of (axis_cells e Row r)) = 2 ^ k" "k < 32" using width_power [OF assms(4)] by auto
  have pr: "smp_proof s = PresenceProof (nl_range_proof lib t c' (c' + 1)) True"
    using assms(4,6,8,12) t(1) by (auto simp: sample_new_def eds_share_cell row_nmt_def)
  then have p: "proof_ok (smp_proof s)" "total_leaves (smp_proof s) = Some (eds_square_width e)" "\<not> is_of_absence (smp_proof s)"
    using law_proof [OF assms(2) t(2) k, of c' True] assms(8) by simp_all
  show "sample_from_raw lib parse sid (sample_into_raw s) = Inr s"
    using s'(3,5) idx assms(10) p(2,3) proof_roundtrip [OF assms(1,3) p(1)] eq
    by (simp add: sample_from_raw_def sample_into_raw_def axis_as_i32_def axis_try_from_def)
qed

text \<open>
  (C?) The flaw in the check of samples: for a sample of row \<open>r\<close> and column \<open>c\<close> the multihasher accepts, as proven by row,
  the share of any other column of that row and the same half with its Merkle proof. The column of the identifier is
  never compared with the position in the proof, so that a peer that has one share of a row can answer the requests for
  the other ones.
\<close>

theorem misplaced_sample_accepted:
  assumes "nmt_laws (se_nmt env)" "nmt_proof_laws (se_nmt env)" "parse_law (se_parse env)" "eds_ok e"
    "dah_from_eds (se_nmt env) e = Inr (eh_dah header)" "get_by_height h = Inr header" "0 < h" "h \<le> u64_max"
    "r < eds_square_width e" "c < eds_square_width e div 2" "c' < eds_square_width e div 2"
    "sample_id_new r c h = Inr sid" "sample_new (se_nmt env) r c' Row e = Inr s"
    "se_block env input = Some blk" "se_read_generic env (block_cid blk) = Some (sample_id_into sid)"
    "se_sample env (block_container blk) = Some (sample_into_raw s)" "se_convert env (sample_id_into sid) = Some cid"
  shows "Inr (smp_share s) = eds_share e r c' \<and> shwap_hash env get_by_height SAMPLE_ID_MULTIHASH_CODE input = Inr (se_hash env cid)"
proof -
  have w: "eds_square_width e \<le> 256" using eds_okD(1) [OF assms(4)] by (simp add: square_width_iff)
  have c: "c < eds_square_width e" "c' < eds_square_width e" using assms(10,11) by auto
  have side: "(r < eds_square_width e div 2 \<and> c < eds_square_width e div 2) = (r < eds_square_width e div 2 \<and> c' < eds_square_width e div 2)"
    using assms(10,11) by simp
  note s = sample_same_row [OF assms(1-5,9) c assms(7) side assms(12,13)]
  have "valid_sample_id sid" by (rule new_ids_valid(2) [OF assms(12)]) (use assms(8,9) c w in \<open>auto simp: u16_max_def\<close>)
  then have "sample_id_try_from (sample_id_into sid) = Inr sid"
    using sample.try_from_iff by (simp add: sample_id_try_from_def sample_id_into_def)
  moreover have "sample_id_block_height sid = h" using assms(12)
    by (auto simp: sample_id_new_def row_id_new_def sample_id_block_height_def row_id_block_height_def try_bind_Inr_iff split: if_splits)
  ultimately show ?thesis using s assms(6,14-17) multihash_codes eds_share_cell [OF assms(4,9) c(2)]
    by (simp add: shwap_hash_def hash_shwap_block_def decode_sample_def sample_decode_def convert_cid_def)
qed

section \<open>An example\<close>

text \<open>
  A network whose peers answer from a square, with the identifier itself as the block: namespace data as the square has
  it, samples always with the first share of the row.
\<close>

definition toy_cid :: "cid_generic \<Rightarrow> cid" where
  "toy_cid c = put_be 8 (cid_codec c) @ put_be 8 (cid_mh_code c) @ cid_digest c"

definition toy_read :: "cid \<Rightarrow> cid_generic" where
  "toy_read b = \<lparr> cid_codec = get_be (take 8 b), cid_mh_code = get_be (take 8 (drop 8 b)), cid_digest = drop 16 b \<rparr>"

definition toy_data :: "eds \<Rightarrow> namespace \<Rightarrow> nat \<Rightarrow> row_namespace_data" where
  "toy_data e ns r =
     \<lparr> rnd_proof = nl_namespace_proof list_nmt (map leaf_of (axis_cells e Row r)) ns, rnd_shares = in_namespace ns (axis_cells e Row r) \<rparr>"

definition toy_env :: "eds \<Rightarrow> (bytes \<times> namespace) list shwap_env" where
  "toy_env e =
     \<lparr> se_nmt = list_nmt, se_parse = hash_parse, se_encode = copy_encode, se_reconstruct = copy_reconstruct, se_row = (\<lambda>_. None),
       se_sample = (\<lambda>b. case sample_id_try_from (toy_read b) of
           Inr i \<Rightarrow> (case sample_new list_nmt (sample_id_row_index i) 0 Row e of Inr s \<Rightarrow> Some (sample_into_raw s) | Inl _ \<Rightarrow> None)
         | Inl _ \<Rightarrow> None),
       se_namespace_data = (\<lambda>b. case namespace_data_id_try_from (toy_read b) of
           Inr i \<Rightarrow> Some (rnd_into_raw (toy_data e (nid_namespace i) (namespace_data_id_row_index i))) | Inl _ \<Rightarrow> None),
       se_block = (\<lambda>b. Some \<lparr> block_cid = b, block_container = b \<rparr>), se_read_generic = (\<lambda>b. Some (toy_read b)), se_read_cid = Some,
       se_convert = (\<lambda>c. if cid_codec c < 256 ^ 8 \<and> cid_mh_code c < 256 ^ 8 then Some (toy_cid c) else None),
       se_hash = (\<lambda>x. x), se_code = (\<lambda>x. cid_mh_code (toy_read x)) \<rparr>"

text \<open>A bitswap that checks.\<close>

definition toy_bitswap :: "'t shwap_env \<Rightarrow> (nat \<Rightarrow> (extended_header, store_error) result) \<Rightarrow> bitswap" where
  "toy_bitswap env get_by_height cid timeout =
     (if shwap_hash env get_by_height (se_code env cid) cid = Inr (se_hash env cid) then Inr cid else Inl NoConnectedPeers)"

lemma toy_bitswap_law: "bitswap_law env get_by_height (toy_bitswap env get_by_height)"
  by (auto simp: bitswap_law_def toy_bitswap_def split: if_splits)

lemma toy_read_cid: "cid_codec c < 256 ^ 8 \<Longrightarrow> cid_mh_code c < 256 ^ 8 \<Longrightarrow> toy_read (toy_cid c) = c"
  using length_put_be [of 8 "cid_codec c"] length_put_be [of 8 "cid_mh_code c"]
  by (simp add: toy_read_def toy_cid_def get_put_be)

lemma toy_cid_laws: "cid_laws (toy_env e)"
proof -
  have "c = c'" if "toy_cid c = toy_cid c'" "cid_codec c < 256 ^ 8" "cid_mh_code c < 256 ^ 8" "cid_codec c' < 256 ^ 8" "cid_mh_code c' < 256 ^ 8" for c c'
    using toy_read_cid that by metis
  then show ?thesis unfolding cid_laws_def toy_env_def by (auto simp: toy_read_cid split: if_splits)
qed

lemma toy_namespace_data:
  assumes "eds_ok e" "dah_from_eds list_nmt e = Inr (eh_dah header)" "get_by_height (height header) = Inr header" "r < eds_square_width e"
    "0 < height header" "height header \<le> u64_max" "valid_namespace (as_bytes ns)" "ns \<noteq> PARITY_SHARE"
  shows "get_row_namespace_data (toy_env e) (toy_bitswap (toy_env e) get_by_height) ns r (height header) timeout = Inr (toy_data e ns r)"
proof -
  obtain nid where nid: "namespace_data_id_new ns r (height header) = Inr nid" using assms(5) by (auto simp: namespace_data_id_new_def row_id_new_def)
  have f: "nid_namespace nid = ns" "namespace_data_id_row_index nid = r" "namespace_data_id_block_height nid = height header" "valid_namespace_data_id nid"
    using nid assms(1,4-7) eds_okD(1) [OF assms(1)]
    by (auto simp: namespace_data_id_new_def row_id_new_def namespace_data_id_row_index_def namespace_data_id_block_height_def row_id_block_height_def
        valid_namespace_data_id_def valid_row_id_def square_width_iff u16_max_def split: if_splits)
  obtain t where t: "tree_of list_nmt (nl_default list_nmt) (map leaf_of (axis_cells e Row r)) = Inr t" "axis_root (eh_dah header) Row r = Some (nl_root list_nmt t)"
    by (rule axis_roots [OF list_nmt_laws assms(1,2,4)])
  have "t = map leaf_of (axis_cells e Row r)" using list_tree [OF t(1)] by simp
  then have good: "rnd_verify list_nmt (toy_data e ns r) nid (eh_dah header) = Inr ()" "rnd_from_raw list_nmt hash_parse nid (rnd_into_raw (toy_data e ns r)) = Inr (toy_data e ns r)"
    using row_data_good [OF list_nmt_laws list_nmt_proof_laws hash_parse_law assms(1,4,8) t(1) _ _ nid, of "eh_dah header"] t(2)
    by (simp_all add: good_data_def toy_data_def)
  let ?c = "namespace_data_id_into nid"
  have c: "cid_codec ?c < 256 ^ 8" "cid_mh_code ?c < 256 ^ 8" "cid_mh_code ?c = ROW_NAMESPACE_DATA_ID_MULTIHASH_CODE"
    by (simp_all add: namespace_data_id_into_def into_cid_def ROW_NAMESPACE_DATA_CODEC_def ROW_NAMESPACE_DATA_ID_MULTIHASH_CODE_def)
  have tried: "namespace_data_id_try_from ?c = Inr nid"
    using namespace_data.try_from_iff f(4) by (simp add: namespace_data_id_try_from_def namespace_data_id_into_def)
  have dec: "decode_namespace_data (toy_env e) nid (toy_cid ?c) = Inr (toy_data e ns r)"
    using toy_read_cid [OF c(1,2)] tried good(2) f(1,2) by (simp add: decode_namespace_data_def rnd_decode_def toy_env_def)
  have "shwap_hash (toy_env e) get_by_height ROW_NAMESPACE_DATA_ID_MULTIHASH_CODE (toy_cid ?c) = Inr (toy_cid ?c)"
    unfolding shwap_hash_def hash_shwap_block_def using multihash_codes toy_read_cid [OF c(1,2)] tried dec good(1) f(3) assms(3) c
    by (simp add: convert_cid_def) (simp add: toy_env_def)
  then show ?thesis using nid dec c toy_read_cid [OF c(1,2)]
    by (simp add: get_row_namespace_data_def get_shwap_cid_def get_block_container_def toy_bitswap_def convert_cid_def) (simp add: toy_env_def)
qed

lemma toy_blob:
  obtains b s where "to_shares b = Some (Inr [s])" "share_namespace s = sample_ns" "\<not> sh_parity s" "share_ok s" "posted Blob.sample_commit V2 b"
    "bl_data b = [1, 2, 3]"
proof -
  have len: "length [1 :: byte, 2, 3] \<le> u32_max" by (simp add: u32_max_def)
  obtain b where b: "blob_new Blob.sample_commit sample_ns [1, 2, 3] V2 = Some (Inr b)"
    by (rule blob_new_total [OF sample_ns_facts(1) len sample_commit_facts(1)])
  note f = blob_new_fields [OF b]
  obtain s ss pad p where s: "split_blob_to_shares sample_ns 0 [1, 2, 3] = Some (Inr (s # ss))" "share_in sample_ns (Some (length [1 :: byte, 2, 3])) p s"
    "\<forall>x \<in> set ss. continuation sample_ns x" "length (s # ss) = shares_needed_for_blob (length [1 :: byte, 2, 3])"
    "p @ payloads ss = [1, 2, 3] @ replicate pad 0" by (rule split_shares [OF sample_ns_facts(1) len]) simp
  have "ss = []" using s(4) by (simp add: shares_needed_for_blob_def checked_sub_def split: if_splits)
  then have "to_shares b = Some (Inr [s])" using s(1) f by (simp add: to_shares_def)
  moreover have "posted Blob.sample_commit V2 b" using b f len sample_ns_facts by (simp add: posted_def)
  ultimately show ?thesis using that s(2) f by (auto simp: share_in_def)
qed

lemma one_share_square:
  assumes "share_ok s" "\<not> sh_parity s" "share_namespace s \<noteq> PARITY_SHARE"
  obtains e and header :: extended_header where "eds_ok e" "eds_square_width e = 2" "in_namespace (share_namespace s) (eds_data_square e) = [s]"
    "dah_from_eds list_nmt e = Inr (eh_dah header)" "height header = 1" "eh_app_version header = Inr V2"
proof -
  have lens: "\<forall>d \<in> set [sh_data s]. length d = SHARE_SIZE" using assms(1) by (simp add: share_ok_def)
  have "ods_ok 1 [sh_data s]" using assms width_2 by (simp add: ods_ok_def share_ok_def)
  then obtain e where e: "from_ods copy_encode [sh_data s] V2 = Inr e" using from_ods_ok [OF copy_encode_laws lens, of 1 V2] by (auto simp: is_ok_iff)
  obtain k where k: "eds_ok e" "eds_square_width e = 2 * k" "length [sh_data s] = k * k"
    "\<forall>r < k. \<forall>c < k. share_to_vec (cell e r c) = [sh_data s] ! (r * k + c)" by (rule from_ods_square [OF copy_encode_laws lens e])
  have w: "k = 1" "eds_square_width e = 2" using k(2,3) by simp_all
  have c00: "cell e 0 0 = s" by (rule share_cell_unique) (use k(4) w eds_okD(4) [OF k(1), of 0 0] assms(2) in \<open>simp_all add: share_to_vec_def\<close>)
  have par: "share_namespace (cell e r c) = PARITY_SHARE" if "r < 2" "c < 2" "r \<noteq> 0 \<or> c \<noteq> 0" for r c
    using eds_okD(4) [OF k(1), of r c] w that by (auto simp: share_namespace_def)
  have "eds_data_square e = concat (map (axis_cells e Row) [0, 1])" using square_by_rows [OF k(1)] w by (simp add: upt_rec)
  also have "\<dots> = [cell e 0 0, cell e 0 1, cell e 1 0, cell e 1 1]" using w by (simp add: axis_cells_def upt_rec)
  finally have sq: "eds_data_square e = [cell e 0 0, cell e 0 1, cell e 1 0, cell e 1 1]" .
  have "in_namespace (share_namespace s) (eds_data_square e) = [s]" unfolding sq using c00 par assms(3) by simp
  moreover obtain dah where "dah_from_eds list_nmt e = Inr dah" by (rule dah_from_eds_roots [OF list_nmt_laws k(1)])
  ultimately show ?thesis using that [of e "(sample_header 1)\<lparr> eh_dah := dah \<rparr>"] k(1) w
    by (simp add: height_def sample_header_def eh_app_version_def from_u64_def)
qed

theorem get_all_blobs_correct_witness:
  "\<exists>e header b get_by_height. bl_data b = [1, 2, 3] \<and>
     get_all_blobs (toy_env e) Blob.sample_commit (toy_bitswap (toy_env e) get_by_height) header sample_ns None = Some (Inr [b])"
proof -
  obtain b s where b: "to_shares b = Some (Inr [s])" "share_namespace s = sample_ns" "\<not> sh_parity s" "share_ok s" "posted Blob.sample_commit V2 b"
    "bl_data b = [1, 2, 3]" by (rule toy_blob)
  have ns: "sample_ns \<noteq> PARITY_SHARE" using sample_ns_facts(2) parity_reserved by auto
  obtain e and header :: extended_header where e: "eds_ok e" "eds_square_width e = 2" "in_namespace sample_ns (eds_data_square e) = [s]"
    "dah_from_eds list_nmt e = Inr (eh_dah header)" "height header = 1" "eh_app_version header = Inr V2"
    by (rule one_share_square [OF b(4,3), unfolded b(2), OF ns])
  let ?get = "\<lambda>h. if h = 1 then Inr header else Inl NotFound" and ?env = "toy_env e"
  have lib: "se_nmt ?env = list_nmt" by (simp add: toy_env_def)
  have get: "?get (height header) = Inr header" "0 < height header" "height header \<le> u64_max" using e(5) by (simp_all add: u64_max_def)
  have "get_row_namespace_data ?env (toy_bitswap ?env ?get) sample_ns r (height header) None = Inr (toy_data e sample_ns r)" if "r < 2" for r
    by (rule toy_namespace_data [where get_by_height = ?get, OF e(1,4) get(1) _ get(2,3) sample_ns_facts(1) ns]) (use that e(2) in simp)
  moreover from get_all_blobs_correct [of ?env ?get "toy_bitswap ?env ?get" e header V2 sample_ns "[b]" Blob.sample_commit "[[s]]" None,
      unfolded lib, OF list_nmt_laws list_nmt_sound toy_cid_laws toy_bitswap_law e(1,4) get(1,3) e(6) sample_ns_facts]
  have "get_all_blobs ?env Blob.sample_commit (toy_bitswap ?env ?get) header sample_ns None = Some (Inr [b]) \<or>
      (\<exists>r err. r < eds_square_width e \<and> get_row_namespace_data ?env (toy_bitswap ?env ?get) sample_ns r (height header) None = Inl err)"
    using b e(3) by auto
  ultimately have "get_all_blobs ?env Blob.sample_commit (toy_bitswap ?env ?get) header sample_ns None = Some (Inr [b])"
    using e(2) by (metis sum.distinct(1))
  then show ?thesis using b(6) by blast
qed

theorem misplaced_sample_accepted_witness:
  "\<exists>e header sid s cid. sample_id_new 0 1 1 = Inr sid \<and> sample_new list_nmt 0 0 Row e = Inr s \<and> eds_share e 0 0 \<noteq> eds_share e 0 1 \<and>
     shwap_hash (toy_env e) (\<lambda>_. Inr header) SAMPLE_ID_MULTIHASH_CODE cid = Inr cid"
proof -
  obtain e and header :: extended_header where e: "eds_ok e" "eds_square_width e = 2 * 2"
    "\<forall>r < 2. \<forall>c < 2. share_to_vec (cell e r c) = pad_ods 2 ! (r * 2 + c)" "dah_from_eds list_nmt e = Inr (eh_dah header)"
    by (rule pad_square [OF width_4])
  obtain sid where sid: "sample_id_new 0 1 1 = Inr sid" by (simp add: sample_id_new_def row_id_new_def)
  obtain sid' where sid': "sample_id_new 0 0 1 = Inr sid'" by (simp add: sample_id_new_def row_id_new_def)
  have w: "0 < eds_square_width e" "0 < eds_square_width e div 2" "1 < eds_square_width e div 2" using e(2) by simp_all
  obtain s where s: "sample_new list_nmt 0 0 Row e = Inr s"
    using sample_of_square [OF list_nmt_laws list_nmt_proof_laws hash_parse_law e(1,4) w(1,1) sid', of Row] by metis
  let ?env = "toy_env e" and ?c = "sample_id_into sid"
  have lib: "se_nmt ?env = list_nmt" "se_parse ?env = hash_parse" by (simp_all add: toy_env_def)
  have c: "cid_codec ?c < 256 ^ 8" "cid_mh_code ?c < 256 ^ 8" by (simp_all add: sample_id_into_def into_cid_def SAMPLE_ID_CODEC_def SAMPLE_ID_MULTIHASH_CODE_def)
  have "valid_sample_id sid" by (rule new_ids_valid(2) [OF sid]) (simp_all add: u16_max_def u64_max_def)
  then have tried: "sample_id_try_from ?c = Inr sid" using sample.try_from_iff by (simp add: sample_id_try_from_def sample_id_into_def)
  have "sample_id_row_index sid = 0" using sid by (auto simp: sample_id_new_def row_id_new_def sample_id_row_index_def)
  then have blk: "se_block ?env (toy_cid ?c) = Some \<lparr> block_cid = toy_cid ?c, block_container = toy_cid ?c \<rparr>" "se_read_generic ?env (toy_cid ?c) = Some ?c"
    "se_sample ?env (toy_cid ?c) = Some (sample_into_raw s)" "se_convert ?env ?c = Some (toy_cid ?c)" "se_hash ?env (toy_cid ?c) = toy_cid ?c"
    using toy_read_cid [OF c] tried s c by (simp_all add: toy_env_def)
  have "shwap_hash ?env (\<lambda>_. Inr header) SAMPLE_ID_MULTIHASH_CODE (toy_cid ?c) = Inr (toy_cid ?c)"
    using misplaced_sample_accepted [of ?env e header "\<lambda>_. Inr header" 1 0 1 0 sid s "toy_cid ?c" _ "toy_cid ?c"]
      list_nmt_laws list_nmt_proof_laws hash_parse_law e(1,4) w sid s blk lib by (simp add: u64_max_def)
  moreover have "share_to_vec (cell e 0 0) = pad_share 0" "share_to_vec (cell e 0 1) = pad_share 1" using e(3) by (simp_all add: pad_ods_def)
  then have "eds_share e 0 0 \<noteq> eds_share e 0 1" using eds_share_cell [OF e(1)] w pad_share_eq [of 0 1] by auto
  ultimately show ?thesis using sid s by blast
qed

end
