(* ===== verification/Spec2Isabelle.thy ===== *)
theory Spec2Isabelle
  imports Either_Store Syncer Daser Pruner Header_Ex_Client Header_Session Shwap_Node
begin

text \<open>
  A verification library for Lumina, the Rust implementation of a Celestia light node, covering the crates
  \<^verbatim>\<open>node\<close> and \<^verbatim>\<open>types\<close>.

  \<^bold>\<open>The program.\<close> A light node keeps the headers of a chain and samples their blocks. The syncer
  (\<^verbatim>\<open>node/src/syncer.rs\<close>) asks peers for headers through a header session
  (\<^verbatim>\<open>node/src/p2p/header_session.rs\<close>), whose requests the client of the header exchange
  (\<^verbatim>\<open>node/src/p2p/header_ex/client.rs\<close>) sends to peers the tracker (\<^verbatim>\<open>node/src/peer_tracker.rs\<close>) knows, and
  inserts them into a store (\<^verbatim>\<open>node/src/store.rs\<close>). The server of the exchange answers other nodes from that
  store. The sampler (\<^verbatim>\<open>node/src/daser.rs\<close>) picks random shares of the blocks in its window, records their
  content identifiers in the store and judges the block; the pruner (\<^verbatim>\<open>node/src/pruner.rs\<close>) removes headers
  that have left the window together with the blocks of their identifiers. Headers, commits, validator
  sets, namespaces, proofs and identifiers are the data of the crate \<^verbatim>\<open>types\<close>.

  \<^bold>\<open>Foundations.\<close>
  \<^item> \<open>Prelude\<close>: integers of Rust as \<open>nat\<close> with their wrapping and saturating operations, the \<open>Result\<close> type
    and its combinators, collections of simplification rules.
  \<^item> \<open>Types_Common\<close>: errors (\<^verbatim>\<open>types/src/error.rs\<close>), constants (\<^verbatim>\<open>consts.rs\<close>), hashes, and the record
    \<open>tm_env\<close> of what the crate takes from tendermint and from the clock.

  \<^bold>\<open>Data of the crate types.\<close>
  \<^item> \<open>Nmt\<close> (\<^verbatim>\<open>nmt.rs\<close>, \<^verbatim>\<open>namespaced_hash.rs\<close>): namespaces and namespaced hashes; which byte strings are
    namespaces.
  \<^item> \<open>Merkle_Proof\<close> (\<^verbatim>\<open>merkle_proof.rs\<close>): completeness, and soundness without hash collisions.
  \<^item> \<open>Dah\<close> (\<^verbatim>\<open>data_availability_header.rs\<close>): construction, row proofs.
  \<^item> \<open>Block\<close> (\<^verbatim>\<open>block.rs\<close>), \<open>Validator_Set\<close> (\<^verbatim>\<open>validator_set.rs\<close>, \<^verbatim>\<open>trust_level.rs\<close>): a commit that verifies
    carries more than two thirds of the voting power; two such commits share a signer.
  \<^item> \<open>Extended_Header\<close> (\<^verbatim>\<open>extended_header.rs\<close>): validation of a header, verification of a header and of a
    range of headers against a trusted one.
  \<^item> \<open>Shwap_Ids\<close>, \<open>Shwap_Cid\<close> (\<^verbatim>\<open>row.rs\<close>, \<^verbatim>\<open>sample.rs\<close>, \<^verbatim>\<open>row_namespace_data.rs\<close>, \<^verbatim>\<open>node/src/p2p/shwap.rs\<close>):
    identifiers and content identifiers, in bijection (locale \<open>shwap_id\<close>).

  \<^bold>\<open>Stores.\<close>
  \<^item> \<open>Height_Set\<close>, \<open>Block_Ranges\<close> (\<^verbatim>\<open>node/src/block_ranges.rs\<close>): ranges of heights; every operation keeps the
    canonical form and refines the operation on sets (locale \<open>height_set\<close>).
  \<^item> \<open>Store\<close> (\<^verbatim>\<open>store.rs\<close>, \<^verbatim>\<open>store/utils.rs\<close>): the operations of a store as the record \<open>store_ops\<close>, their laws as
    the locales \<open>header_store\<close>, \<open>sampled_store\<close> and \<open>atomic_store\<close>.
  \<^item> \<open>In_Memory_Store\<close>, \<open>Redb_Store\<close>, \<open>Either_Store\<close>: the three stores with interpretations of the locales.
    Neighbouring headers are linked in every reachable state; the two stores agree; a failed insertion into
    the persistent store changes nothing; the migration of an old database.

  \<^bold>\<open>Networking.\<close>
  \<^item> \<open>Node_Common\<close>: errors and events. \<open>Peer_Tracker\<close>: the published counters are exact.
  \<^item> \<open>Header_Ex\<close>: messages, server, framing, and the check of a response. \<open>Header_Ex_Client\<close>: the client as a
    step relation; every request is answered once. \<open>Header_Session\<close>: a session returns each height of its
    range once and in order, whatever the peers do, and ends if they help.

  \<^bold>\<open>Workers.\<close>
  \<^item> \<open>Syncer\<close>: the worker as a step relation; with honest peers it fills the store.
  \<^item> \<open>Daser\<close>: the worker as a step relation; the identifiers of a block are in the store before it is sampled,
    and the verdict in the store is that of the samples.
  \<^item> \<open>Pruner\<close>: a round removes exactly the lowest headers outside the window and their blocks.

  \<^bold>\<open>Conventions.\<close> An operation takes the state of its object and returns the new state; an error is the left
  part of a sum, a panic a constructor of the error type that the source does not have. Texts of errors are
  the unformatted literals. Third party code (tendermint hashes, protobuf encodings, the CID library, the
  clock, random numbers, the network) is an argument of the definitions, and what the properties need of it is
  a hypothesis of theirs. A loop that may not end is a \<open>partial_function\<close>, and that it ends is part of the
  property; there is no fuel. An asynchronous task is the data its future captures, and its result and the
  order of the results are arguments. Arithmetic that overflows wraps around as in a release build.

  \<^bold>\<open>Not modelled.\<close> The libp2p swarm and behaviours, the executor and channels, the store over IndexedDB,
  the clients over gRPC and RPC, the bindings for WebAssembly and UniFFI, the command line tool, the
  generated protobuf code and logging: they are input and output or only call libraries.
\<close>

end
